(* ===== verification/Prelude.thy ===== *)
theory Prelude
  imports Main "HOL-Library.Word"
begin

text \<open>
  What every component shares: the machine integer types of the sources, the collections
  the component proofs rewrite with, the arithmetic of power-of-two masks on words, byte
  memory with block copies, and the two byte orders of a 32-bit integer.
\<close>

unbundle bit_operations_syntax

section \<open>Machine integers\<close>

type_synonym u8 = "8 word"
type_synonym u16 = "16 word"
type_synonym u32 = "32 word"
type_synonym u64 = "64 word"

text \<open>A byte string, a byte memory addressed by offset, and a pointer value.\<close>

type_synonym bytes = "u8 list"
type_synonym memory = "nat \<Rightarrow> u8"
type_synonym ptr = u64

text \<open>
  \<open>word_nat\<close> moves a goal about words to one about \<^typ>\<open>nat\<close>; \<open>mem_simps\<close> evaluates reads
  of a written memory.
\<close>

named_theorems word_nat \<open>words as natural numbers\<close>
named_theorems mem_simps \<open>reads over writes of a byte memory\<close>

lemma unat_lt_64: "unat (w :: u64) < 18446744073709551616"
  using unsigned_less [of w] by simp

lemma unat_lt_32: "unat (w :: u32) < 4294967296"
  using unsigned_less [of w] by simp

lemma unat_ucast_32_64 [simp]: "unat (ucast (w :: u32) :: u64) = unat w"
proof -
  have "unat w < 2 ^ 64" by (rule less_trans [OF unat_lt_32]) simp
  then show ?thesis by (simp add: unsigned_ucast_eq take_bit_nat_eq_self)
qed

lemma unat_of_nat_64 [word_nat]: "unat (of_nat n :: u64) = n mod 18446744073709551616"
  by (simp add: unat_of_nat)

lemma unat_max: "unat (max a b) = max (unat a) (unat b)"
  for a b :: u64
  by (simp add: max_def word_le_nat_alt)

lemma unat_sub_le:
  fixes a b :: "'a::len word"
  assumes "b \<le> a"
  shows "unat (a - b) = unat a - unat b"
  using assms by (simp add: unat_sub word_le_nat_alt)

section \<open>Powers of two and masks\<close>

text \<open>The guard \<open>n & (n - 1)\<close> of the sources: zero exactly at the powers of two.\<close>

lemma nat_and_pred_pow2:
  assumes "0 < n" and "n AND (n - 1) = (0::nat)"
  shows "\<exists>k. n = 2 ^ k"
  using assms
proof (induction n rule: less_induct)
  case (less n)
  show ?case
  proof (cases "even n")
    case True
    then obtain m where m: "n = 2 * m" by blast
    with less.prems have "0 < m" by simp
    then have pred: "n - 1 = 2 * (m - 1) + 1" using m by simp
    have "n AND (n - 1) = 2 * (m AND (m - 1))"
      unfolding pred unfolding m by (subst and_nat_rec) simp
    with less.prems have "m AND (m - 1) = 0" by simp
    with less.IH [of m] \<open>0 < m\<close> m obtain k where "m = 2 ^ k" by auto
    with m have "n = 2 ^ Suc k" by simp
    then show ?thesis by blast
  next
    case False
    then obtain m where m: "n = 2 * m + 1" by (blast elim: oddE)
    have "n AND (n - 1) = 2 * m"
      using m by (simp add: and_nat_rec [of "Suc (2 * m)"])
    with less.prems m have "n = 2 ^ 0" by simp
    then show ?thesis by blast
  qed
qed

lemma nat_and_pow2_pred: "(2::nat) ^ k AND (2 ^ k - 1) = 0"
proof -
  have "(2::nat) ^ k AND (2 ^ k - 1) = take_bit k (2 ^ k)"
    by (simp add: take_bit_eq_mask mask_eq_exp_minus_1)
  then show ?thesis by (simp add: take_bit_eq_mod)
qed

definition pow2 :: "'a::len word \<Rightarrow> bool" where
  "pow2 c \<longleftrightarrow> c \<noteq> 0 \<and> c AND (c - 1) = 0"

lemma unat_pred:
  fixes c :: "'a::len word"
  assumes "c \<noteq> 0"
  shows "unat (c - 1) = unat c - 1"
proof -
  have "0 < unat c" using assms by (simp add: unat_gt_0)
  then have "1 \<le> c" by (simp add: word_le_nat_alt)
  then show ?thesis by (simp add: unat_sub word_le_nat_alt)
qed

lemma pow2E:
  fixes c :: "'a::len word"
  assumes "pow2 c"
  obtains k where "unat c = 2 ^ k" and "k < LENGTH('a)"
proof -
  from assms have nz: "c \<noteq> 0" and z: "c AND (c - 1) = 0" by (auto simp: pow2_def)
  have "unat (c AND (c - 1)) = unat c AND (unat c - 1)"
    by (simp add: unsigned_and_eq unat_pred [OF nz])
  with z have "unat c AND (unat c - 1) = 0" by simp
  moreover have "0 < unat c" using nz by (simp add: unat_gt_0)
  ultimately obtain k where k: "unat c = 2 ^ k" using nat_and_pred_pow2 by blast
  have "unat c < 2 ^ LENGTH('a)" by (rule unsigned_less)
  with k have "k < LENGTH('a)" by simp
  with k that show ?thesis by blast
qed

lemma unat_exp2:
  assumes "k < LENGTH('a)"
  shows "unat (2 ^ k :: 'a::len word) = 2 ^ k"
proof -
  have "unat (2 ^ k :: 'a word) = unat (of_nat (2 ^ k) :: 'a word)" by simp
  also have "\<dots> = 2 ^ k" using assms by (simp only: unat_of_nat) simp
  finally show ?thesis .
qed

lemma pow2_exp [simp]:
  assumes "k < LENGTH('a)"
  shows "pow2 (2 ^ k :: 'a::len word)"
proof -
  have nz: "(2 ^ k :: 'a word) \<noteq> 0" using assms by simp
  note u = unat_exp2 [OF assms]
  have "unat (2 ^ k AND (2 ^ k - 1) :: 'a word) = 2 ^ k AND (2 ^ k - 1)"
    using assms by (simp add: unsigned_and_eq unat_pred [OF nz] u)
  with nat_and_pow2_pred have "unat (2 ^ k AND (2 ^ k - 1) :: 'a word) = 0" by simp
  then show ?thesis using nz by (simp add: pow2_def unat_eq_0)
qed

lemma pow2_iff: "pow2 c \<longleftrightarrow> (\<exists>k. unat c = 2 ^ k)"
  for c :: "'a::len word"
proof
  assume "\<exists>k. unat c = 2 ^ k"
  then obtain k where k: "unat c = 2 ^ k" ..
  have lt: "k < LENGTH('a)" by (rule power_less_imp_less_exp [of "2 :: nat"]) (simp_all flip: k)
  have "c = of_nat (2 ^ k)" by (simp flip: k)
  with lt show "pow2 c" by simp
qed (auto elim: pow2E)

text \<open>Masking with \<open>c - 1\<close> is the remainder; clearing the mask rounds down.\<close>

lemma unat_and_pred_pow2:
  fixes x c :: "'a::len word"
  assumes "unat c = 2 ^ k"
  shows "unat (x AND (c - 1)) = unat x mod 2 ^ k"
proof -
  have nz: "c \<noteq> 0" using assms by auto
  have "unat (x AND (c - 1)) = unat x AND (2 ^ k - 1)"
    by (simp add: unsigned_and_eq unat_pred [OF nz] assms)
  also have "\<dots> = take_bit k (unat x)"
    by (simp add: take_bit_eq_mask mask_eq_exp_minus_1)
  finally show ?thesis by (simp add: take_bit_eq_mod)
qed

lemma unat_and_not_pred_pow2:
  fixes x c :: "'a::len word"
  assumes "unat c = 2 ^ k"
  shows "unat (x AND NOT (c - 1)) = unat x - unat x mod 2 ^ k"
proof -
  have "x = (x AND NOT (c - 1)) OR (x AND (c - 1))"
    by (rule bit_eqI) (auto simp: bit_simps)
  also have "\<dots> = (x AND NOT (c - 1)) + (x AND (c - 1))"
    by (rule disjunctive_add [symmetric]) (auto simp: bit_simps)
  finally have "x = (x AND NOT (c - 1)) + (x AND (c - 1))" .
  then have eq: "x - (x AND (c - 1)) = x AND NOT (c - 1)" by (metis add_diff_cancel_right')
  have "x AND (c - 1) \<le> x" by (rule word_and_le2)
  then have "unat (x - (x AND (c - 1))) = unat x - unat (x AND (c - 1))"
    by (rule unat_sub_le)
  then show ?thesis by (simp add: eq unat_and_pred_pow2 [OF assms])
qed

text \<open>Counters that wrap at \<open>2 ^ 64\<close> keep their remainder modulo a smaller power of two.\<close>

lemma unat_add_of_nat_mod:
  fixes r :: u64
  assumes "k \<le> 64"
  shows "unat (r + of_nat i) mod 2 ^ k = (unat r + i) mod 2 ^ k"
proof -
  have dvd: "(2::nat) ^ k dvd 2 ^ 64" using assms by (rule le_imp_power_dvd)
  have "unat (r + of_nat i) = (unat r + i) mod 2 ^ 64"
    by (simp add: unat_word_ariths unat_of_nat mod_simps)
  then show ?thesis using dvd by (simp only: mod_mod_cancel)
qed

lemma mod_add_inj:
  fixes a i j n :: nat
  assumes "(a + i) mod n = (a + j) mod n" and "i < n" and "j < n"
  shows "i = j"
proof -
  have aux: "i = j" if "i \<le> j" "(a + i) mod n = (a + j) mod n" "j < n" for i j :: nat
  proof -
    have "n dvd (a + j) - (a + i)"
      using that by (metis mod_eq_dvd_iff_nat add_le_cancel_left)
    then have "n dvd j - i" by simp
    with \<open>j < n\<close> \<open>i \<le> j\<close> show "i = j" by (auto dest: dvd_imp_le)
  qed
  show ?thesis using aux [of i j] aux [of j i] assms by (metis nat_le_linear)
qed

section \<open>Byte memory\<close>

text \<open>\<open>memcpy\<close> into and out of a memory that is addressed by offset.\<close>

definition write_bytes :: "memory \<Rightarrow> nat \<Rightarrow> bytes \<Rightarrow> memory" where
  "write_bytes m a bs = (\<lambda>i. if a \<le> i \<and> i < a + length bs then bs ! (i - a) else m i)"

definition read_bytes :: "memory \<Rightarrow> nat \<Rightarrow> nat \<Rightarrow> bytes" where
  "read_bytes m a n = map m [a..<a + n]"

lemma length_read_bytes [simp]: "length (read_bytes m a n) = n"
  by (simp add: read_bytes_def)

lemma read_bytes_0 [simp]: "read_bytes m a 0 = []"
  by (simp add: read_bytes_def)

lemma read_bytes_Suc: "read_bytes m a (Suc n) = read_bytes m a n @ [m (a + n)]"
  by (simp add: read_bytes_def)

lemma read_bytes_Cons: "read_bytes m a (Suc n) = m a # read_bytes m (Suc a) n"
  by (simp add: read_bytes_def upt_conv_Cons del: upt_Suc)

lemma write_bytes_Nil [simp]: "write_bytes m a [] = m"
  by (auto simp: write_bytes_def fun_eq_iff)

lemma read_write_same [mem_simps]:
  "n \<le> length bs \<Longrightarrow> read_bytes (write_bytes m a bs) a n = take n bs"
  by (rule nth_equalityI) (auto simp: read_bytes_def write_bytes_def)

lemma read_write_disjoint [mem_simps]:
  "a + n \<le> b \<or> b + length bs \<le> a \<Longrightarrow> read_bytes (write_bytes m b bs) a n = read_bytes m a n"
  by (auto simp: read_bytes_def write_bytes_def)

lemma write_bytes_outside: "i < a \<or> a + length bs \<le> i \<Longrightarrow> write_bytes m a bs i = m i"
  by (auto simp: write_bytes_def)

lemma read_bytes_cong:
  "(\<And>i. a \<le> i \<Longrightarrow> i < a + n \<Longrightarrow> m i = m' i) \<Longrightarrow> read_bytes m a n = read_bytes m' a n"
  by (simp add: read_bytes_def)

section \<open>32-bit integers as four bytes\<close>

definition le32_bytes :: "u32 \<Rightarrow> bytes" where
  "le32_bytes w = [ucast w, ucast (drop_bit 8 w), ucast (drop_bit 16 w), ucast (drop_bit 24 w)]"

definition le32_of :: "bytes \<Rightarrow> u32" where
  "le32_of bs = ucast (bs ! 0) OR push_bit 8 (ucast (bs ! 1)) OR push_bit 16 (ucast (bs ! 2))
      OR push_bit 24 (ucast (bs ! 3))"

definition be32_bytes :: "u32 \<Rightarrow> bytes" where
  "be32_bytes w = rev (le32_bytes w)"

definition be32_of :: "bytes \<Rightarrow> u32" where
  "be32_of bs = le32_of (rev bs)"

lemma length_le32 [simp]: "length (le32_bytes w) = 4"
  by (simp add: le32_bytes_def)

lemma length_be32 [simp]: "length (be32_bytes w) = 4"
  by (simp add: be32_bytes_def)

lemma le32_roundtrip [simp]: "le32_of (le32_bytes w) = w"
proof (rule bit_eqI)
  fix n assume n: "possible_bit TYPE(u32) n"
  then consider "n < 8" | "8 \<le> n" "n < 16" | "16 \<le> n" "n < 24" | "24 \<le> n" "n < 32"
    by fastforce
  then show "bit (le32_of (le32_bytes w)) n = bit w n"
    by cases (simp_all add: le32_of_def le32_bytes_def bit_simps less_diff_conv2)
qed

lemma be32_roundtrip [simp]: "be32_of (be32_bytes w) = w"
  by (simp add: be32_of_def be32_bytes_def)

lemma bit_u8_beyond: "\<not> bit (a :: u8) (8 + n)" "\<not> bit (a :: u8) (16 + n)" "\<not> bit (a :: u8) (24 + n)"
  using bit_imp_le_length [of a "8 + n"] bit_imp_le_length [of a "16 + n"]
    bit_imp_le_length [of a "24 + n"] by auto

lemma le32_bytes_of:
  assumes "length bs = 4"
  shows "le32_bytes (le32_of bs) = bs"
proof -
  obtain a b c d where bs: "bs = [a, b, c, d]"
    using assms by (auto simp: numeral_eq_Suc length_Suc_conv)
  show ?thesis
    unfolding bs le32_bytes_def le32_of_def
    by (simp add: bit_eq_iff bit_simps bit_u8_beyond)
qed

lemma be32_bytes_of: "length bs = 4 \<Longrightarrow> be32_bytes (be32_of bs) = bs"
  by (simp add: be32_bytes_def be32_of_def le32_bytes_of)

definition store32 :: "memory \<Rightarrow> nat \<Rightarrow> u32 \<Rightarrow> memory" where
  "store32 m a w = write_bytes m a (le32_bytes w)"

definition load32 :: "memory \<Rightarrow> nat \<Rightarrow> u32" where
  "load32 m a = le32_of (read_bytes m a 4)"

lemma load_store32 [mem_simps]: "load32 (store32 m a w) a = w"
  by (simp add: load32_def store32_def mem_simps)

lemma load_store32_disjoint [mem_simps]:
  "a + 4 \<le> b \<or> b + 4 \<le> a \<Longrightarrow> load32 (store32 m b w) a = load32 m a"
  by (simp add: load32_def store32_def mem_simps)

lemma load32_write_disjoint [mem_simps]:
  "a + 4 \<le> b \<or> b + length bs \<le> a \<Longrightarrow> load32 (write_bytes m b bs) a = load32 m a"
  by (simp add: load32_def mem_simps)

lemma read_store32_disjoint [mem_simps]:
  "a + n \<le> b \<or> b + 4 \<le> a \<Longrightarrow> read_bytes (store32 m b w) a n = read_bytes m a n"
  by (simp add: store32_def mem_simps)

end
