(* ===== verification/Fifo.thy ===== *)
theory Fifo
  imports Prelude
begin

text \<open>
  The contract of a bounded first-in first-out queue, which the shared-memory bus and the
  free list of the memory pool both promise, and what follows from it for every client: the
  behaviour of an arbitrary sequence of operations. Also the arithmetic of ring indices that
  both implementations use.
\<close>

section \<open>Indices of a power-of-two ring\<close>

text \<open>
  Positions are free-running 64-bit counters; a position selects the slot \<open>pos mod 2 ^ k\<close>.
  Positions that lie within one capacity of each other select different slots, also across
  the wrap-around of the counter.
\<close>

lemma ring_index_inj:
  fixes r :: u64
  assumes "k \<le> 64" and "i < 2 ^ k" and "j < 2 ^ k"
    and "unat (r + of_nat i) mod 2 ^ k = unat (r + of_nat j) mod 2 ^ k"
  shows "i = j"
  using assms by (auto simp: unat_add_of_nat_mod dest: mod_add_inj)

lemma ring_index_neq:
  assumes "k \<le> 64" and "R \<le> i" and "i < R + 2 ^ k" and "R \<le> j" and "j < R + 2 ^ k" and "i \<noteq> j"
  shows "unat (of_nat i :: u64) mod 2 ^ k \<noteq> unat (of_nat j :: u64) mod 2 ^ k"
proof -
  obtain a b where ab: "i = R + a" "j = R + b" using assms by (auto simp: le_iff_add)
  with assms have "a < 2 ^ k" "b < 2 ^ k" "a \<noteq> b" by simp_all
  with assms(1) ring_index_inj [of k a b "of_nat R"] show ?thesis by (auto simp: ab)
qed

lemma unat_of_nat_diff:
  assumes "b \<le> a" and "a - b < 2 ^ 64"
  shows "unat ((of_nat a :: u64) - of_nat b) = a - b"
proof -
  have "unat ((of_nat a :: u64) - of_nat b) = unat (of_nat (a - b) :: u64)"
    by (simp only: of_nat_diff [OF assms(1)])
  then show ?thesis using assms(2) by (simp add: unat_of_nat_64)
qed

lemma pos_offset: "(w :: u64) = r + of_nat (unat (w - r))"
  by simp

text \<open>A value read from a counter lies between an older reading and the current one.\<close>

lemma counter_between:
  fixes v :: u64
  assumes "a \<le> b" and "b - a < 2 ^ 64" and "unat (v - of_nat a) \<le> unat (of_nat b - of_nat a :: u64)"
  obtains c where "a \<le> c" and "c \<le> b" and "v = of_nat c"
proof -
  let ?d = "unat (v - of_nat a)"
  have "?d \<le> b - a" using assms by (simp add: unat_of_nat_diff)
  moreover have "v = of_nat (a + ?d)" using pos_offset [of v "of_nat a"] by simp
  ultimately show ?thesis using that [of "a + ?d"] assms(1) by simp
qed


lemma unat_incr: "unat (d :: u64) < 2 ^ 32 \<Longrightarrow> unat (d + 1) = Suc (unat d)"
  by (simp add: unat_word_ariths)

lemma distance_push: "unat (w - r :: u64) < 2 ^ 32 \<Longrightarrow> unat (w + 1 - r) = Suc (unat (w - r))"
  using unat_incr [of "w - r"] by (simp add: diff_add_eq)

lemma distance_pop: "(w :: u64) \<noteq> r \<Longrightarrow> unat (w - (r + 1)) = unat (w - r) - 1"
  using unat_pred [of "w - r"] by (simp add: diff_diff_eq)

section \<open>The queue interface\<close>

datatype 'm fifo_op = Enq 'm | Deq

text \<open>A sequence of operations; the messages it accepted, those it delivered, the final state.\<close>

fun fifo_run :: "('m \<Rightarrow> 's \<Rightarrow> bool \<times> 's) \<Rightarrow> ('s \<Rightarrow> 'm option \<times> 's) \<Rightarrow> 'm fifo_op list \<Rightarrow> 's
    \<Rightarrow> 'm list \<times> 'm list \<times> 's" where
  "fifo_run enq deq [] s = ([], [], s)"
| "fifo_run enq deq (Enq m # ops) s =
     (let (b, s1) = enq m s; (acc, del, s2) = fifo_run enq deq ops s1
      in (if b then m # acc else acc, del, s2))"
| "fifo_run enq deq (Deq # ops) s =
     (let (r, s1) = deq s; (acc, del, s2) = fifo_run enq deq ops s1
      in (acc, (case r of None \<Rightarrow> del | Some m \<Rightarrow> m # del), s2))"

locale bounded_fifo =
  fixes enq :: "'m \<Rightarrow> 's \<Rightarrow> bool \<times> 's"
    and deq :: "'s \<Rightarrow> 'm option \<times> 's"
    and queue :: "'s \<Rightarrow> 'm list"
    and bound :: "'s \<Rightarrow> nat"
    and ok :: "'s \<Rightarrow> 'm \<Rightarrow> bool"
    and invar :: "'s \<Rightarrow> bool"
  assumes enq_fst: "invar s \<Longrightarrow> ok s m \<Longrightarrow> fst (enq m s) \<longleftrightarrow> length (queue s) < bound s"
    and enq_queue: "invar s \<Longrightarrow> ok s m \<Longrightarrow>
      queue (snd (enq m s)) = (if length (queue s) < bound s then queue s @ [m] else queue s)"
    and enq_invar: "invar s \<Longrightarrow> ok s m \<Longrightarrow> invar (snd (enq m s))"
    and enq_bound: "invar s \<Longrightarrow> ok s m \<Longrightarrow> bound (snd (enq m s)) = bound s"
    and enq_ok: "invar s \<Longrightarrow> ok s m \<Longrightarrow> ok (snd (enq m s)) = ok s"
    and deq_fst: "invar s \<Longrightarrow> fst (deq s) = (case queue s of [] \<Rightarrow> None | x # xs \<Rightarrow> Some x)"
    and deq_queue: "invar s \<Longrightarrow> queue (snd (deq s)) = tl (queue s)"
    and deq_invar: "invar s \<Longrightarrow> invar (snd (deq s))"
    and deq_bound: "invar s \<Longrightarrow> bound (snd (deq s)) = bound s"
    and deq_ok: "invar s \<Longrightarrow> ok (snd (deq s)) = ok s"
    and queue_bound: "invar s \<Longrightarrow> length (queue s) \<le> bound s"
begin

lemmas enq_laws = enq_fst enq_queue enq_invar enq_bound enq_ok
lemmas deq_laws = deq_fst deq_queue deq_invar deq_bound deq_ok

definition admissible :: "'s \<Rightarrow> 'm fifo_op list \<Rightarrow> bool" where
  "admissible s ops \<longleftrightarrow> (\<forall>m. Enq m \<in> set ops \<longrightarrow> ok s m)"

lemma admissible_Cons:
  "admissible s (Enq m # ops) \<longleftrightarrow> ok s m \<and> admissible s ops"
  "admissible s (Deq # ops) \<longleftrightarrow> admissible s ops"
  by (auto simp: admissible_def)

lemma admissible_step:
  "invar s \<Longrightarrow> ok s m \<Longrightarrow> admissible (snd (enq m s)) ops \<longleftrightarrow> admissible s ops"
  "invar s \<Longrightarrow> admissible (snd (deq s)) ops \<longleftrightarrow> admissible s ops"
  by (simp_all add: admissible_def enq_ok deq_ok)

text \<open>
  First in, first out, for every sequence of operations: what was queued at the start and
  then accepted is what was delivered followed by what is still queued.
\<close>

lemma run_fifo:
  assumes "invar s" and "admissible s ops" and "fifo_run enq deq ops s = (acc, del, s')"
  shows "queue s @ acc = del @ queue s' \<and> invar s' \<and> bound s' = bound s"
  using assms
proof (induction ops arbitrary: s acc del s')
  case Nil
  then show ?case by simp
next
  case (Cons op ops)
  show ?case
  proof (cases op)
    case (Enq m)
    obtain b s1 where e: "enq m s = (b, s1)" by force
    obtain acc1 del1 where r: "fifo_run enq deq ops s1 = (acc1, del1, s')"
      and out: "acc = (if b then m # acc1 else acc1)" "del = del1"
      using Cons.prems(3) e Enq by (auto split: prod.splits)
    from Cons.prems Enq have o: "ok s m" "admissible s ops" by (simp_all add: admissible_Cons)
    have s1: "s1 = snd (enq m s)" "b = fst (enq m s)" using e by simp_all
    have "queue s1 @ acc1 = del1 @ queue s' \<and> invar s' \<and> bound s' = bound s1"
      using Cons.IH [OF _ _ r] Cons.prems(1) o by (simp add: s1 enq_invar admissible_step)
    then show ?thesis
      using out Cons.prems(1) o by (auto simp: s1 enq_queue enq_fst enq_bound split: if_splits)
  next
    case Deq
    obtain x s1 where d: "deq s = (x, s1)" by force
    obtain del1 where r: "fifo_run enq deq ops s1 = (acc, del1, s')"
      and out: "del = (case x of None \<Rightarrow> del1 | Some m \<Rightarrow> m # del1)"
      using Cons.prems(3) d Deq by (auto split: prod.splits)
    from Cons.prems Deq have o: "admissible s ops" by (simp add: admissible_Cons)
    have s1: "s1 = snd (deq s)" "x = fst (deq s)" using d by simp_all
    have "queue s1 @ acc = del1 @ queue s' \<and> invar s' \<and> bound s' = bound s1"
      using Cons.IH [OF _ _ r] Cons.prems(1) o by (simp add: s1 deq_invar admissible_step)
    then show ?thesis
      using out Cons.prems(1) by (auto simp: s1 deq_laws split: list.splits)
  qed
qed

text \<open>Never more than the bound in flight, counted over a whole sequence.\<close>

lemma run_bounded:
  assumes "invar s" and "admissible s ops" and "fifo_run enq deq ops s = (acc, del, s')"
  shows "length (queue s) + length acc \<le> length del + bound s"
proof -
  from run_fifo [OF assms] have "length (queue s @ acc) = length (del @ queue s')"
    and "invar s'" "bound s' = bound s" by simp_all
  with queue_bound [of s'] show ?thesis by simp
qed

end

end
