(* ===== verification/Spsc_Layout.thy ===== *)
theory Spsc_Layout
  imports Prelude Fifo
begin

text \<open>
  The shared-memory layout of \<open>spsc_bus.hpp\<close>: the control block, the slot header, the size
  computations and the address of a slot, with the bounds that keep every slot inside the
  segment and apart from the others.
\<close>

section \<open>Constants and types\<close>

definition kCacheLine :: u64 where "kCacheLine = 64"
definition kMagic :: u32 where "kMagic = 0x53505343"
definition kDefaultCheckEvery :: int where "kDefaultCheckEvery = 1024"

datatype PeerStatus = Alive | Dead | Unknown

record BusOptions =
  lock_memory :: bool
  huge_pages :: bool

text \<open>\<open>sizeof(SlotHeader)\<close> is 8: \<open>generation\<close> at offset 0 and \<open>size\<close> at offset 4.\<close>

definition sizeof_SlotHeader :: u64 where "sizeof_SlotHeader = 8"
definition sizeof_ControlBlock :: u64 where "sizeof_ControlBlock = 4 * kCacheLine"

record ControlBlock =
  magic :: u32
  capacity :: u32
  slot_stride :: u32
  max_msg_size :: u32
  session_id :: u64
  write_pos :: u64
  read_pos :: u64
  producer_pid :: u32
  producer_heartbeat_ts :: u64
  consumer_pid :: u32
  consumer_heartbeat_ts :: u64

text \<open>
  A mapped segment: its control block, its bytes by offset from the start of the mapping
  (the slots begin at offset 256), its size.
\<close>

record segment =
  ctrl :: ControlBlock
  mem :: memory
  seg_size :: u64

section \<open>Sizes and addresses\<close>

definition compute_slot_stride :: "u32 \<Rightarrow> u64" where
  "compute_slot_stride max_msg =
     (let raw = sizeof_SlotHeader + ucast max_msg
      in (raw + kCacheLine - 1) AND NOT (kCacheLine - 1))"

definition compute_shm_size :: "u32 \<Rightarrow> u32 \<Rightarrow> u64" where
  "compute_shm_size cap max_msg =
     sizeof_ControlBlock + ucast cap * compute_slot_stride max_msg"

text \<open>The offset of the slot for an absolute position.\<close>

definition slot_ptr :: "u32 \<Rightarrow> u32 \<Rightarrow> u64 \<Rightarrow> nat" where
  "slot_ptr cap stride pos =
     (let idx = ucast pos AND (cap - 1)
      in unat sizeof_ControlBlock + unat (ucast idx * ucast stride :: u64))"

text \<open>Where the header fields and the payload of a slot are.\<close>

definition gen_ptr :: "nat \<Rightarrow> nat" where "gen_ptr slot = slot"
definition size_ptr :: "nat \<Rightarrow> nat" where "size_ptr slot = slot + 4"
definition payload_ptr :: "nat \<Rightarrow> nat" where "payload_ptr slot = slot + 8"

lemmas layout_consts = kCacheLine_def sizeof_SlotHeader_def sizeof_ControlBlock_def
lemmas slot_fields = gen_ptr_def size_ptr_def payload_ptr_def

section \<open>The stride\<close>

lemma unat_compute_slot_stride:
  "unat (compute_slot_stride m) = 64 * ((unat m + 71) div 64)"
proof -
  have 64: "unat (64 :: u64) = 2 ^ 6" by simp
  let ?r = "(8 + ucast m :: u64) + 64 - 1"
  have "unat ?r = unat (71 + ucast m :: u64)" by (simp add: algebra_simps)
  also have "\<dots> = 71 + unat m"
    using unat_lt_32 [of m] by (simp add: unat_word_ariths)
  finally have r: "unat ?r = unat m + 71" by simp
  have "unat (compute_slot_stride m) = unat (?r AND NOT (64 - 1))"
    by (simp add: compute_slot_stride_def layout_consts)
  also have "\<dots> = unat ?r - unat ?r mod 2 ^ 6"
    by (rule unat_and_not_pred_pow2 [OF 64])
  also have "\<dots> = 64 * ((unat m + 71) div 64)"
    by (simp only: r) (simp add: minus_mod_eq_mult_div)
  finally show ?thesis .
qed

lemma stride_fits: "unat m + 8 \<le> unat (compute_slot_stride m)"
proof -
  have "64 * ((unat m + 71) div 64) + (unat m + 71) mod 64 = unat m + 71"
    by (rule mult_div_mod_eq)
  moreover have "(unat m + 71) mod 64 < 64" by simp
  ultimately show ?thesis unfolding unat_compute_slot_stride by linarith
qed

lemma stride_aligned: "64 dvd unat (compute_slot_stride m)"
  by (simp add: unat_compute_slot_stride)

text \<open>
  The control block keeps the stride in 32 bits. The conversion is exact, and the stored
  stride covers header and payload, up to the maximum message size \<open>2 ^ 32 - 72\<close>.
\<close>

lemma unat_stride32:
  "unat (ucast (compute_slot_stride m) :: u32) = 64 * ((unat m + 71) div 64) mod 2 ^ 32"
  by (simp add: unsigned_ucast_eq take_bit_eq_mod unat_compute_slot_stride)

lemma stride32_exact:
  assumes "unat m \<le> 2 ^ 32 - 72"
  shows "unat (ucast (compute_slot_stride m) :: u32) = unat (compute_slot_stride m)"
proof -
  have "64 * ((unat m + 71) div 64) < 2 ^ 32" using assms by simp
  then show ?thesis by (simp only: unat_stride32 unat_compute_slot_stride mod_less)
qed

text \<open>
  The size of a segment as a number: the control block and \<open>cap\<close> slots, each a header and the longest message
  rounded up to cache lines. The computed size is exact: with the largest capacity it is still below \<open>2 ^ 64\<close>.
\<close>

definition segment_bytes :: "u32 \<Rightarrow> u32 \<Rightarrow> nat" where
  "segment_bytes cap m = 256 + unat cap * (64 * ((unat m + 71) div 64))"

lemma unat_compute_shm_size:
  assumes "unat cap = 2 ^ k" and "k < 32"
  shows "unat (compute_shm_size cap m) = segment_bytes cap m"
proof -
  define st where "st = 64 * ((unat m + 71) div 64)"
  have st: "unat (compute_slot_stride m) = st" by (simp add: unat_compute_slot_stride st_def)
  have "64 * ((unat m + 71) div 64) \<le> unat m + 71" by simp
  then have "st \<le> 2 ^ 32 + 71" using unat_lt_32 [of m] by (simp add: st_def)
  moreover have "(2::nat) ^ k \<le> 2 ^ 31" using assms(2) by (intro power_increasing) auto
  ultimately have "2 ^ k * st \<le> 2 ^ 31 * (2 ^ 32 + 71)" by (intro mult_mono) auto
  then have "256 + 2 ^ k * st < 2 ^ 64" by simp
  then show ?thesis
    using assms(1) by (simp add: compute_shm_size_def layout_consts unat_word_ariths st segment_bytes_def flip: st_def)
qed

section \<open>Slots\<close>

lemma slot_index:
  assumes "unat cap = 2 ^ k" and "k < 32"
  shows "unat (ucast (pos :: u64) AND (cap - 1) :: u32) = unat pos mod 2 ^ k"
proof -
  have "unat (ucast pos :: u32) mod 2 ^ k = unat pos mod 2 ^ 32 mod 2 ^ k"
    by (simp add: unsigned_ucast_eq take_bit_eq_mod)
  also have "\<dots> = unat pos mod 2 ^ k"
    using assms(2) by (intro mod_mod_cancel le_imp_power_dvd) simp
  finally show ?thesis by (simp add: unat_and_pred_pow2 [OF assms(1)])
qed

lemma slot_ptr_eq:
  assumes "unat cap = 2 ^ k" and "k < 32"
  shows "slot_ptr cap stride pos = 256 + (unat pos mod 2 ^ k) * unat stride"
proof -
  let ?i = "unat pos mod 2 ^ k"
  have "?i < 2 ^ k" by simp
  also have "(2::nat) ^ k \<le> 2 ^ 31" using assms(2) by (intro power_increasing) auto
  finally have i: "?i \<le> 2 ^ 31" by simp
  have "?i * unat stride \<le> 2 ^ 31 * 2 ^ 32"
    using i unat_lt_32 [of stride] by (intro mult_mono) auto
  then have "?i * unat stride < 2 ^ 64" by (rule le_less_trans) simp
  then show ?thesis
    by (simp add: slot_ptr_def layout_consts Let_def unat_word_ariths slot_index [OF assms])
qed

text \<open>Two positions within one capacity of each other have slots that do not overlap.\<close>

lemma mult_stride_disjoint:
  fixes a b s :: nat
  assumes "a \<noteq> b"
  shows "a * s + s \<le> b * s \<or> b * s + s \<le> a * s"
proof -
  from assms have "Suc a \<le> b \<or> Suc b \<le> a" by linarith
  then have "Suc a * s \<le> b * s \<or> Suc b * s \<le> a * s" using mult_le_mono1 by blast
  then show ?thesis by (simp add: add.commute)
qed

lemma slots_disjoint_index:
  assumes "unat cap = 2 ^ k" and "k < 32" and "unat p mod 2 ^ k \<noteq> unat q mod 2 ^ k"
  shows "slot_ptr cap stride p + unat stride \<le> slot_ptr cap stride q \<or>
         slot_ptr cap stride q + unat stride \<le> slot_ptr cap stride p"
  using mult_stride_disjoint [OF assms(3), of "unat stride"]
  by (auto simp: slot_ptr_eq [OF assms(1,2)])

end
