(* ===== verification/Spsc_Bus.thy ===== *)
theory Spsc_Bus
  imports Spsc_Layout
begin

text \<open>
  The producer and the consumer of \<open>spsc_bus.hpp\<close>, call by call. A call takes the object's
  own fields and the mapped segment and returns them updated. The ring is shown to be a
  bounded first-in first-out queue of byte strings.
\<close>

section \<open>Creating a segment\<close>

text \<open>
  What the system calls of \<open>SharedBus::create\<close> return; an \<open>errno\<close> field is the value of
  \<open>errno\<close> when the exception is built.
\<close>

record timespec =
  tv_sec :: int
  tv_nsec :: int

record create_env =
  shm_open_ret :: int
  shm_open_errno :: int
  ftruncate_ret :: int
  ftruncate_errno :: int
  mmap_failed :: bool
  mmap_errno :: int
  env_time :: timespec
  env_pid :: u32

datatype bus_error =
    InvalidArgument string
  | SystemError int string
  | RuntimeError string

text \<open>The system calls a call of \<open>create\<close> makes on the name, in order.\<close>

datatype syscall = ShmOpen | Ftruncate u64 | Mmap bool u64 | CloseFd | ShmUnlink | Mlock u64

definition mono_ns :: "timespec \<Rightarrow> u64" where
  "mono_ns ts = of_int (tv_sec ts) * 1000000000 + of_int (tv_nsec ts)"

definition make_session_id :: "create_env \<Rightarrow> u64" where
  "make_session_id env =
     (let ts = env_time env;
          t = of_int (tv_sec ts) * 1000000000 + of_int (tv_nsec ts) :: u64
      in t XOR push_bit 32 (ucast (env_pid env)))"

definition init_segment :: "u32 \<Rightarrow> u32 \<Rightarrow> u64 \<Rightarrow> u64 \<Rightarrow> segment" where
  "init_segment cap max_msg sid sz =
     \<lparr> ctrl = \<lparr> magic = kMagic, capacity = cap,
         slot_stride = ucast (compute_slot_stride max_msg), max_msg_size = max_msg,
         session_id = sid, write_pos = 0, read_pos = 0,
         producer_pid = 0, producer_heartbeat_ts = 0,
         consumer_pid = 0, consumer_heartbeat_ts = 0 \<rparr>,
       mem = (\<lambda>_. 0), seg_size = sz \<rparr>"

definition create :: "u32 \<Rightarrow> u32 \<Rightarrow> BusOptions \<Rightarrow> create_env
    \<Rightarrow> (bus_error + segment) \<times> syscall list" where
  "create cap max_msg opts env =
     (if cap = 0 \<or> cap AND (cap - 1) \<noteq> 0
      then (Inl (InvalidArgument ''capacity must be a power of two''), [])
      else if max_msg = 0
      then (Inl (InvalidArgument ''max_msg_size must be > 0''), [])
      else let sz = compute_shm_size cap max_msg in
        if shm_open_ret env < 0
        then (Inl (SystemError (shm_open_errno env) ''shm_open(create)''), [ShmOpen])
        else if ftruncate_ret env < 0
        then (Inl (SystemError (ftruncate_errno env) ''ftruncate''),
              [ShmOpen, Ftruncate sz, CloseFd, ShmUnlink])
        else if mmap_failed env
        then (Inl (SystemError (mmap_errno env) ''mmap(create)''),
              [ShmOpen, Ftruncate sz, Mmap (huge_pages opts) sz, CloseFd])
        else (Inr (init_segment cap max_msg (make_session_id env) sz),
              [ShmOpen, Ftruncate sz, Mmap (huge_pages opts) sz, CloseFd]
                @ (if lock_memory opts then [Mlock sz] else [])))"

section \<open>Producer\<close>

record Producer =
  p_capacity :: u32
  p_stride :: u32
  p_max_msg :: u32
  p_write_pos :: u64
  p_read_cache :: u64

definition new_Producer :: "u32 \<Rightarrow> segment \<Rightarrow> Producer \<times> segment" where
  "new_Producer pid s =
     (\<lparr> p_capacity = capacity (ctrl s), p_stride = slot_stride (ctrl s),
        p_max_msg = max_msg_size (ctrl s), p_write_pos = write_pos (ctrl s),
        p_read_cache = read_pos (ctrl s) \<rparr>,
      s\<lparr>ctrl := (ctrl s)\<lparr>producer_pid := pid\<rparr>\<rparr>)"

definition p_full :: "Producer \<Rightarrow> bool" where
  "p_full p \<longleftrightarrow> ucast (p_capacity p) \<le> p_write_pos p - p_read_cache p"

definition p_slot :: "Producer \<Rightarrow> nat" where
  "p_slot p = slot_ptr (p_capacity p) (p_stride p) (p_write_pos p)"

definition fill_slot :: "nat \<Rightarrow> bytes \<Rightarrow> u32 \<Rightarrow> memory \<Rightarrow> memory" where
  "fill_slot slot payload sz m =
     write_bytes (store32 m (size_ptr slot) sz) (payload_ptr slot) (take (unat sz) payload)"

definition push_slot :: "bytes \<Rightarrow> u32 \<Rightarrow> Producer \<Rightarrow> segment \<Rightarrow> bool \<times> Producer \<times> segment" where
  "push_slot payload sz p s =
     (True, p\<lparr>p_write_pos := p_write_pos p + 1\<rparr>,
      s\<lparr>mem := fill_slot (p_slot p) payload sz (mem s),
        ctrl := (ctrl s)\<lparr>write_pos := p_write_pos p + 1\<rparr>\<rparr>)"

definition try_push :: "bytes \<Rightarrow> u32 \<Rightarrow> Producer \<Rightarrow> segment \<Rightarrow> bool \<times> Producer \<times> segment" where
  "try_push payload sz p s =
     (if p_max_msg p < sz then (False, p, s)
      else if p_full p
      then let p' = p\<lparr>p_read_cache := read_pos (ctrl s)\<rparr>
           in if p_full p' then (False, p', s) else push_slot payload sz p' s
      else push_slot payload sz p s)"

section \<open>Consumer\<close>

record Consumer =
  c_capacity :: u32
  c_stride :: u32
  c_max_msg :: u32
  c_read_pos :: u64
  c_write_cache :: u64

definition new_Consumer :: "u32 \<Rightarrow> segment \<Rightarrow> Consumer \<times> segment" where
  "new_Consumer pid s =
     (\<lparr> c_capacity = capacity (ctrl s), c_stride = slot_stride (ctrl s),
        c_max_msg = max_msg_size (ctrl s), c_read_pos = read_pos (ctrl s),
        c_write_cache = write_pos (ctrl s) \<rparr>,
      s\<lparr>ctrl := (ctrl s)\<lparr>consumer_pid := pid\<rparr>\<rparr>)"

definition c_slot :: "Consumer \<Rightarrow> nat" where
  "c_slot c = slot_ptr (c_capacity c) (c_stride c) (c_read_pos c)"

text \<open>\<open>memcpy\<close> of the payload over the front of the caller's buffer.\<close>

definition copy_out :: "memory \<Rightarrow> nat \<Rightarrow> u32 \<Rightarrow> bytes \<Rightarrow> bytes" where
  "copy_out m slot n buf = read_bytes m (payload_ptr slot) (unat n) @ drop (unat n) buf"

definition pop_slot :: "bytes \<Rightarrow> u32 \<Rightarrow> Consumer \<Rightarrow> segment
    \<Rightarrow> u32 \<times> bytes \<times> Consumer \<times> segment" where
  "pop_slot buf buf_size c s =
     (let msg_sz = load32 (mem s) (size_ptr (c_slot c));
          copy_sz = (if msg_sz < buf_size then msg_sz else buf_size)
      in (msg_sz, copy_out (mem s) (c_slot c) copy_sz buf,
          c\<lparr>c_read_pos := c_read_pos c + 1\<rparr>,
          s\<lparr>ctrl := (ctrl s)\<lparr>read_pos := c_read_pos c + 1\<rparr>\<rparr>))"

definition try_pop :: "bytes \<Rightarrow> u32 \<Rightarrow> Consumer \<Rightarrow> segment
    \<Rightarrow> u32 \<times> bytes \<times> Consumer \<times> segment" where
  "try_pop buf buf_size c s =
     (if c_read_pos c = c_write_cache c
      then let c' = c\<lparr>c_write_cache := write_pos (ctrl s)\<rparr>
           in if c_read_pos c' = c_write_cache c' then (0, buf, c', s)
              else pop_slot buf buf_size c' s
      else pop_slot buf buf_size c s)"

section \<open>The ring as a queue of byte strings\<close>

text \<open>
  The configuration a segment keeps from \<open>create\<close> on, and the message a slot holds.
\<close>

definition cfg_ok :: "ControlBlock \<Rightarrow> bool" where
  "cfg_ok cb \<longleftrightarrow> pow2 (capacity cb) \<and> unat (max_msg_size cb) + 8 \<le> unat (slot_stride cb)"

definition slot_at :: "ControlBlock \<Rightarrow> u64 \<Rightarrow> nat" where
  "slot_at cb pos = slot_ptr (capacity cb) (slot_stride cb) pos"

definition slot_len :: "memory \<Rightarrow> nat \<Rightarrow> nat" where
  "slot_len m slot = unat (load32 m (size_ptr slot))"

definition slot_msg :: "memory \<Rightarrow> nat \<Rightarrow> bytes" where
  "slot_msg m slot = read_bytes m (payload_ptr slot) (slot_len m slot)"

lemma length_slot_msg [simp]: "length (slot_msg m slot) = slot_len m slot"
  by (simp add: slot_msg_def)

lemma slot_fill_same:
  assumes "length payload = unat sz"
  shows "slot_msg (fill_slot slot payload sz m) slot = payload"
    and "slot_len (fill_slot slot payload sz m) slot = unat sz"
  using assms by (simp_all add: slot_msg_def slot_len_def fill_slot_def slot_fields mem_simps)

lemma slot_fill_other:
  assumes "slot + st \<le> slot' \<or> slot' + st \<le> slot" and "slot_len m slot' + 8 \<le> st"
    and "unat sz + 8 \<le> st"
  shows "slot_msg (fill_slot slot payload sz m) slot' = slot_msg m slot'"
    and "slot_len (fill_slot slot payload sz m) slot' = slot_len m slot'"
  using assms by (auto simp: slot_msg_def slot_len_def fill_slot_def slot_fields mem_simps)

lemma cfg_okE:
  assumes "cfg_ok cb"
  obtains k where "unat (capacity cb) = 2 ^ k" and "k < 32"
    and "unat (max_msg_size cb) + 8 \<le> unat (slot_stride cb)"
  using assms by (auto simp: cfg_ok_def elim: pow2E)

lemma slot_at_disjoint:
  assumes "cfg_ok cb" and "i < unat (capacity cb)" and "j < unat (capacity cb)" and "i \<noteq> j"
  shows "slot_at cb (r + of_nat i) + unat (slot_stride cb) \<le> slot_at cb (r + of_nat j) \<or>
         slot_at cb (r + of_nat j) + unat (slot_stride cb) \<le> slot_at cb (r + of_nat i)"
proof -
  from assms(1) obtain k where k: "unat (capacity cb) = 2 ^ k" "k < 32" by (rule cfg_okE)
  have "unat (r + of_nat i) mod 2 ^ k \<noteq> unat (r + of_nat j) mod 2 ^ k"
    using ring_index_inj [of k i j r] assms k by auto
  then show ?thesis unfolding slot_at_def by (rule slots_disjoint_index [OF k])
qed

text \<open>A segment that \<open>create\<close> returns has a proper configuration, below the stride limit.\<close>

lemma create_cfg_ok:
  assumes "fst (create cap max_msg opts env) = Inr s" and "unat max_msg \<le> 2 ^ 32 - 72"
  shows "cfg_ok (ctrl s)"
proof -
  from assms(1) have c: "cap \<noteq> 0" "cap AND (cap - 1) = 0" and
    s: "s = init_segment cap max_msg (make_session_id env) (compute_shm_size cap max_msg)"
    by (auto simp: create_def Let_def split: if_splits)
  show ?thesis
    using c stride_fits [of max_msg]
    by (simp add: s init_segment_def cfg_ok_def pow2_def stride32_exact [OF assms(2)])
qed

subsection \<open>The producer and the consumer together\<close>

type_synonym bus = "Producer \<times> Consumer \<times> segment"

definition bus_enq :: "bytes \<Rightarrow> bus \<Rightarrow> bool \<times> bus" where
  "bus_enq m b = (case b of (p, c, s) \<Rightarrow>
     (case try_push m (of_nat (length m)) p s of (r, p', s') \<Rightarrow> (r, p', c, s')))"

text \<open>A pop into a buffer of the maximum message size; 0 bytes is read as "nothing there".\<close>

definition bus_deq :: "bus \<Rightarrow> bytes option \<times> bus" where
  "bus_deq b = (case b of (p, c, s) \<Rightarrow>
     (case try_pop (replicate (unat (c_max_msg c)) 0) (c_max_msg c) c s of
       (n, out, c', s') \<Rightarrow> (if n = 0 then None else Some (take (unat n) out), p, c', s')))"

definition in_flight :: "segment \<Rightarrow> nat" where
  "in_flight s = unat (write_pos (ctrl s) - read_pos (ctrl s))"

definition bus_queue :: "bus \<Rightarrow> bytes list" where
  "bus_queue b = (case b of (p, c, s) \<Rightarrow>
     map (\<lambda>i. slot_msg (mem s) (slot_at (ctrl s) (read_pos (ctrl s) + of_nat i)))
       [0..<in_flight s])"

definition bus_bound :: "bus \<Rightarrow> nat" where
  "bus_bound b = (case b of (p, c, s) \<Rightarrow> unat (capacity (ctrl s)))"

text \<open>
  A message the queue view can carry: not empty (a zero-length message is returned like an
  empty ring) and at most the maximum size.
\<close>

definition bus_ok :: "bus \<Rightarrow> bytes \<Rightarrow> bool" where
  "bus_ok b m = (case b of (p, c, s) \<Rightarrow> m \<noteq> [] \<and> length m \<le> unat (max_msg_size (ctrl s)))"

definition producer_ok :: "Producer \<Rightarrow> segment \<Rightarrow> bool" where
  "producer_ok p s \<longleftrightarrow> p_capacity p = capacity (ctrl s) \<and> p_stride p = slot_stride (ctrl s) \<and>
     p_max_msg p = max_msg_size (ctrl s) \<and> p_write_pos p = write_pos (ctrl s) \<and>
     in_flight s \<le> unat (p_write_pos p - p_read_cache p) \<and>
     unat (p_write_pos p - p_read_cache p) \<le> unat (capacity (ctrl s))"

definition consumer_ok :: "Consumer \<Rightarrow> segment \<Rightarrow> bool" where
  "consumer_ok c s \<longleftrightarrow> c_capacity c = capacity (ctrl s) \<and> c_stride c = slot_stride (ctrl s) \<and>
     c_max_msg c = max_msg_size (ctrl s) \<and> c_read_pos c = read_pos (ctrl s) \<and>
     unat (c_write_cache c - c_read_pos c) \<le> in_flight s"

definition bus_invar :: "bus \<Rightarrow> bool" where
  "bus_invar b = (case b of (p, c, s) \<Rightarrow>
     cfg_ok (ctrl s) \<and> in_flight s \<le> unat (capacity (ctrl s)) \<and>
     producer_ok p s \<and> consumer_ok c s \<and>
     (\<forall>m\<in>set (bus_queue b). m \<noteq> [] \<and> length m \<le> unat (max_msg_size (ctrl s))))"

text \<open>
  The invariant of the ring itself, which empty messages keep as well; \<open>bus_invar\<close> is the part of it that the
  queue view of \<open>bus_deq\<close> needs.
\<close>

definition ring_invar :: "bus \<Rightarrow> bool" where
  "ring_invar b = (case b of (p, c, s) \<Rightarrow>
     cfg_ok (ctrl s) \<and> in_flight s \<le> unat (capacity (ctrl s)) \<and>
     producer_ok p s \<and> consumer_ok c s \<and>
     (\<forall>m\<in>set (bus_queue b). length m \<le> unat (max_msg_size (ctrl s))))"

lemma bus_invar_ring: "bus_invar b \<longleftrightarrow> ring_invar b \<and> [] \<notin> set (bus_queue b)"
  by (cases b) (auto simp: bus_invar_def ring_invar_def)

lemmas bus_view = bus_queue_def bus_bound_def bus_ok_def

subsection \<open>What one call does\<close>

lemma p_full_unat: "p_full p \<longleftrightarrow> unat (p_capacity p) \<le> unat (p_write_pos p - p_read_cache p)"
  by (simp add: p_full_def word_le_nat_alt)

lemma capacity_lt: "unat (capacity cb) < 2 ^ 32"
  using unat_lt_32 [of "capacity cb"] by simp

text \<open>
  The cached read position only ever delays: a full verdict from the cache is confirmed by a
  fresh load, so a call fails exactly when the ring is full (or the message too long).
\<close>

lemma try_push_cases:
  assumes "producer_ok p s" and "in_flight s \<le> unat (capacity (ctrl s))"
    and "sz \<le> max_msg_size (ctrl s)"
  obtains p' where "producer_ok p' s" and "p_max_msg p' = p_max_msg p"
    and "try_push payload sz p s =
      (if in_flight s < unat (capacity (ctrl s)) then push_slot payload sz p' s else (False, p', s))"
    and "in_flight s < unat (capacity (ctrl s)) \<Longrightarrow> \<not> p_full p'"
proof (cases "p_full p")
  case True
  let ?p = "p\<lparr>p_read_cache := read_pos (ctrl s)\<rparr>"
  have ok: "producer_ok ?p s" using assms by (simp add: producer_ok_def in_flight_def)
  have full: "p_full ?p \<longleftrightarrow> unat (capacity (ctrl s)) \<le> in_flight s"
    using assms(1) by (simp add: p_full_unat producer_ok_def in_flight_def)
  show ?thesis
  proof (rule that [of ?p])
    show "try_push payload sz p s =
      (if in_flight s < unat (capacity (ctrl s)) then push_slot payload sz ?p s else (False, ?p, s))"
      using True assms full by (auto simp: try_push_def producer_ok_def not_less)
  qed (use ok full in auto)
next
  case False
  then have room: "in_flight s < unat (capacity (ctrl s))"
    using assms(1) by (auto simp: p_full_unat producer_ok_def)
  show ?thesis
    by (rule that [of p]) (use False room assms in \<open>auto simp: try_push_def producer_ok_def not_less\<close>)
qed

lemma try_push_oversize: "p_max_msg p < sz \<Longrightarrow> try_push payload sz p s = (False, p, s)"
  by (simp add: try_push_def)

text \<open>Writing the next slot appends the message and keeps everything queued.\<close>

lemma push_slot_ctrl:
  assumes "push_slot payload sz p s = (r, p', s')"
  shows "r" and "ctrl s' = (ctrl s)\<lparr>write_pos := p_write_pos p + 1\<rparr>"
    and "mem s' = fill_slot (p_slot p) payload sz (mem s)"
    and "p' = p\<lparr>p_write_pos := p_write_pos p + 1\<rparr>"
  using assms by (auto simp: push_slot_def)

lemma push_slot_in_flight:
  assumes "producer_ok p s" and "in_flight s < unat (capacity (ctrl s))"
    and "push_slot payload sz p s = (r, p', s')"
  shows "in_flight s' = Suc (in_flight s)"
  using assms capacity_lt [of "ctrl s"]
  by (auto simp: in_flight_def producer_ok_def push_slot_ctrl(2) intro!: distance_push)

lemma push_slot_producer_ok:
  assumes "producer_ok p s" and "in_flight s < unat (capacity (ctrl s))" and "\<not> p_full p"
    and "push_slot payload sz p s = (r, p', s')"
  shows "producer_ok p' s'"
proof -
  have d: "unat (p_write_pos p - p_read_cache p) < unat (capacity (ctrl s))"
    using assms by (simp add: p_full_unat producer_ok_def)
  then have "unat (p_write_pos p + 1 - p_read_cache p) = Suc (unat (p_write_pos p - p_read_cache p))"
    using capacity_lt [of "ctrl s"] by (intro distance_push) auto
  with d assms push_slot_in_flight [OF assms(1,2,4)] push_slot_ctrl [OF assms(4)] show ?thesis
    by (auto simp: producer_ok_def)
qed

lemma slot_msg_push_old:
  assumes "cfg_ok (ctrl s)" and "producer_ok p s" and "in_flight s < unat (capacity (ctrl s))"
    and "i < in_flight s" and "sz \<le> max_msg_size (ctrl s)"
    and "slot_len (mem s) (slot_at (ctrl s) (read_pos (ctrl s) + of_nat i)) \<le> unat (max_msg_size (ctrl s))"
  shows "slot_msg (fill_slot (p_slot p) payload sz (mem s)) (slot_at (ctrl s) (read_pos (ctrl s) + of_nat i))
    = slot_msg (mem s) (slot_at (ctrl s) (read_pos (ctrl s) + of_nat i))"
proof (rule slot_fill_other(1) [where st = "unat (slot_stride (ctrl s))"])
  have w: "p_slot p = slot_at (ctrl s) (read_pos (ctrl s) + of_nat (in_flight s))"
    using assms(2) by (simp add: p_slot_def slot_at_def producer_ok_def in_flight_def)
  show "p_slot p + unat (slot_stride (ctrl s)) \<le> slot_at (ctrl s) (read_pos (ctrl s) + of_nat i) \<or>
    slot_at (ctrl s) (read_pos (ctrl s) + of_nat i) + unat (slot_stride (ctrl s)) \<le> p_slot p"
    unfolding w using assms by (intro slot_at_disjoint) auto
  show "slot_len (mem s) (slot_at (ctrl s) (read_pos (ctrl s) + of_nat i)) + 8 \<le> unat (slot_stride (ctrl s))"
    and "unat sz + 8 \<le> unat (slot_stride (ctrl s))"
    using assms by (auto simp: cfg_ok_def word_le_nat_alt)
qed

lemma push_slot_queue:
  assumes inv: "ring_invar (p, c, s)" and room: "in_flight s < unat (capacity (ctrl s))"
    and len: "length payload = unat sz" and sz: "sz \<le> max_msg_size (ctrl s)"
    and pok: "producer_ok q s"
    and ps: "push_slot payload sz q s = (r, p', s')"
  shows "bus_queue (p', c', s') = bus_queue (p, c, s) @ [payload]"
proof -
  note ctrl = push_slot_ctrl [OF ps]
  have at: "slot_at (ctrl s') = slot_at (ctrl s)"
    by (simp add: ctrl slot_at_def fun_eq_iff)
  have "p_slot q = slot_at (ctrl s) (read_pos (ctrl s) + of_nat (in_flight s))"
    using pok by (simp add: p_slot_def slot_at_def producer_ok_def in_flight_def)
  then have new: "slot_msg (mem s') (slot_at (ctrl s) (read_pos (ctrl s) + of_nat (in_flight s))) = payload"
    using len by (simp add: ctrl slot_fill_same)
  have len_ok: "slot_len (mem s) (slot_at (ctrl s) (read_pos (ctrl s) + of_nat i))
      \<le> unat (max_msg_size (ctrl s))" if "i < in_flight s" for i
    using inv that by (auto simp: ring_invar_def bus_queue_def)
  have old: "slot_msg (mem s') (slot_at (ctrl s) (read_pos (ctrl s) + of_nat i))
    = slot_msg (mem s) (slot_at (ctrl s) (read_pos (ctrl s) + of_nat i))" if "i < in_flight s" for i
    using slot_msg_push_old [OF _ pok room that sz len_ok [OF that]] inv
    by (simp add: ctrl ring_invar_def)
  have rp: "read_pos (ctrl s') = read_pos (ctrl s)" by (simp add: ctrl)
  show ?thesis
    by (simp add: bus_queue_def push_slot_in_flight [OF pok room ps] at rp new old)
qed

lemma push_slot_consumer_ok:
  assumes "consumer_ok c s" and "producer_ok p s" and "in_flight s < unat (capacity (ctrl s))"
    and "push_slot payload sz p s = (r, p', s')"
  shows "consumer_ok c s'"
  using assms(1) push_slot_in_flight [OF assms(2-4)] push_slot_ctrl [OF assms(4)]
  by (auto simp: consumer_ok_def)

lemma ring_invar_push:
  assumes inv: "ring_invar (p, c, s)" and room: "in_flight s < unat (capacity (ctrl s))"
    and len: "length payload = unat sz" and sz: "sz \<le> max_msg_size (ctrl s)"
    and pok: "producer_ok q s" and nf: "\<not> p_full q"
    and ps: "push_slot payload sz q s = (r, p', s')"
  shows "ring_invar (p', c, s')"
  unfolding ring_invar_def prod.case push_slot_queue [OF inv room len sz pok ps]
  using inv room len sz push_slot_ctrl [OF ps] push_slot_in_flight [OF pok room ps]
    push_slot_producer_ok [OF pok room nf ps] push_slot_consumer_ok [OF _ pok room ps]
  by (auto simp: ring_invar_def cfg_ok_def word_le_nat_alt)

lemma bus_invar_push:
  assumes inv: "bus_invar (p, c, s)" and room: "in_flight s < unat (capacity (ctrl s))"
    and len: "length payload = unat sz" and sz: "sz \<le> max_msg_size (ctrl s)" and ne: "payload \<noteq> []"
    and pok: "producer_ok q s" and nf: "\<not> p_full q"
    and ps: "push_slot payload sz q s = (r, p', s')"
  shows "bus_invar (p', c, s')"
  using inv ne ring_invar_push [OF _ room len sz pok nf ps] push_slot_queue [OF _ room len sz pok ps]
  by (auto simp: bus_invar_ring)

text \<open>A refused push leaves the segment as it was and changes at most the cached position.\<close>

lemma ring_invar_producer: "ring_invar (p, c, s) \<Longrightarrow> producer_ok q s \<Longrightarrow> ring_invar (q, c, s)"
  by (simp add: ring_invar_def bus_queue_def)

lemma ring_invar_consumer: "ring_invar (p, c, s) \<Longrightarrow> consumer_ok d s \<Longrightarrow> ring_invar (p, d, s)"
  by (simp add: ring_invar_def bus_queue_def)

lemma bus_invar_producer: "bus_invar (p, c, s) \<Longrightarrow> producer_ok q s \<Longrightarrow> bus_invar (q, c, s)"
  by (simp add: bus_invar_def bus_queue_def)

lemma bus_invar_consumer: "bus_invar (p, c, s) \<Longrightarrow> consumer_ok d s \<Longrightarrow> bus_invar (p, d, s)"
  by (simp add: bus_invar_def bus_queue_def)

subsection \<open>Popping\<close>

lemma try_pop_cases:
  assumes "consumer_ok c s"
  obtains c' where "consumer_ok c' s" and "c_max_msg c' = c_max_msg c"
    and "try_pop buf n c s = (if in_flight s = 0 then (0, buf, c', s) else pop_slot buf n c' s)"
    and "in_flight s \<noteq> 0 \<Longrightarrow> c_read_pos c' \<noteq> c_write_cache c'"
proof (cases "c_read_pos c = c_write_cache c")
  case True
  let ?c = "c\<lparr>c_write_cache := write_pos (ctrl s)\<rparr>"
  have ok: "consumer_ok ?c s" using assms by (simp add: consumer_ok_def in_flight_def)
  have empty: "c_read_pos ?c = c_write_cache ?c \<longleftrightarrow> in_flight s = 0"
    using assms by (auto simp: consumer_ok_def in_flight_def unat_eq_0)
  show ?thesis
    by (rule that [of ?c]) (use True ok empty in \<open>auto simp: try_pop_def\<close>)
next
  case False
  then have "0 < unat (c_write_cache c - c_read_pos c)" by (auto simp: unat_gt_0)
  then have "in_flight s \<noteq> 0" using assms by (auto simp: consumer_ok_def)
  with False assms that [of c] show ?thesis by (simp add: try_pop_def)
qed

definition head_slot :: "segment \<Rightarrow> nat" where
  "head_slot s = slot_at (ctrl s) (read_pos (ctrl s))"

lemma pop_slot_result:
  assumes "consumer_ok c s" and "pop_slot buf n c s = (sz, out, c', s')"
  shows "unat sz = slot_len (mem s) (head_slot s)"
    and "out = take (unat n) (slot_msg (mem s) (head_slot s)) @ drop (min (unat sz) (unat n)) buf"
    and "ctrl s' = (ctrl s)\<lparr>read_pos := read_pos (ctrl s) + 1\<rparr>" and "mem s' = mem s"
    and "c' = c\<lparr>c_read_pos := c_read_pos c + 1\<rparr>"
proof -
  have slot: "c_slot c = head_slot s"
    using assms(1) by (simp add: c_slot_def head_slot_def slot_at_def consumer_ok_def)
  note def = assms(2) [unfolded pop_slot_def Let_def slot]
  show "unat sz = slot_len (mem s) (head_slot s)" using def by (auto simp: slot_len_def)
  have take_read: "take j (read_bytes m a i) = read_bytes m a (min i j)" for m a i j
    by (simp add: read_bytes_def take_map min_def)
  show "out = take (unat n) (slot_msg (mem s) (head_slot s)) @ drop (min (unat sz) (unat n)) buf"
    using def
    by (auto simp: copy_out_def slot_msg_def slot_len_def take_read word_less_nat_alt min_def)
qed (use assms in \<open>auto simp: pop_slot_def Let_def consumer_ok_def\<close>)

lemma pop_slot_in_flight:
  assumes "consumer_ok c s" and "in_flight s \<noteq> 0" and "pop_slot buf n c s = (sz, out, c', s')"
  shows "in_flight s' = in_flight s - 1"
proof -
  have "write_pos (ctrl s) \<noteq> read_pos (ctrl s)" using assms(2) by (auto simp: in_flight_def)
  then show ?thesis
    by (simp add: in_flight_def pop_slot_result(3) [OF assms(1,3)] distance_pop)
qed

lemma pop_slot_consumer_ok:
  assumes "consumer_ok c s" and "c_read_pos c \<noteq> c_write_cache c"
    and "in_flight s \<noteq> 0" and "pop_slot buf n c s = (sz, out, c', s')"
  shows "consumer_ok c' s'"
proof -
  have "unat (c_write_cache c - (c_read_pos c + 1)) = unat (c_write_cache c - c_read_pos c) - 1"
    using assms(2) by (intro distance_pop) auto
  with assms(1) pop_slot_in_flight [OF assms(1,3,4)] pop_slot_result [OF assms(1,4)] show ?thesis
    by (auto simp: consumer_ok_def)
qed

lemma pop_slot_queue:
  assumes "consumer_ok c s" and "in_flight s \<noteq> 0" and "pop_slot buf n c s = (sz, out, c', s')"
  shows "bus_queue (p, d, s) = slot_msg (mem s) (head_slot s) # bus_queue (p', d', s')"
proof -
  obtain n where n: "in_flight s = Suc n" using assms(2) by (cases "in_flight s") auto
  have at: "slot_at (ctrl s') = slot_at (ctrl s)"
    by (simp add: pop_slot_result(3) [OF assms(1,3)] slot_at_def fun_eq_iff)
  have f: "in_flight s' = n" using pop_slot_in_flight [OF assms] n by simp
  show ?thesis
    unfolding bus_queue_def prod.case f n at upt_conv_Cons [OF zero_less_Suc]
    by (simp add: pop_slot_result [OF assms(1,3)] head_slot_def map_Suc_upt [symmetric]
        o_def algebra_simps del: upt_Suc)
qed

lemma pop_slot_producer_ok:
  assumes "producer_ok p s" and "consumer_ok c s" and "in_flight s \<noteq> 0"
    and "pop_slot buf n c s = (sz, out, c', s')"
  shows "producer_ok p s'"
  using assms(1) pop_slot_in_flight [OF assms(2-4)] pop_slot_result [OF assms(2,4)]
  by (auto simp: producer_ok_def)

lemma ring_invar_pop:
  assumes inv: "ring_invar (p, c, s)" and ne: "in_flight s \<noteq> 0"
    and cok: "consumer_ok d s" and nw: "c_read_pos d \<noteq> c_write_cache d"
    and pop: "pop_slot buf n d s = (sz, out, c', s')"
  shows "ring_invar (p, c', s')"
  using inv pop_slot_queue [OF cok ne pop, of p c p c'] pop_slot_in_flight [OF cok ne pop]
    pop_slot_result [OF cok pop] pop_slot_consumer_ok [OF cok nw ne pop]
    pop_slot_producer_ok [OF _ cok ne pop]
  by (auto simp: ring_invar_def cfg_ok_def)

lemma bus_invar_pop:
  assumes inv: "bus_invar (p, c, s)" and ne: "in_flight s \<noteq> 0"
    and cok: "consumer_ok d s" and nw: "c_read_pos d \<noteq> c_write_cache d"
    and pop: "pop_slot buf n d s = (sz, out, c', s')"
  shows "bus_invar (p, c', s')"
  using inv ring_invar_pop [OF _ ne cok nw pop] pop_slot_queue [OF cok ne pop, of p c p c']
  by (auto simp: bus_invar_ring)

subsection \<open>The bus is a bounded queue\<close>

lemma bus_enq_step:
  assumes inv: "bus_invar (p, c, s)" and ok: "bus_ok (p, c, s) m"
  shows "fst (bus_enq m (p, c, s)) \<longleftrightarrow> length (bus_queue (p, c, s)) < bus_bound (p, c, s)"
    and "bus_queue (snd (bus_enq m (p, c, s))) =
      (if length (bus_queue (p, c, s)) < bus_bound (p, c, s)
       then bus_queue (p, c, s) @ [m] else bus_queue (p, c, s))"
    and "bus_invar (snd (bus_enq m (p, c, s)))"
    and "bus_bound (snd (bus_enq m (p, c, s))) = bus_bound (p, c, s)"
    and "bus_ok (snd (bus_enq m (p, c, s))) = bus_ok (p, c, s)"
proof -
  let ?sz = "of_nat (length m) :: u32"
  have m: "m \<noteq> []" "length m \<le> unat (max_msg_size (ctrl s))"
    using ok by (simp_all add: bus_ok_def)
  then have len: "length m = unat ?sz"
    using unat_lt_32 [of "max_msg_size (ctrl s)"] by (simp add: unat_of_nat)
  with m have sz: "?sz \<le> max_msg_size (ctrl s)" by (simp add: word_le_nat_alt)
  have pok: "producer_ok p s" and fl: "in_flight s \<le> unat (capacity (ctrl s))"
    using inv by (simp_all add: bus_invar_def)
  obtain q where q: "producer_ok q s" and nf: "in_flight s < unat (capacity (ctrl s)) \<Longrightarrow> \<not> p_full q"
    and push: "try_push m ?sz p s =
      (if in_flight s < unat (capacity (ctrl s)) then push_slot m ?sz q s else (False, q, s))"
    using try_push_cases [OF pok fl sz] by metis
  obtain r p' s' where ps: "push_slot m ?sz q s = (r, p', s')" by (metis prod_cases3)
  have enq: "bus_enq m (p, c, s) =
      (if in_flight s < unat (capacity (ctrl s)) then (r, p', c, s') else (False, q, c, s))"
    by (simp add: bus_enq_def push ps)
  have n: "length (bus_queue (p, c, s)) = in_flight s" by (simp add: bus_queue_def)
  note facts = enq n bus_bound_def push_slot_ctrl [OF ps]
  show "fst (bus_enq m (p, c, s)) \<longleftrightarrow> length (bus_queue (p, c, s)) < bus_bound (p, c, s)"
    using facts by simp
  show "bus_queue (snd (bus_enq m (p, c, s))) =
      (if length (bus_queue (p, c, s)) < bus_bound (p, c, s)
       then bus_queue (p, c, s) @ [m] else bus_queue (p, c, s))"
    using facts push_slot_queue [OF inv [unfolded bus_invar_ring, THEN conjunct1] _ len sz q ps] by (simp add: bus_queue_def)
  show "bus_invar (snd (bus_enq m (p, c, s)))"
    using facts bus_invar_push [OF inv _ len sz m(1) q _ ps] nf bus_invar_producer [OF inv q] by auto
  show "bus_bound (snd (bus_enq m (p, c, s))) = bus_bound (p, c, s)"
    and "bus_ok (snd (bus_enq m (p, c, s))) = bus_ok (p, c, s)"
    using facts by (auto simp: bus_ok_def fun_eq_iff)
qed

lemma bus_deq_step:
  assumes inv: "bus_invar (p, c, s)"
  shows "fst (bus_deq (p, c, s)) = (case bus_queue (p, c, s) of [] \<Rightarrow> None | x # xs \<Rightarrow> Some x)"
    and "bus_queue (snd (bus_deq (p, c, s))) = tl (bus_queue (p, c, s))"
    and "bus_invar (snd (bus_deq (p, c, s)))"
    and "bus_bound (snd (bus_deq (p, c, s))) = bus_bound (p, c, s)"
    and "bus_ok (snd (bus_deq (p, c, s))) = bus_ok (p, c, s)"
proof -
  let ?n = "c_max_msg c" and ?buf = "replicate (unat (c_max_msg c)) (0 :: u8)"
  have cok: "consumer_ok c s" using inv by (simp add: bus_invar_def)
  obtain d where d: "consumer_ok d s" and nw: "in_flight s \<noteq> 0 \<Longrightarrow> c_read_pos d \<noteq> c_write_cache d"
    and pop: "try_pop ?buf ?n c s = (if in_flight s = 0 then (0, ?buf, d, s) else pop_slot ?buf ?n d s)"
    using try_pop_cases [OF cok] by metis
  obtain sz out c' s' where ps: "pop_slot ?buf ?n d s = (sz, out, c', s')" by (metis prod_cases4)
  have deq: "bus_deq (p, c, s) = (if in_flight s = 0 then (None, p, d, s)
      else (if sz = 0 then None else Some (take (unat sz) out), p, c', s'))"
    by (simp add: bus_deq_def pop ps)
  note res = pop_slot_result [OF d ps]
  have head: "sz \<noteq> 0 \<and> take (unat sz) out = slot_msg (mem s) (head_slot s)"
    if ne: "in_flight s \<noteq> 0"
  proof -
    have "slot_msg (mem s) (head_slot s) \<in> set (bus_queue (p, c, s))"
      using pop_slot_queue [OF d ne ps, of p c p c'] by simp
    then have "0 < slot_len (mem s) (head_slot s)"
      and le: "slot_len (mem s) (head_slot s) \<le> unat ?n"
      using inv cok by (force simp: bus_invar_def consumer_ok_def simp flip: length_slot_msg)+
    then show ?thesis using res(1,2) by auto
  qed
  note q = pop_slot_queue [OF d _ ps, of p c p c']
  show "fst (bus_deq (p, c, s)) = (case bus_queue (p, c, s) of [] \<Rightarrow> None | x # xs \<Rightarrow> Some x)"
  proof (cases "in_flight s = 0")
    case True
    then show ?thesis by (simp add: deq bus_queue_def)
  next
    case False
    then show ?thesis using q head by (simp add: deq)
  qed
  show "bus_queue (snd (bus_deq (p, c, s))) = tl (bus_queue (p, c, s))"
    using q by (auto simp: deq) (simp_all add: bus_queue_def)
  show "bus_invar (snd (bus_deq (p, c, s)))"
    using bus_invar_consumer [OF inv d] bus_invar_pop [OF inv _ d _ ps] nw by (simp add: deq)
  show "bus_bound (snd (bus_deq (p, c, s))) = bus_bound (p, c, s)"
    and "bus_ok (snd (bus_deq (p, c, s))) = bus_ok (p, c, s)"
    using res(3) by (auto simp: deq bus_bound_def bus_ok_def fun_eq_iff)
qed

interpretation bus: bounded_fifo bus_enq bus_deq bus_queue bus_bound bus_ok bus_invar
proof (unfold_locales, goal_cases)
  case (11 b)
  then show ?case by (cases b) (simp add: bus_invar_def bus_queue_def bus_bound_def)
qed (metis bus_enq_step bus_deq_step prod_cases3)+

section \<open>A fresh bus\<close>

definition fresh_bus :: "u32 \<Rightarrow> u32 \<Rightarrow> segment \<Rightarrow> bus" where
  "fresh_bus pid_p pid_c s =
     (case new_Producer pid_p s of (p, s1) \<Rightarrow> case new_Consumer pid_c s1 of (c, s2) \<Rightarrow> (p, c, s2))"

lemma created_segment:
  "fst (create cap max_msg opts env) = Inr s \<Longrightarrow>
    s = init_segment cap max_msg (make_session_id env) (compute_shm_size cap max_msg) \<and> pow2 cap"
  by (auto simp: create_def Let_def pow2_def split: if_splits)

lemma fresh_bus_invar:
  assumes "fst (create cap max_msg opts env) = Inr s" and "unat max_msg \<le> 2 ^ 32 - 72"
  shows "bus_invar (fresh_bus pid_p pid_c s)"
    and "bus_queue (fresh_bus pid_p pid_c s) = []"
    and "bus_bound (fresh_bus pid_p pid_c s) = unat cap"
    and "bus_ok (fresh_bus pid_p pid_c s) m \<longleftrightarrow> m \<noteq> [] \<and> length m \<le> unat max_msg"
proof -
  note s = created_segment [OF assms(1), THEN conjunct1]
  have cfg: "cfg_ok (ctrl s)" by (rule create_cfg_ok [OF assms])
  note defs = fresh_bus_def new_Producer_def new_Consumer_def init_segment_def in_flight_def
  show "bus_invar (fresh_bus pid_p pid_c s)"
    using cfg by (simp add: s defs bus_invar_def bus_queue_def producer_ok_def consumer_ok_def cfg_ok_def)
  show "bus_queue (fresh_bus pid_p pid_c s) = []" by (simp add: s defs bus_queue_def)
  show "bus_bound (fresh_bus pid_p pid_c s) = unat cap" by (simp add: s defs bus_bound_def)
  show "bus_ok (fresh_bus pid_p pid_c s) m \<longleftrightarrow> m \<noteq> [] \<and> length m \<le> unat max_msg"
    by (simp add: s defs bus_ok_def)
qed

text \<open>A small bus for the instances below: two slots, messages of at most eight bytes.\<close>

definition sample_env :: create_env where
  "sample_env = \<lparr> shm_open_ret = 3, shm_open_errno = 0, ftruncate_ret = 0, ftruncate_errno = 0,
     mmap_failed = False, mmap_errno = 0, env_time = \<lparr> tv_sec = 5, tv_nsec = 1000 \<rparr>, env_pid = 42 \<rparr>"

definition sample_opts :: BusOptions where
  "sample_opts = \<lparr> lock_memory = False, huge_pages = False \<rparr>"

definition sample_segment :: segment where
  "sample_segment = init_segment 2 8 (make_session_id sample_env) (compute_shm_size 2 8)"

lemma sample_create: "fst (create 2 8 sample_opts sample_env) = Inr sample_segment"
  by (simp add: create_def sample_env_def sample_opts_def sample_segment_def Let_def)

definition sample_bus :: bus where
  "sample_bus = fresh_bus 1 2 sample_segment"

lemma sample_bus_invar: "bus_invar sample_bus"
  unfolding sample_bus_def by (rule fresh_bus_invar(1) [OF sample_create]) simp

section \<open>Any sequence of calls\<close>

text \<open>
  A client's calls, with the buffer and its size for a pop, and what they return; a pop returns the size and the
  buffer as the call leaves it. \<open>bus_call\<close> makes a call on the two objects and the segment, \<open>queue_call\<close> is the
  same call on a plain list of messages: what a caller is promised, whatever the cached positions are.
\<close>

datatype bus_op = TryPush bytes | TryPop bytes u32
datatype bus_result = Pushed bool | Popped u32 bytes

fun bus_call :: "bus_op \<Rightarrow> bus \<Rightarrow> bus_result \<times> bus" where
  "bus_call (TryPush m) (p, c, s) =
     (case try_push m (of_nat (length m)) p s of (r, p', s') \<Rightarrow> (Pushed r, p', c, s'))"
| "bus_call (TryPop buf n) (p, c, s) =
     (case try_pop buf n c s of (sz, out, c', s') \<Rightarrow> (Popped sz out, p, c', s'))"

fun queue_call :: "nat \<Rightarrow> nat \<Rightarrow> bus_op \<Rightarrow> bytes list \<Rightarrow> bus_result \<times> bytes list" where
  "queue_call cap max_msg (TryPush m) q =
     (if length m \<le> max_msg \<and> length q < cap then (Pushed True, q @ [m]) else (Pushed False, q))"
| "queue_call cap max_msg (TryPop buf n) [] = (Popped 0 buf, [])"
| "queue_call cap max_msg (TryPop buf n) (m # q) =
     (Popped (of_nat (length m)) (take (unat n) m @ drop (min (length m) (unat n)) buf), q)"

fun run_calls :: "('c \<Rightarrow> 's \<Rightarrow> 'r \<times> 's) \<Rightarrow> 'c list \<Rightarrow> 's \<Rightarrow> 'r list \<times> 's" where
  "run_calls f [] s = ([], s)"
| "run_calls f (c # cs) s =
     (case f c s of (r, s1) \<Rightarrow> case run_calls f cs s1 of (rs, s2) \<Rightarrow> (r # rs, s2))"

text \<open>The messages of a client are byte ranges whose size is a \<open>uint32_t\<close>.\<close>

definition sized_op :: "bus_op \<Rightarrow> bool" where
  "sized_op c = (case c of TryPush m \<Rightarrow> length m < 2 ^ 32 | TryPop buf n \<Rightarrow> True)"

definition bus_max :: "bus \<Rightarrow> nat" where
  "bus_max b = (case b of (p, c, s) \<Rightarrow> unat (max_msg_size (ctrl s)))"

lemma try_push_ring:
  assumes inv: "ring_invar (p, c, s)" and len: "length m = unat sz" and t: "try_push m sz p s = (r, p', s')"
  shows "ring_invar (p', c, s') \<and> bus_bound (p', c, s') = bus_bound (p, c, s) \<and> bus_max (p', c, s') = bus_max (p, c, s) \<and>
    (Pushed r, bus_queue (p', c, s')) = queue_call (bus_bound (p, c, s)) (bus_max (p, c, s)) (TryPush m) (bus_queue (p, c, s))"
proof (cases "sz \<le> max_msg_size (ctrl s)")
  case True
  have pok: "producer_ok p s" and fl: "in_flight s \<le> unat (capacity (ctrl s))"
    using inv by (simp_all add: ring_invar_def)
  obtain q where q: "producer_ok q s" and nf: "in_flight s < unat (capacity (ctrl s)) \<Longrightarrow> \<not> p_full q"
    and push: "try_push m sz p s =
      (if in_flight s < unat (capacity (ctrl s)) then push_slot m sz q s else (False, q, s))"
    using try_push_cases [OF pok fl True] by metis
  have n: "length (bus_queue (p, c, s)) = in_flight s" by (simp add: bus_queue_def)
  have fits: "length m \<le> unat (max_msg_size (ctrl s))" using True len by (simp add: word_le_nat_alt)
  show ?thesis
  proof (cases "in_flight s < unat (capacity (ctrl s))")
    case room: True
    with push t have ps: "push_slot m sz q s = (r, p', s')" by simp
    show ?thesis
      using room n fits push_slot_ctrl [OF ps] push_slot_queue [OF inv room len True q ps]
        ring_invar_push [OF inv room len True q nf [OF room] ps] by (simp add: bus_bound_def bus_max_def)
  next
    case False
    with push t have "r = False" "p' = q" "s' = s" by simp_all
    with False n fits ring_invar_producer [OF inv q] show ?thesis
      by (simp add: bus_bound_def bus_max_def bus_queue_def)
  qed
next
  case False
  then have "p_max_msg p < sz" using inv by (simp add: ring_invar_def producer_ok_def)
  with t have "r = False" "p' = p" "s' = s" by (simp_all add: try_push_oversize)
  moreover have "\<not> length m \<le> unat (max_msg_size (ctrl s))" using False len by (simp add: word_le_nat_alt)
  ultimately show ?thesis using inv by (simp add: bus_max_def)
qed

lemma try_pop_ring:
  assumes inv: "ring_invar (p, c, s)" and t: "try_pop buf n c s = (sz, out, c', s')"
  shows "ring_invar (p, c', s') \<and> bus_bound (p, c', s') = bus_bound (p, c, s) \<and> bus_max (p, c', s') = bus_max (p, c, s) \<and>
    (Popped sz out, bus_queue (p, c', s')) = queue_call cap max_msg (TryPop buf n) (bus_queue (p, c, s))"
proof -
  have cok: "consumer_ok c s" using inv by (simp add: ring_invar_def)
  obtain d where d: "consumer_ok d s" and nw: "in_flight s \<noteq> 0 \<Longrightarrow> c_read_pos d \<noteq> c_write_cache d"
    and pop: "try_pop buf n c s = (if in_flight s = 0 then (0, buf, d, s) else pop_slot buf n d s)"
    using try_pop_cases [OF cok] by metis
  show ?thesis
  proof (cases "in_flight s = 0")
    case True
    with pop t have "sz = 0" "out = buf" "c' = d" "s' = s" by simp_all
    with True ring_invar_consumer [OF inv d] show ?thesis
      by (simp add: bus_queue_def bus_bound_def bus_max_def)
  next
    case False
    with pop t have ps: "pop_slot buf n d s = (sz, out, c', s')" by simp
    note res = pop_slot_result [OF d ps]
    have "of_nat (slot_len (mem s) (head_slot s)) = sz" by (simp flip: res(1))
    then show ?thesis
      using ring_invar_pop [OF inv False d nw [OF False] ps] res pop_slot_queue [OF d False ps, of p c p c']
      by (simp add: bus_bound_def bus_max_def)
  qed
qed

lemma bus_call_refines:
  assumes "ring_invar b" and "sized_op x" and "bus_call x b = (r, b')"
  shows "ring_invar b' \<and> bus_bound b' = bus_bound b \<and> bus_max b' = bus_max b \<and>
    (r, bus_queue b') = queue_call (bus_bound b) (bus_max b) x (bus_queue b)"
proof (cases b)
  case b: (fields p c s)
  show ?thesis
  proof (cases x)
    case (TryPush m)
    obtain q p' s' where t: "try_push m (of_nat (length m)) p s = (q, p', s')" by (metis prod_cases3)
    have "length m = unat (of_nat (length m) :: u32)"
      using assms(2) by (simp add: TryPush sized_op_def unat_of_nat)
    from try_push_ring [OF assms(1) [unfolded b] this t] t assms(3) show ?thesis by (simp add: b TryPush)
  next
    case (TryPop buf n)
    obtain sz out c' s' where t: "try_pop buf n c s = (sz, out, c', s')" by (metis prod_cases4)
    from try_pop_ring [OF assms(1) [unfolded b] t] t assms(3) show ?thesis by (simp add: b TryPop)
  qed
qed

lemma ring_invar_bound: "ring_invar b \<Longrightarrow> length (bus_queue b) \<le> bus_bound b"
  by (cases b) (simp add: ring_invar_def bus_queue_def bus_bound_def)

lemma run_calls_refines:
  assumes "ring_invar b" and "list_all sized_op xs" and "run_calls bus_call xs b = (rs, b')"
  shows "ring_invar b' \<and> bus_bound b' = bus_bound b \<and>
    run_calls (queue_call (bus_bound b) (bus_max b)) xs (bus_queue b) = (rs, bus_queue b')"
  using assms
proof (induction xs arbitrary: b rs)
  case Nil
  then show ?case by simp
next
  case (Cons x xs)
  obtain r b1 where r: "bus_call x b = (r, b1)" by (cases "bus_call x b")
  obtain rs1 where rs: "run_calls bus_call xs b1 = (rs1, b')" and out: "rs = r # rs1"
    using Cons.prems(3) r by (auto split: prod.splits)
  from Cons.prems bus_call_refines [OF _ _ r]
  have step: "ring_invar b1" "bus_bound b1 = bus_bound b" "bus_max b1 = bus_max b"
    "queue_call (bus_bound b) (bus_max b) x (bus_queue b) = (r, bus_queue b1)" by simp_all
  from Cons.IH [OF step(1) _ rs] Cons.prems(2) step(2-4) show ?case by (simp add: out)
qed

section \<open>Properties\<close>

text \<open>
  The messages a sequence of non-empty pushes and pops accepted are the delivered ones, in order, followed by the
  queued ones, and never more than the capacity is in flight.
\<close>

theorem bus_delivers_accepted:
  assumes "fst (create cap max_msg opts env) = Inr s" and "unat max_msg \<le> 2 ^ 32 - 72"
    and "\<forall>m. Enq m \<in> set ops \<longrightarrow> m \<noteq> [] \<and> length m \<le> unat max_msg"
    and "fifo_run bus_enq bus_deq ops (fresh_bus pid_p pid_c s) = (acc, del, b)"
  shows "acc = del @ bus_queue b \<and> length acc \<le> length del + unat cap"
proof -
  note f = fresh_bus_invar [OF assms(1,2), of pid_p pid_c]
  have adm: "bus.admissible (fresh_bus pid_p pid_c s) ops"
    using assms(3) by (simp add: bus.admissible_def f(4))
  show ?thesis
    using bus.run_fifo [OF f(1) adm assms(4)] bus.run_bounded [OF f(1) adm assms(4)] by (simp add: f(2,3))
qed

text \<open>
  C2. The ring is a bounded first-in first-out queue. On a segment that \<open>create\<close> set up with a maximum message size
  of at most \<open>2 ^ 32 - 72\<close>, any sequence of \<open>try_push\<close> and \<open>try_pop\<close> calls, with messages of any size (empty, too
  long) and buffers of any size, returns call by call what the same calls return on a list that is empty at the
  start: a push is accepted exactly if the message is at most the maximum long and the list shorter than the
  capacity, and a pop takes the oldest message, returns its length and copies what fits in the buffer, or returns 0
  on an empty list (also for an empty message). The messages in the segment are that list afterwards, and they are
  never more than the capacity.
\<close>

theorem bus_fifo:
  assumes "fst (create cap max_msg opts env) = Inr s" and "unat max_msg \<le> 2 ^ 32 - 72"
    and "\<forall>x\<in>set xs. sized_op x"
    and "run_calls bus_call xs (fresh_bus pid_p pid_c s) = (rs, b)"
  shows "run_calls (queue_call (unat cap) (unat max_msg)) xs [] = (rs, bus_queue b) \<and> length (bus_queue b) \<le> unat cap"
proof -
  note f = fresh_bus_invar [OF assms(1,2), of pid_p pid_c]
  have ring: "ring_invar (fresh_bus pid_p pid_c s)" using f(1) by (simp add: bus_invar_ring)
  have max: "bus_max (fresh_bus pid_p pid_c s) = unat max_msg"
    using created_segment [OF assms(1)]
    by (simp add: fresh_bus_def new_Producer_def new_Consumer_def init_segment_def bus_max_def)
  have "list_all sized_op xs" using assms(3) by (simp add: list_all_iff)
  from run_calls_refines [OF ring this assms(4)] show ?thesis
    using ring_invar_bound [of b] by (simp add: f(2,3) max)
qed

theorem bus_fifo_witness:
  "(case run_calls bus_call [TryPush [1, 2], TryPush (replicate 9 0), TryPush [], TryPush [4], TryPop [0, 0] 1, TryPop [0, 0] 2,
       TryPop [0, 0] 2, TryPush [5]] sample_bus of
     (rs, b) \<Rightarrow> rs = [Pushed True, Pushed False, Pushed True, Pushed False, Popped 2 [1, 0], Popped 0 [0, 0],
         Popped 0 [0, 0], Pushed True] \<and> bus_queue b = [[5]])"
proof -
  let ?xs = "[TryPush [1, 2], TryPush (replicate 9 0), TryPush [], TryPush [4], TryPop [0, 0] 1, TryPop [0, 0] 2,
       TryPop [0, 0] 2, TryPush [5]]"
  obtain rs b where r: "run_calls bus_call ?xs (fresh_bus 1 2 sample_segment) = (rs, b)"
    by (cases "run_calls bus_call ?xs (fresh_bus 1 2 sample_segment)")
  have "run_calls (queue_call (unat (2 :: u32)) (unat (8 :: u32))) ?xs [] = (rs, bus_queue b)"
    using bus_fifo [OF sample_create _ _ r] by (simp add: sized_op_def)
  moreover have "run_calls (queue_call (unat (2 :: u32)) (unat (8 :: u32))) ?xs [] =
    ([Pushed True, Pushed False, Pushed True, Pushed False, Popped 2 [1, 0], Popped 0 [0, 0],
         Popped 0 [0, 0], Pushed True], [[5]])" by code_simp
  ultimately show ?thesis using r by (simp add: sample_bus_def)
qed

text \<open>
  C7. One call of \<open>try_push\<close>: it succeeds exactly when the message is not too long and the ring
  not full; then it appends the message and keeps the invariant. Refused, it leaves the
  segment untouched.
\<close>

theorem try_push_correct:
  assumes "bus_invar (p, c, s)" and "length payload = unat sz" and "sz \<noteq> 0"
    and "try_push payload sz p s = (r, p', s')"
  shows "(r \<longleftrightarrow> sz \<le> max_msg_size (ctrl s) \<and> in_flight s < unat (capacity (ctrl s))) \<and>
    (r \<longrightarrow> bus_queue (p', c, s') = bus_queue (p, c, s) @ [payload]) \<and>
    (\<not> r \<longrightarrow> s' = s) \<and> bus_invar (p', c, s')"
proof (cases "sz \<le> max_msg_size (ctrl s)")
  case True
  have pok: "producer_ok p s" and fl: "in_flight s \<le> unat (capacity (ctrl s))"
    using assms(1) by (simp_all add: bus_invar_def)
  obtain q where q: "producer_ok q s" and nf: "in_flight s < unat (capacity (ctrl s)) \<Longrightarrow> \<not> p_full q"
    and push: "try_push payload sz p s =
      (if in_flight s < unat (capacity (ctrl s)) then push_slot payload sz q s else (False, q, s))"
    using try_push_cases [OF pok fl True] by metis
  have ne: "payload \<noteq> []" using assms(2,3) by (auto simp: unat_eq_0)
  show ?thesis
  proof (cases "in_flight s < unat (capacity (ctrl s))")
    case room: True
    with push assms(4) have ps: "push_slot payload sz q s = (r, p', s')" by simp
    show ?thesis
      using True room push_slot_ctrl(1) [OF ps] push_slot_queue [OF assms(1) [unfolded bus_invar_ring, THEN conjunct1] room assms(2) True q ps]
        bus_invar_push [OF assms(1) room assms(2) True ne q nf [OF room] ps] by simp
  next
    case False
    with push assms(4) bus_invar_producer [OF assms(1) q] show ?thesis by simp
  qed
next
  case False
  then have "p_max_msg p < sz" using assms(1) by (simp add: bus_invar_def producer_ok_def)
  with assms(1,4) False show ?thesis by (simp add: try_push_oversize)
qed

theorem try_push_correct_witness:
  "\<exists>p c s p' s'. bus_invar (p, c, s) \<and> try_push [7, 8] 2 p s = (True, p', s') \<and>
     bus_queue (p', c, s') = bus_queue (p, c, s) @ [[7, 8]]"
proof -
  obtain p c s where b: "sample_bus = (p, c, s)" by (metis prod_cases3)
  obtain r p' s' where t: "try_push [7, 8] 2 p s = (r, p', s')" by (metis prod_cases3)
  have room: "case sample_bus of (p, c, s) \<Rightarrow> 2 \<le> max_msg_size (ctrl s) \<and> in_flight s < unat (capacity (ctrl s))"
    by code_simp
  note inv = sample_bus_invar [unfolded b]
  have r: "r" and q: "bus_queue (p', c, s') = bus_queue (p, c, s) @ [[7, 8]]"
    using try_push_correct [OF inv _ _ t] room by (simp_all add: b)
  from t r have "try_push [7, 8] 2 p s = (True, p', s')" by simp
  with inv q show ?thesis by blast
qed

text \<open>
  C8. One call of \<open>try_pop\<close>: on an empty ring it returns 0 and changes nothing in the segment;
  otherwise it removes the oldest message, copies at most \<open>buf_size\<close> bytes of it over the front
  of the buffer and returns the full length of the message, also when the buffer was shorter.
\<close>

theorem try_pop_correct:
  assumes "bus_invar (p, c, s)" and "try_pop buf buf_size c s = (n, out, c', s')"
  shows "bus_invar (p, c', s') \<and>
    (case bus_queue (p, c, s) of
       [] \<Rightarrow> n = 0 \<and> out = buf \<and> s' = s
     | m # ms \<Rightarrow> unat n = length m \<and>
         out = take (unat buf_size) m @ drop (min (length m) (unat buf_size)) buf \<and>
         bus_queue (p, c', s') = ms)"
proof -
  have cok: "consumer_ok c s" using assms(1) by (simp add: bus_invar_def)
  obtain d where d: "consumer_ok d s" and nw: "in_flight s \<noteq> 0 \<Longrightarrow> c_read_pos d \<noteq> c_write_cache d"
    and pop: "try_pop buf buf_size c s =
      (if in_flight s = 0 then (0, buf, d, s) else pop_slot buf buf_size d s)"
    using try_pop_cases [OF cok] by metis
  show ?thesis
  proof (cases "in_flight s = 0")
    case True
    with pop assms(2) bus_invar_consumer [OF assms(1) d] show ?thesis by (auto simp: bus_queue_def)
  next
    case False
    with pop assms(2) have ps: "pop_slot buf buf_size d s = (n, out, c', s')" by simp
    from bus_invar_pop [OF assms(1) False d nw [OF False] ps] pop_slot_result [OF d ps]
      pop_slot_queue [OF d False ps, of p c p c'] show ?thesis by simp
  qed
qed

theorem try_pop_correct_witness:
  "\<exists>p c s c' s'. bus_invar (p, c, s) \<and> bus_queue (p, c, s) = [[7, 8, 9]] \<and>
     try_pop [0, 0] 2 c s = (3, [7, 8], c', s') \<and> bus_queue (p, c', s') = []"
proof -
  obtain p c s where b: "snd (bus_enq [7, 8, 9] sample_bus) = (p, c, s)" by (metis prod_cases3)
  have ok: "bus_ok sample_bus [7, 8, 9]" by code_simp
  have inv: "bus_invar (p, c, s)"
    using bus.enq_invar [OF sample_bus_invar ok] b by simp
  have q: "bus_queue (p, c, s) = [[7, 8, 9]]" unfolding b [symmetric] by code_simp
  obtain n out c' s' where t: "try_pop [0, 0] 2 c s = (n, out, c', s')" by (metis prod_cases4)
  have "case snd (bus_enq [7, 8, 9] sample_bus) of
      (p, c, s) \<Rightarrow> fst (try_pop [0, 0] 2 c s) = 3 \<and> fst (snd (try_pop [0, 0] 2 c s)) = [7, 8]"
    by code_simp
  then have "n = 3" "out = [7, 8]" using b t by simp_all
  moreover have "bus_queue (p, c', s') = []" using try_pop_correct [OF inv t] by (simp add: q)
  ultimately show ?thesis using inv q t by blast
qed

text \<open>
  With a maximum message size beyond \<open>2 ^ 32 - 72\<close> the layout is broken: \<open>create\<close> still succeeds, but the stride it
  stores in 32 bits has been cut to 0 or 64 bytes, far less than a header and the maximum
  message it promises to carry.
\<close>

theorem stride_truncated:
  assumes "fst (create cap max_msg opts env) = Inr s" and "2 ^ 32 - 72 < unat max_msg"
  shows "(slot_stride (ctrl s) = 0 \<or> slot_stride (ctrl s) = 64) \<and>
    unat (slot_stride (ctrl s)) < unat (compute_slot_stride (max_msg_size (ctrl s)))"
proof -
  note s = created_segment [OF assms(1), THEN conjunct1]
  define q where "q = (unat max_msg + 71) div 64"
  have "64 * q \<le> unat max_msg + 71" "unat max_msg + 71 < 64 * q + 64"
    unfolding q_def using div_mult_mod_eq [of "unat max_msg + 71" 64] mod_less_divisor [of 64 "unat max_msg + 71"] by linarith+
  moreover have "4294967224 < unat max_msg" "unat max_msg < 4294967296"
    using assms(2) unat_lt_32 [of max_msg] by simp_all
  ultimately have "67108864 \<le> q" "q \<le> 67108865" by linarith+
  then have "q = 67108864 \<or> q = 67108865" by linarith
  moreover have st: "unat (slot_stride (ctrl s)) = 64 * q mod 2 ^ 32"
    by (simp only: s init_segment_def segment.simps ControlBlock.simps unat_stride32 q_def)
  ultimately have or: "unat (slot_stride (ctrl s)) = 0 \<or> unat (slot_stride (ctrl s)) = 64"
    by (elim disjE) (simp_all only: mod_mult_right_eq, simp_all)
  have "slot_stride (ctrl s) = 64" if "unat (slot_stride (ctrl s)) = 64"
    by (rule word_unat_eq_iff [THEN iffD2]) (simp add: that)
  with or have "slot_stride (ctrl s) = 0 \<or> slot_stride (ctrl s) = 64" by (blast dest: unat_eq_0 [THEN iffD1])
  moreover have "max_msg_size (ctrl s) = max_msg" by (simp add: s init_segment_def)
  moreover have "64 < unat (compute_slot_stride max_msg)" using stride_fits [of max_msg] assms(2) by simp
  ultimately show ?thesis using or by auto
qed

theorem stride_truncated_witness:
  "\<exists>s. fst (create 2 (2 ^ 32 - 71) sample_opts sample_env) = Inr s \<and> slot_stride (ctrl s) = 0"
proof -
  let ?s = "init_segment 2 (2 ^ 32 - 71) (make_session_id sample_env) (compute_shm_size 2 (2 ^ 32 - 71))"
  have c: "fst (create 2 (2 ^ 32 - 71) sample_opts sample_env) = Inr ?s"
    by (simp add: create_def sample_env_def sample_opts_def Let_def)
  have "slot_stride (ctrl ?s) \<noteq> 64" by code_simp
  moreover have "2 ^ 32 - 72 < unat (2 ^ 32 - 71 :: u32)" by simp
  ultimately show ?thesis using stride_truncated [OF c] c by blast
qed

text \<open>
  C13. Bounds: in every segment that \<open>create\<close> returns, the slot of every position starts on a cache line behind
  the control block and ends inside the segment. It has room for the header and the longest message exactly if
  the maximum message size is at most \<open>2 ^ 32 - 72\<close>.
\<close>

theorem slot_inside_segment:
  assumes "fst (create cap max_msg opts env) = Inr s"
  shows "unat sizeof_ControlBlock \<le> slot_at (ctrl s) pos \<and> 64 dvd slot_at (ctrl s) pos \<and>
    slot_at (ctrl s) pos + unat (slot_stride (ctrl s)) \<le> unat (seg_size s) \<and>
    (unat sizeof_SlotHeader + unat max_msg \<le> unat (slot_stride (ctrl s)) \<longleftrightarrow> unat max_msg \<le> 2 ^ 32 - 72)"
proof -
  note s = created_segment [OF assms]
  from s obtain k where k: "unat cap = 2 ^ k" "k < 32" by (auto elim: pow2E)
  define st where "st = unat (slot_stride (ctrl s))"
  have st: "st = 64 * ((unat max_msg + 71) div 64) mod 2 ^ 32"
    using s by (simp add: st_def init_segment_def unat_stride32)
  have cap: "capacity (ctrl s) = cap" using s by (simp add: init_segment_def)
  have at: "slot_at (ctrl s) pos = 256 + (unat pos mod 2 ^ k) * st"
    by (simp add: slot_at_def cap slot_ptr_eq [OF k] st_def)
  have size: "unat (seg_size s) = 256 + 2 ^ k * (64 * ((unat max_msg + 71) div 64))"
    using s unat_compute_shm_size [OF k, of max_msg] by (simp add: init_segment_def segment_bytes_def k(1))
  have "Suc (unat pos mod 2 ^ k) * st \<le> 2 ^ k * st" by (intro mult_right_mono) (auto simp: Suc_le_eq)
  also have "\<dots> \<le> 2 ^ k * (64 * ((unat max_msg + 71) div 64))" unfolding st by (intro mult_left_mono mod_less_eq_dividend) simp
  finally have inside: "Suc (unat pos mod 2 ^ k) * st \<le> 2 ^ k * (64 * ((unat max_msg + 71) div 64))" .
  have dvd: "64 dvd st" unfolding st by (intro dvd_mod) simp_all
  have room: "8 + unat max_msg \<le> st \<longleftrightarrow> unat max_msg \<le> 2 ^ 32 - 72"
  proof (cases "unat max_msg \<le> 2 ^ 32 - 72")
    case True
    then show ?thesis using s stride_fits [of max_msg]
      by (simp add: st_def init_segment_def stride32_exact [OF True])
  next
    case False
    have "st \<le> 64" using stride_truncated [OF assms] False by (auto simp: st_def)
    with False show ?thesis by simp
  qed
  from at size inside dvd room show ?thesis by (simp add: layout_consts st_def dvd_add dvd_mult)
qed

theorem slot_inside_segment_witness:
  "slot_at (ctrl sample_segment) 3 = 320 \<and>
   slot_at (ctrl sample_segment) 3 + unat (slot_stride (ctrl sample_segment)) \<le> unat (seg_size sample_segment)"
proof -
  have "slot_at (ctrl sample_segment) 3 = 320" by code_simp
  with slot_inside_segment [OF sample_create, of 3] show ?thesis by simp
qed


end
