(* ===== verification/Spsc_Blocking.thy ===== *)
theory Spsc_Blocking
  imports Spsc_Bus
begin

text \<open>
  The spinning calls of \<open>spsc_bus.hpp\<close>: \<open>push\<close>, \<open>push_checked\<close>, \<open>pop\<close>, \<open>pop_checked\<close>, the
  liveness checks and the heartbeats. Between two attempts of a loop the other process acts
  on the segment; what it does at attempt \<open>i\<close> is the function \<open>env i\<close>. The fuel counts
  attempts; \<open>None\<close> means that the loop is still spinning.
\<close>

section \<open>Peer liveness and heartbeats\<close>

definition ESRCH :: int where "ESRCH = 3"

text \<open>\<open>kill(pid, 0)\<close> returns 0, or fails with an error number.\<close>

type_synonym kill_fun = "u32 \<Rightarrow> int \<times> int"

definition peer_status :: "kill_fun \<Rightarrow> u32 \<Rightarrow> PeerStatus" where
  "peer_status kill pid =
     (if pid = 0 then Unknown
      else case kill pid of (r, e) \<Rightarrow>
        if r = 0 then Alive else if e = ESRCH then Dead else Unknown)"

definition consumer_status :: "kill_fun \<Rightarrow> segment \<Rightarrow> PeerStatus" where
  "consumer_status kill s = peer_status kill (consumer_pid (ctrl s))"

definition producer_status :: "kill_fun \<Rightarrow> segment \<Rightarrow> PeerStatus" where
  "producer_status kill s = peer_status kill (producer_pid (ctrl s))"

definition producer_heartbeat :: "timespec \<Rightarrow> segment \<Rightarrow> segment" where
  "producer_heartbeat ts s = s\<lparr>ctrl := (ctrl s)\<lparr>producer_heartbeat_ts := mono_ns ts\<rparr>\<rparr>"

definition consumer_heartbeat :: "timespec \<Rightarrow> segment \<Rightarrow> segment" where
  "consumer_heartbeat ts s = s\<lparr>ctrl := (ctrl s)\<lparr>consumer_heartbeat_ts := mono_ns ts\<rparr>\<rparr>"

section \<open>Spinning\<close>

type_synonym interference = "nat \<Rightarrow> segment \<Rightarrow> segment"

fun push :: "nat \<Rightarrow> interference \<Rightarrow> nat \<Rightarrow> bytes \<Rightarrow> u32 \<Rightarrow> Producer \<Rightarrow> segment
    \<Rightarrow> (Producer \<times> segment) option" where
  "push 0 env i payload sz p s = None"
| "push (Suc fuel) env i payload sz p s =
     (case try_push payload sz p s of
        (True, p', s') \<Rightarrow> Some (p', s')
      | (False, p', s') \<Rightarrow> push fuel env (Suc i) payload sz p' (env i s'))"

text \<open>
  \<open>int spins\<close>: incrementing it past \<open>INT_MAX\<close> and a remainder by zero are undefined.
\<close>

definition INT_MAX :: int where "INT_MAX = 2 ^ 31 - 1"

datatype 'r spin = Returned 'r | Undefined

definition next_spin :: "int \<Rightarrow> nat \<Rightarrow> bool spin" where
  "next_spin check_every spins =
     (if int (Suc spins) > INT_MAX \<or> check_every = 0 then Undefined
      else Returned (int (Suc spins) mod check_every = 0))"

fun push_checked :: "nat \<Rightarrow> interference \<Rightarrow> (nat \<Rightarrow> kill_fun) \<Rightarrow> int \<Rightarrow> nat \<Rightarrow> bytes \<Rightarrow> u32
    \<Rightarrow> Producer \<Rightarrow> segment \<Rightarrow> (bool \<times> Producer \<times> segment) spin option" where
  "push_checked 0 env kill ce spins payload sz p s = None"
| "push_checked (Suc fuel) env kill ce spins payload sz p s =
     (case try_push payload sz p s of
        (True, p', s') \<Rightarrow> Some (Returned (True, p', s'))
      | (False, p', s') \<Rightarrow>
          (let s'' = env spins s' in
           case next_spin ce spins of
             Undefined \<Rightarrow> Some Undefined
           | Returned check \<Rightarrow>
               if check \<and> consumer_status (kill spins) s'' = Dead
               then Some (Returned (False, p', s''))
               else push_checked fuel env kill ce (Suc spins) payload sz p' s''))"

fun pop :: "nat \<Rightarrow> interference \<Rightarrow> nat \<Rightarrow> bytes \<Rightarrow> u32 \<Rightarrow> Consumer \<Rightarrow> segment
    \<Rightarrow> (u32 \<times> bytes \<times> Consumer \<times> segment) option" where
  "pop 0 env i buf n c s = None"
| "pop (Suc fuel) env i buf n c s =
     (case try_pop buf n c s of
        (sz, buf', c', s') \<Rightarrow>
          if sz = 0 then pop fuel env (Suc i) buf' n c' (env i s')
          else Some (sz, buf', c', s'))"

text \<open>The result carries the value of \<open>*peer_dead\<close>.\<close>

fun pop_checked :: "nat \<Rightarrow> interference \<Rightarrow> (nat \<Rightarrow> kill_fun) \<Rightarrow> int \<Rightarrow> nat \<Rightarrow> bytes \<Rightarrow> u32
    \<Rightarrow> Consumer \<Rightarrow> segment \<Rightarrow> (u32 \<times> bool \<times> bytes \<times> Consumer \<times> segment) spin option" where
  "pop_checked 0 env kill ce spins buf n c s = None"
| "pop_checked (Suc fuel) env kill ce spins buf n c s =
     (case try_pop buf n c s of
        (sz, buf', c', s') \<Rightarrow>
          if sz \<noteq> 0 then Some (Returned (sz, False, buf', c', s'))
          else (let s'' = env spins s' in
            case next_spin ce spins of
              Undefined \<Rightarrow> Some Undefined
            | Returned check \<Rightarrow>
                if check \<and> producer_status (kill spins) s'' = Dead
                then Some (Returned (0, True, buf', c', s''))
                else pop_checked fuel env kill ce (Suc spins) buf' n c' s''))"

section \<open>What the other side may do\<close>

text \<open>
  A consumer only advances the read position, by at most the messages in flight, and writes
  its own registration fields.
\<close>

definition consumer_moves :: "nat \<Rightarrow> segment \<Rightarrow> segment \<Rightarrow> bool" where
  "consumer_moves n s s' \<longleftrightarrow> n \<le> in_flight s \<and> mem s' = mem s \<and>
     capacity (ctrl s') = capacity (ctrl s) \<and> slot_stride (ctrl s') = slot_stride (ctrl s) \<and>
     max_msg_size (ctrl s') = max_msg_size (ctrl s) \<and> write_pos (ctrl s') = write_pos (ctrl s) \<and>
     read_pos (ctrl s') = read_pos (ctrl s) + of_nat n"

lemma consumer_moves_in_flight:
  assumes "consumer_moves n s s'"
  shows "in_flight s' = in_flight s - n"
proof -
  have n: "n \<le> unat (write_pos (ctrl s) - read_pos (ctrl s))"
    using assms by (simp add: consumer_moves_def in_flight_def)
  then have le: "of_nat n \<le> write_pos (ctrl s) - read_pos (ctrl s)"
    using unat_lt_64 [of "write_pos (ctrl s) - read_pos (ctrl s)"]
    by (simp add: word_le_nat_alt unat_of_nat_64)
  have "in_flight s' = unat ((write_pos (ctrl s) - read_pos (ctrl s)) - of_nat n)"
    using assms by (simp add: consumer_moves_def in_flight_def diff_diff_eq)
  also have "\<dots> = unat (write_pos (ctrl s) - read_pos (ctrl s)) - n"
    using n unat_lt_64 [of "write_pos (ctrl s) - read_pos (ctrl s)"]
    by (simp add: unat_sub_le [OF le] unat_of_nat_64)
  finally show ?thesis by (simp add: in_flight_def)
qed

lemma consumer_moves_producer_ok:
  "consumer_moves n s s' \<Longrightarrow> producer_ok p s \<Longrightarrow> producer_ok p s'"
  using consumer_moves_in_flight [of n s s'] by (auto simp: consumer_moves_def producer_ok_def)

text \<open>A producer only publishes further messages, none of them empty.\<close>

definition producer_moves :: "nat \<Rightarrow> segment \<Rightarrow> segment \<Rightarrow> bool" where
  "producer_moves n s s' \<longleftrightarrow> in_flight s' = in_flight s + n \<and>
     capacity (ctrl s') = capacity (ctrl s) \<and> slot_stride (ctrl s') = slot_stride (ctrl s) \<and>
     max_msg_size (ctrl s') = max_msg_size (ctrl s) \<and> read_pos (ctrl s') = read_pos (ctrl s) \<and>
     (\<forall>i<in_flight s'. slot_len (mem s') (slot_at (ctrl s') (read_pos (ctrl s') + of_nat i)) \<noteq> 0)"

lemma producer_moves_consumer_ok:
  "producer_moves n s s' \<Longrightarrow> consumer_ok c s \<Longrightarrow> consumer_ok c s'"
  by (auto simp: producer_moves_def consumer_ok_def)

section \<open>The loops return\<close>

lemma published_at_tail:
  assumes "producer_ok q t" and "push_slot payload sz q t = (r, p', s')"
    and "length payload = unat sz"
  shows "slot_msg (mem s') (slot_at (ctrl s') (write_pos (ctrl s') - 1)) = payload"
  using assms(1,3)
  by (simp add: push_slot_ctrl [OF assms(2)] slot_at_def producer_ok_def p_slot_def slot_fill_same)

lemma push_room:
  assumes "producer_ok p s" and "in_flight s < unat (capacity (ctrl s))"
    and "sz \<le> max_msg_size (ctrl s)" and "length payload = unat sz"
  shows "\<exists>p' s'. push (Suc fuel) env i payload sz p s = Some (p', s') \<and>
    slot_msg (mem s') (slot_at (ctrl s') (write_pos (ctrl s') - 1)) = payload"
proof -
  obtain q where q: "producer_ok q s"
    and push: "try_push payload sz p s =
      (if in_flight s < unat (capacity (ctrl s)) then push_slot payload sz q s else (False, q, s))"
    using try_push_cases [OF assms(1) _ assms(3)] assms(2) by (metis less_imp_le)
  obtain r p' s' where ps: "push_slot payload sz q s = (r, p', s')" by (metis prod_cases3)
  have "r" by (rule push_slot_ctrl(1) [OF ps])
  with push ps assms(2) published_at_tail [OF q ps assms(4)] show ?thesis by auto
qed

lemma push_full:
  assumes "producer_ok p s" and "in_flight s = unat (capacity (ctrl s))"
    and "sz \<le> max_msg_size (ctrl s)"
  obtains q where "producer_ok q s" and "try_push payload sz p s = (False, q, s)"
  using try_push_cases [OF assms(1) _ assms(3), of payload] assms(2) by (metis order_refl less_irrefl)

lemma push_eventually:
  assumes "producer_ok p s" and "in_flight s \<le> unat (capacity (ctrl s))" and "capacity (ctrl s) \<noteq> 0"
    and "sz \<le> max_msg_size (ctrl s)" and "length payload = unat sz"
    and "\<And>j t. i \<le> j \<Longrightarrow> j < i + k \<Longrightarrow> \<exists>n. consumer_moves n t (env j t)"
    and "\<And>t. 0 < in_flight t \<Longrightarrow> \<exists>n>0. consumer_moves n t (env (i + k) t)"
    and "k + 2 \<le> fuel"
  shows "\<exists>p' s'. push fuel env i payload sz p s = Some (p', s') \<and>
    slot_msg (mem s') (slot_at (ctrl s') (write_pos (ctrl s') - 1)) = payload"
  using assms
proof (induction k arbitrary: i p s fuel)
  case (0 i p s fuel)
  then obtain f where f: "fuel = Suc (Suc f)"
    by (metis add_2_eq_Suc' add.left_neutral le_Suc_ex add_Suc)
  show ?case
  proof (cases "in_flight s < unat (capacity (ctrl s))")
    case True
    from push_room [OF "0.prems"(1) True "0.prems"(4,5)] f show ?thesis by simp
  next
    case False
    with "0.prems"(2) have full: "in_flight s = unat (capacity (ctrl s))" by simp
    then have pos: "0 < in_flight s" using "0.prems"(3) by (simp add: unat_gt_0)
    with "0.prems"(7) obtain n where n: "0 < n" "consumer_moves n s (env i s)" by auto
    obtain q where q: "producer_ok q s" "try_push payload sz p s = (False, q, s)"
      by (rule push_full [OF "0.prems"(1) full "0.prems"(4)])
    have "in_flight (env i s) < unat (capacity (ctrl (env i s)))"
      using consumer_moves_in_flight [OF n(2)] n full pos by (simp add: consumer_moves_def)
    from push_room [OF consumer_moves_producer_ok [OF n(2) q(1)] this _ "0.prems"(5)]
    show ?thesis using n(2) "0.prems"(4) f q(2) by (simp add: consumer_moves_def)
  qed
next
  case (Suc k i p s fuel)
  then obtain f where f: "fuel = Suc f" "k + 2 \<le> f" by (metis Suc_le_D add_Suc Suc_le_mono)
  show ?case
  proof (cases "in_flight s < unat (capacity (ctrl s))")
    case True
    from push_room [OF Suc.prems(1) True Suc.prems(4,5)] f show ?thesis by simp
  next
    case False
    with Suc.prems(2) have full: "in_flight s = unat (capacity (ctrl s))" by simp
    obtain n where n: "consumer_moves n s (env i s)" using Suc.prems(6) by force
    obtain q where q: "producer_ok q s" "try_push payload sz p s = (False, q, s)"
      by (rule push_full [OF Suc.prems(1) full Suc.prems(4)])
    have "\<exists>p' s'. push f env (Suc i) payload sz q (env i s) = Some (p', s') \<and>
      slot_msg (mem s') (slot_at (ctrl s') (write_pos (ctrl s') - 1)) = payload"
      using consumer_moves_producer_ok [OF n q(1)] consumer_moves_in_flight [OF n] n full
        Suc.prems(3-7) f(2)
      by (intro Suc.IH) (auto simp: consumer_moves_def)
    then show ?thesis using q(2) f(1) by simp
  qed
qed

lemma pop_nonempty:
  assumes "consumer_ok c s" and "in_flight s \<noteq> 0" and "slot_len (mem s) (head_slot s) \<noteq> 0"
  shows "\<exists>sz out c' s'. pop (Suc fuel) env i buf n c s = Some (sz, out, c', s') \<and>
    unat sz = slot_len (mem s) (head_slot s) \<and>
    take (unat n) out = take (unat n) (slot_msg (mem s) (head_slot s) @ drop (unat sz) buf) \<and>
    read_pos (ctrl s') = read_pos (ctrl s) + 1"
proof -
  obtain d where d: "consumer_ok d s"
    and pop: "try_pop buf n c s = (if in_flight s = 0 then (0, buf, d, s) else pop_slot buf n d s)"
    using try_pop_cases [OF assms(1)] by metis
  obtain sz out c' s' where ps: "pop_slot buf n d s = (sz, out, c', s')" by (metis prod_cases4)
  note res = pop_slot_result [OF d ps]
  have "sz \<noteq> 0" using res(1) assms(3) by auto
  then show ?thesis using pop ps assms(2) res by (auto simp: min_def)
qed

lemma try_pop_empty:
  assumes "consumer_ok c s" and "in_flight s = 0"
  obtains d where "consumer_ok d s" and "try_pop buf n c s = (0, buf, d, s)"
  using try_pop_cases [OF assms(1), of buf n] assms(2) by metis

lemma head_slot_len:
  assumes "producer_moves n s s'" and "in_flight s' \<noteq> 0"
  shows "slot_len (mem s') (head_slot s') \<noteq> 0"
  using assms by (auto simp: producer_moves_def head_slot_def dest: spec [of _ "0::nat"])

lemma pop_eventually:
  assumes "consumer_ok c s" and "in_flight s \<noteq> 0 \<Longrightarrow> slot_len (mem s) (head_slot s) \<noteq> 0"
    and "\<And>j t. i \<le> j \<Longrightarrow> j < i + k \<Longrightarrow> in_flight t = 0 \<Longrightarrow> \<exists>n. producer_moves n t (env j t)"
    and "\<And>t. in_flight t = 0 \<Longrightarrow> \<exists>n>0. producer_moves n t (env (i + k) t)"
    and "k + 2 \<le> fuel"
  shows "\<exists>sz out c' s'. pop fuel env i buf n c s = Some (sz, out, c', s') \<and> sz \<noteq> 0"
  using assms
proof (induction k arbitrary: i c s fuel)
  case (0 i c s fuel)
  then obtain f where f: "fuel = Suc (Suc f)"
    by (metis add_2_eq_Suc' add.left_neutral le_Suc_ex add_Suc)
  show ?case
  proof (cases "in_flight s = 0")
    case True
    with "0.prems"(4) obtain m where m: "0 < m" "producer_moves m s (env i s)" by auto
    then have ne: "in_flight (env i s) \<noteq> 0" by (simp add: producer_moves_def)
    obtain d where d: "consumer_ok d s" "try_pop buf n c s = (0, buf, d, s)"
      by (rule try_pop_empty [OF "0.prems"(1) True])
    from pop_nonempty [OF producer_moves_consumer_ok [OF m(2) d(1)] ne head_slot_len [OF m(2) ne]]
      head_slot_len [OF m(2) ne]
    show ?thesis using f d(2) by fastforce
  next
    case False
    with pop_nonempty [OF "0.prems"(1) False "0.prems"(2) [OF False]] "0.prems"(2) f
    show ?thesis by fastforce
  qed
next
  case (Suc k i c s fuel)
  then obtain f where f: "fuel = Suc f" "k + 2 \<le> f" by (metis Suc_le_D add_Suc Suc_le_mono)
  show ?case
  proof (cases "in_flight s = 0")
    case True
    obtain m where m: "producer_moves m s (env i s)" using Suc.prems(3) True by force
    obtain d where d: "consumer_ok d s" "try_pop buf n c s = (0, buf, d, s)"
      by (rule try_pop_empty [OF Suc.prems(1) True])
    have "\<exists>sz out c' s'. pop f env (Suc i) buf n d (env i s) = Some (sz, out, c', s') \<and> sz \<noteq> 0"
      using producer_moves_consumer_ok [OF m d(1)] head_slot_len [OF m] Suc.prems(3-4) f(2)
      by (intro Suc.IH) auto
    then show ?thesis using d(2) f(1) by simp
  next
    case False
    with pop_nonempty [OF Suc.prems(1) False Suc.prems(2) [OF False]] Suc.prems(2) f
    show ?thesis by fastforce
  qed
qed

section \<open>The loops that check their peer\<close>

text \<open>
  \<open>peer_gone\<close>: the peer has registered its process and the process no longer exists.
\<close>

definition peer_gone :: "(nat \<Rightarrow> kill_fun) \<Rightarrow> u32 \<Rightarrow> bool" where
  "peer_gone kill pid \<longleftrightarrow> pid \<noteq> 0 \<and> (\<forall>i. fst (kill i pid) \<noteq> 0 \<and> snd (kill i pid) = ESRCH)"

lemma peer_gone_status: "peer_gone kill pid \<Longrightarrow> peer_status (kill i) pid = Dead"
  by (simp add: peer_gone_def peer_status_def case_prod_beta)

lemma next_spin_ok:
  assumes "0 < ce" and "int (Suc spins) \<le> ce" and "ce \<le> INT_MAX"
  shows "next_spin ce spins = Returned (int (Suc spins) = ce)"
proof -
  have "int (Suc spins) mod ce = 0 \<longleftrightarrow> int (Suc spins) = ce"
    using assms by (cases "int (Suc spins) = ce") auto
  then show ?thesis using assms by (simp add: next_spin_def)
qed

lemma push_checked_gives_up:
  assumes "producer_ok p s" and "in_flight s = unat (capacity (ctrl s))"
    and "sz \<le> max_msg_size (ctrl s)" and "peer_gone kill (consumer_pid (ctrl s))"
    and "\<And>j t. consumer_moves 0 t (env j t) \<and> consumer_pid (ctrl (env j t)) = consumer_pid (ctrl t)"
    and "0 < ce" and "ce \<le> INT_MAX" and "int spins + int d = ce" and "0 < d" and "d \<le> fuel"
  shows "\<exists>p' s'. push_checked fuel env kill ce spins payload sz p s = Some (Returned (False, p', s')) \<and>
    write_pos (ctrl s') = write_pos (ctrl s) \<and> mem s' = mem s"
  using assms
proof (induction d arbitrary: spins p s fuel)
  case (Suc d spins p s fuel)
  then obtain f where f: "fuel = Suc f" "d \<le> f" by (metis Suc_le_D Suc_le_mono)
  obtain q where q: "producer_ok q s" "try_push payload sz p s = (False, q, s)"
    by (rule push_full [OF Suc.prems(1-3)])
  have env: "consumer_moves 0 s (env spins s)" "consumer_pid (ctrl (env spins s)) = consumer_pid (ctrl s)"
    using Suc.prems(5) by auto
  note same = env(1) [unfolded consumer_moves_def]
  have dead: "consumer_status (kill spins) (env spins s) = Dead"
    using Suc.prems(4) env(2) by (simp add: consumer_status_def peer_gone_status)
  have spin: "next_spin ce spins = Returned (int (Suc spins) = ce)"
    using Suc.prems(6-8) by (intro next_spin_ok) auto
  show ?case
  proof (cases "d = 0")
    case True
    then have "int (Suc spins) = ce" using Suc.prems(8) by simp
    then show ?thesis using f(1) q spin dead same by simp
  next
    case False
    have "\<exists>p' s'. push_checked f env kill ce (Suc spins) payload sz q (env spins s)
        = Some (Returned (False, p', s')) \<and>
      write_pos (ctrl s') = write_pos (ctrl (env spins s)) \<and> mem s' = mem (env spins s)"
      using Suc.prems(3-8) False f(2) same env(2) consumer_moves_producer_ok [OF env(1) q(1)]
        consumer_moves_in_flight [OF env(1)] Suc.prems(2)
      by (intro Suc.IH) auto
    then show ?thesis using False f(1) q spin same Suc.prems(8) by auto
  qed
qed simp

text \<open>Before the attempt with number \<open>check_every\<close> the peer is not asked for, so the loop is still spinning.\<close>

lemma push_checked_spins:
  assumes "producer_ok p s" and "in_flight s = unat (capacity (ctrl s))" and "sz \<le> max_msg_size (ctrl s)"
    and "\<And>j t. consumer_moves 0 t (env j t)"
    and "0 < ce" and "ce \<le> INT_MAX" and "int spins + int fuel < ce"
  shows "push_checked fuel env kill ce spins payload sz p s = None"
  using assms
proof (induction fuel arbitrary: spins p s)
  case (Suc fuel spins p s)
  obtain q where q: "producer_ok q s" "try_push payload sz p s = (False, q, s)"
    by (rule push_full [OF Suc.prems(1-3)])
  have env: "consumer_moves 0 s (env spins s)" by (rule Suc.prems(4))
  have spin: "next_spin ce spins = Returned False"
    using next_spin_ok [of ce spins] Suc.prems(5-7) by simp
  have "push_checked fuel env kill ce (Suc spins) payload sz q (env spins s) = None"
    using Suc.prems(2-7) consumer_moves_producer_ok [OF env q(1)] consumer_moves_in_flight [OF env]
      env [unfolded consumer_moves_def]
    by (intro Suc.IH) auto
  then show ?case using q(2) spin by simp
qed simp

lemma pop_checked_gives_up:
  assumes "consumer_ok c s" and "in_flight s = 0" and "peer_gone kill (producer_pid (ctrl s))"
    and "\<And>j t. in_flight t = 0 \<Longrightarrow>
      producer_moves 0 t (env j t) \<and> producer_pid (ctrl (env j t)) = producer_pid (ctrl t)"
    and "0 < ce" and "ce \<le> INT_MAX" and "int spins + int d = ce" and "0 < d" and "d \<le> fuel"
  shows "\<exists>c' s'. pop_checked fuel env kill ce spins buf n c s = Some (Returned (0, True, buf, c', s'))"
  using assms
proof (induction d arbitrary: spins c s fuel)
  case (Suc d spins c s fuel)
  then obtain f where f: "fuel = Suc f" "d \<le> f" by (metis Suc_le_D Suc_le_mono)
  obtain q where q: "consumer_ok q s" "try_pop buf n c s = (0, buf, q, s)"
    by (rule try_pop_empty [OF Suc.prems(1,2)])
  have env: "producer_moves 0 s (env spins s)" "producer_pid (ctrl (env spins s)) = producer_pid (ctrl s)"
    using Suc.prems(2,4) by auto
  have dead: "producer_status (kill spins) (env spins s) = Dead"
    using Suc.prems(3) env(2) by (simp add: producer_status_def peer_gone_status)
  have spin: "next_spin ce spins = Returned (int (Suc spins) = ce)"
    using Suc.prems(5-7) by (intro next_spin_ok) auto
  show ?case
  proof (cases "d = 0")
    case True
    then have "int (Suc spins) = ce" using Suc.prems(7) by simp
    then show ?thesis using f(1) q spin dead by simp
  next
    case False
    have "\<exists>c' s'. pop_checked f env kill ce (Suc spins) buf n q (env spins s)
        = Some (Returned (0, True, buf, c', s'))"
      using Suc.prems(2-7) False f(2) env(2) producer_moves_consumer_ok [OF env(1) q(1)]
        env(1) [unfolded producer_moves_def]
      by (intro Suc.IH) auto
    then show ?thesis using False f(1) q spin Suc.prems(7) by auto
  qed
qed simp

lemma push_oversize_spins:
  "p_max_msg p < sz \<Longrightarrow> push fuel env i payload sz p s = None"
  by (induction fuel arbitrary: i s) (simp_all add: try_push_oversize)

text \<open>An empty message occupies a slot and is popped like an empty ring.\<close>

lemma pop_no_interference_empty:
  "consumer_ok c s \<Longrightarrow> in_flight s = 0 \<Longrightarrow> pop fuel (\<lambda>_ t. t) i buf n c s = None"
proof (induction fuel arbitrary: i c)
  case (Suc fuel)
  obtain d where d: "consumer_ok d s" "try_pop buf n c s = (0, buf, d, s)"
    by (rule try_pop_empty [OF Suc.prems])
  from Suc.IH [OF d(1) Suc.prems(2)] d(2) show ?case by simp
qed simp

section \<open>Properties\<close>

text \<open>The consumer that empties the ring, and a full ring of two slots, for the instances.\<close>

definition drain :: interference where
  "drain i s = s\<lparr>ctrl := (ctrl s)\<lparr>read_pos := write_pos (ctrl s)\<rparr>\<rparr>"

definition stay :: interference where "stay i s = s"

definition full_bus :: bus where
  "full_bus = snd (bus_enq [2] (snd (bus_enq [1] sample_bus)))"

lemma drain_moves: "consumer_moves (in_flight t) t (drain i t)"
  by (simp add: consumer_moves_def drain_def in_flight_def)

definition feed :: interference where
  "feed i s = (if in_flight s = 0
     then s\<lparr>mem := fill_slot (head_slot s) [5] 1 (mem s),
            ctrl := (ctrl s)\<lparr>write_pos := read_pos (ctrl s) + 1\<rparr>\<rparr> else s)"

lemma feed_moves: "in_flight t = 0 \<Longrightarrow> producer_moves 1 t (feed i t)"
  using slot_fill_same(2) [of "[5]" 1]
  by (simp add: producer_moves_def feed_def in_flight_def head_slot_def slot_at_def)

lemma full_bus_invar: "bus_invar full_bus"
proof -
  have "bus_ok sample_bus [1]" "bus_ok (snd (bus_enq [1] sample_bus)) [2]" by code_simp+
  then show ?thesis unfolding full_bus_def by (intro bus.enq_invar sample_bus_invar)
qed

lemma full_bus_facts:
  assumes "full_bus = (p, c, s)"
  shows "producer_ok p s" and "in_flight s = 2" and "capacity (ctrl s) = 2" and "max_msg_size (ctrl s) = 8"
    and "consumer_pid (ctrl s) = 2"
proof -
  show "producer_ok p s" using full_bus_invar by (simp add: assms bus_invar_def)
  have "case full_bus of (p, c, s) \<Rightarrow> in_flight s = 2 \<and> capacity (ctrl s) = 2 \<and> max_msg_size (ctrl s) = 8 \<and>
      consumer_pid (ctrl s) = 2" by code_simp
  then show "in_flight s = 2" "capacity (ctrl s) = 2" "max_msg_size (ctrl s) = 8" "consumer_pid (ctrl s) = 2"
    by (simp_all add: assms)
qed

text \<open>
  C31. A blocking \<open>push\<close> against a consumer that pops: between the attempts the consumer only pops, and at the latest
  after \<open>k\<close> idle turns it pops at least one message when there is one. A message that fits is then pushed within
  \<open>k + 2\<close> attempts and is the last one published; for a message longer than the maximum the loop never returns,
  whatever number of attempts it is given.
\<close>

theorem push_returns:
  assumes "bus_invar (p, c, s)" and "length payload = unat sz"
    and "\<forall>j<k. \<forall>t. \<exists>n. consumer_moves n t (env j t)"
    and "\<forall>t. 0 < in_flight t \<longrightarrow> (\<exists>n>0. consumer_moves n t (env k t))"
  shows "if sz \<le> max_msg_size (ctrl s)
    then \<exists>p' s'. push (k + 2) env 0 payload sz p s = Some (p', s') \<and>
      slot_msg (mem s') (slot_at (ctrl s') (write_pos (ctrl s') - 1)) = payload
    else \<forall>fuel. push fuel env 0 payload sz p s = None"
proof (cases "sz \<le> max_msg_size (ctrl s)")
  case True
  have "capacity (ctrl s) \<noteq> 0" using assms(1) by (auto simp: bus_invar_def cfg_ok_def pow2_def)
  with assms True have "\<exists>p' s'. push (k + 2) env 0 payload sz p s = Some (p', s') \<and>
      slot_msg (mem s') (slot_at (ctrl s') (write_pos (ctrl s') - 1)) = payload"
    by (intro push_eventually [where k = k]) (auto simp: bus_invar_def)
  with True show ?thesis by simp
next
  case False
  then have "p_max_msg p < sz" using assms(1) by (simp add: bus_invar_def producer_ok_def)
  with False show ?thesis by (simp add: push_oversize_spins)
qed

theorem push_returns_witness:
  "case full_bus of (p, c, s) \<Rightarrow> fst (try_push [3] 1 p s) = False \<and>
     (\<exists>p' s'. push 2 drain 0 [3] 1 p s = Some (p', s') \<and>
       slot_msg (mem s') (slot_at (ctrl s') (write_pos (ctrl s') - 1)) = [3]) \<and>
     (\<forall>fuel. push fuel drain 0 (replicate 9 0) 9 p s = None)"
proof -
  obtain p c s where b: "full_bus = (p, c, s)" by (metis prod_cases3)
  have "case full_bus of (p, c, s) \<Rightarrow> fst (try_push [3] 1 p s) = False" by code_simp
  then have full: "fst (try_push [3] 1 p s) = False" by (simp only: b prod.case)
  note pushed = push_returns [OF full_bus_invar [unfolded b], of _ _ 0 drain]
  have 0: "\<forall>t. 0 < in_flight t \<longrightarrow> (\<exists>n>0. consumer_moves n t (drain 0 t))" using drain_moves by auto
  have "\<exists>p' s'. push (0 + 2) drain 0 [3] 1 p s = Some (p', s') \<and>
      slot_msg (mem s') (slot_at (ctrl s') (write_pos (ctrl s') - 1)) = [3]"
    using pushed [of "[3]" 1] 0 full_bus_facts(4) [OF b] by simp
  then have fits: "\<exists>p' s'. push 2 drain 0 [3] 1 p s = Some (p', s') \<and>
      slot_msg (mem s') (slot_at (ctrl s') (write_pos (ctrl s') - 1)) = [3]" by (simp only: add_0_left)
  have "\<forall>fuel. push fuel drain 0 (replicate 9 0) 9 p s = None"
    using pushed [of "replicate 9 0" 9] 0 full_bus_facts(4) [OF b] by simp
  with full fits show ?thesis unfolding b prod.case by blast
qed

text \<open>
  A blocking \<open>push\<close> of a message longer than the maximum never returns, whatever the
  consumer does: \<open>try_push\<close> refuses it for good and the loop does not tell why it failed.
\<close>

theorem push_oversize_never_returns:
  assumes "bus_invar (p, c, s)" and "max_msg_size (ctrl s) < sz"
  shows "push fuel env i payload sz p s = None"
  using assms by (intro push_oversize_spins) (simp add: bus_invar_def producer_ok_def)

theorem push_oversize_never_returns_witness:
  "case full_bus of (p, c, s) \<Rightarrow> push 1000000 drain 0 (replicate 9 0) 9 p s = None"
proof -
  obtain p c s where b: "full_bus = (p, c, s)" by (metis prod_cases3)
  have "max_msg_size (ctrl s) < 9" by (simp add: full_bus_facts(4) [OF b])
  from push_oversize_never_returns [OF full_bus_invar [unfolded b] this] show ?thesis by (simp add: b)
qed

text \<open>
  A blocking \<open>pop\<close> returns as soon as the producer publishes: if between the attempts the
  producer only publishes non-empty messages, and at the latest after \<open>k\<close> idle turns
  publishes one when the ring is empty, then at most \<open>k + 2\<close> attempts are made and a message
  is delivered.
\<close>

theorem pop_returns:
  assumes "bus_invar (p, c, s)"
    and "\<forall>j<k. \<forall>t. in_flight t = 0 \<longrightarrow> (\<exists>m. producer_moves m t (env j t))"
    and "\<forall>t. in_flight t = 0 \<longrightarrow> (\<exists>m>0. producer_moves m t (env k t))"
  shows "\<exists>sz out c' s'. pop (k + 2) env 0 buf n c s = Some (sz, out, c', s') \<and> sz \<noteq> 0"
proof -
  have "slot_len (mem s) (head_slot s) \<noteq> 0" if "in_flight s \<noteq> 0"
  proof -
    have "slot_msg (mem s) (slot_at (ctrl s) (read_pos (ctrl s) + of_nat 0)) \<in> set (bus_queue (p, c, s))"
      unfolding bus_queue_def prod.case set_map using that by (intro imageI) auto
    then have "slot_msg (mem s) (head_slot s) \<in> set (bus_queue (p, c, s))"
      by (simp add: head_slot_def)
    then show ?thesis using assms(1) by (force simp: bus_invar_def simp flip: length_slot_msg)
  qed
  with assms show ?thesis by (intro pop_eventually [where k = k]) (auto simp: bus_invar_def)
qed

theorem pop_returns_witness:
  "case sample_bus of (p, c, s) \<Rightarrow> fst (try_pop [] 8 c s) = 0 \<and>
     (\<exists>sz out c' s'. pop 2 feed 0 [] 8 c s = Some (sz, out, c', s') \<and> sz \<noteq> 0)"
proof -
  obtain p c s where b: "sample_bus = (p, c, s)" by (metis prod_cases3)
  have "case sample_bus of (p, c, s) \<Rightarrow> fst (try_pop [] 8 c s) = 0" by code_simp
  moreover have "\<exists>sz out c' s'. pop (0 + 2) feed 0 [] 8 c s = Some (sz, out, c', s') \<and> sz \<noteq> 0"
    by (rule pop_returns [OF sample_bus_invar [unfolded b]]) (use feed_moves in auto)
  ultimately show ?thesis unfolding b prod.case by (simp only: add_0_left)
qed

text \<open>
  An empty message is accepted and then lost: \<open>try_push\<close> of zero bytes publishes a slot,
  the next \<open>try_pop\<close> consumes the slot and returns 0, as for an empty ring, and a blocking
  \<open>pop\<close> consumes it and keeps spinning.
\<close>

theorem empty_message_lost:
  assumes "bus_invar (p, c, s)" and "in_flight s = 0" and "try_push [] 0 p s = (r, p', s')"
  shows "r \<and> in_flight s' = 1 \<and>
    (\<exists>c' s''. try_pop buf n c s' = (0, buf, c', s'') \<and> in_flight s'' = 0) \<and>
    pop fuel (\<lambda>_ t. t) i buf n c s' = None"
proof -
  have pok: "producer_ok p s" and cok: "consumer_ok c s" and cap: "0 < unat (capacity (ctrl s))"
    using assms(1) by (auto simp: bus_invar_def cfg_ok_def pow2_def unat_gt_0)
  obtain q where q: "producer_ok q s" and "try_push [] 0 p s =
      (if in_flight s < unat (capacity (ctrl s)) then push_slot [] 0 q s else (False, q, s))"
    using try_push_cases [OF pok] assms(2) by (metis le0 word_zero_le)
  then have ps: "push_slot [] 0 q s = (r, p', s')" using assms(2,3) cap by simp
  have fl: "in_flight s' = 1" using push_slot_in_flight [OF q _ ps] cap assms(2) by simp
  have "consumer_ok c s'"
    using cok assms(2) fl by (auto simp: consumer_ok_def push_slot_ctrl(2) [OF ps])
  then obtain d where d: "consumer_ok d s'" and nw: "in_flight s' \<noteq> 0 \<Longrightarrow> c_read_pos d \<noteq> c_write_cache d"
    and pop: "try_pop buf n c s' = (if in_flight s' = 0 then (0, buf, d, s') else pop_slot buf n d s')"
    using try_pop_cases by metis
  obtain sz out c' s'' where pp: "pop_slot buf n d s' = (sz, out, c', s'')" by (metis prod_cases4)
  have "write_pos (ctrl s) = read_pos (ctrl s)" using assms(2) by (simp add: in_flight_def unat_eq_0)
  then have head: "head_slot s' = p_slot q"
    using q by (simp add: head_slot_def push_slot_ctrl [OF ps] producer_ok_def p_slot_def slot_at_def)
  have "slot_len (mem s') (head_slot s') = 0"
    using slot_fill_same(2) [of "[]" 0] by (simp add: head push_slot_ctrl [OF ps])
  then have z: "sz = 0" "out = buf"
    using pop_slot_result [OF d pp] by (simp_all add: unat_eq_0 flip: length_0_conv)
  have z2: "in_flight s'' = 0" and c': "consumer_ok c' s''"
    using pop_slot_in_flight [OF d _ pp] pop_slot_consumer_ok [OF d nw _ pp] fl by simp_all
  have "pop fuel (\<lambda>_ t. t) i buf n c s' = None"
    using pop_no_interference_empty [OF c' z2] pop pp fl z by (cases fuel) auto
  with fl push_slot_ctrl(1) [OF ps] pop pp z z2 show ?thesis by auto
qed

theorem empty_message_lost_witness:
  "case sample_bus of (p, c, s) \<Rightarrow> case try_push [] 0 p s of (r, p', s') \<Rightarrow>
     r \<and> pop 1000000 (\<lambda>_ t. t) 0 [] 8 c s' = None"
proof -
  obtain p c s where b: "sample_bus = (p, c, s)" by (metis prod_cases3)
  obtain r p' s' where t: "try_push [] 0 p s = (r, p', s')" by (metis prod_cases3)
  have "case sample_bus of (p, c, s) \<Rightarrow> in_flight s = 0" by code_simp
  then have "in_flight s = 0" by (simp add: b)
  from empty_message_lost [OF sample_bus_invar [unfolded b] this t] show ?thesis by (simp add: b t)
qed

text \<open>
  C32. \<open>push_checked\<close> gives up on a dead consumer: on a full ring that nobody pops any more, with the consumer's
  process registered and gone all along, it makes exactly \<open>check_every\<close> attempts (with fewer it is still spinning,
  since it asks for the consumer only then), returns \<open>false\<close> and has published nothing.
\<close>

theorem push_checked_detects_death:
  assumes "bus_invar (p, c, s)" and "in_flight s = unat (capacity (ctrl s))"
    and "sz \<le> max_msg_size (ctrl s)" and "peer_gone kill (consumer_pid (ctrl s))"
    and "\<forall>j t. consumer_moves 0 t (env j t) \<and> consumer_pid (ctrl (env j t)) = consumer_pid (ctrl t)"
    and "0 < check_every" and "check_every \<le> INT_MAX"
  shows "(\<forall>fuel<nat check_every. push_checked fuel env kill check_every 0 payload sz p s = None) \<and>
    (\<exists>p' s'. push_checked (nat check_every) env kill check_every 0 payload sz p s
      = Some (Returned (False, p', s')) \<and> write_pos (ctrl s') = write_pos (ctrl s) \<and> mem s' = mem s)"
proof
  have pok: "producer_ok p s" using assms(1) by (simp add: bus_invar_def)
  show "\<forall>fuel<nat check_every. push_checked fuel env kill check_every 0 payload sz p s = None"
    using assms(2-7) pok by (intro allI impI push_checked_spins) auto
  show "\<exists>p' s'. push_checked (nat check_every) env kill check_every 0 payload sz p s
      = Some (Returned (False, p', s')) \<and> write_pos (ctrl s') = write_pos (ctrl s) \<and> mem s' = mem s"
    using assms pok by (intro push_checked_gives_up [where d = "nat check_every"]) auto
qed

theorem push_checked_detects_death_witness:
  "case full_bus of (p, c, s) \<Rightarrow>
     push_checked 1023 stay (\<lambda>_ pid. (-1, ESRCH)) kDefaultCheckEvery 0 [3] 1 p s = None \<and>
     (\<exists>p' s'. push_checked (nat kDefaultCheckEvery) stay (\<lambda>_ pid. (-1, ESRCH)) kDefaultCheckEvery 0 [3] 1 p s
       = Some (Returned (False, p', s')) \<and> write_pos (ctrl s') = write_pos (ctrl s) \<and> mem s' = mem s)"
proof -
  obtain p c s where b: "full_bus = (p, c, s)" by (metis prod_cases3)
  note f = full_bus_facts [OF b]
  have "(\<forall>fuel<nat kDefaultCheckEvery. push_checked fuel stay (\<lambda>_ pid. (-1, ESRCH)) kDefaultCheckEvery 0 [3] 1 p s = None) \<and>
     (\<exists>p' s'. push_checked (nat kDefaultCheckEvery) stay (\<lambda>_ pid. (-1, ESRCH)) kDefaultCheckEvery 0 [3] 1 p s
       = Some (Returned (False, p', s')) \<and> write_pos (ctrl s') = write_pos (ctrl s) \<and> mem s' = mem s)"
    by (rule push_checked_detects_death [OF full_bus_invar [unfolded b]])
      (use f in \<open>simp_all add: peer_gone_def stay_def consumer_moves_def kDefaultCheckEvery_def INT_MAX_def\<close>)
  then show ?thesis by (simp add: b kDefaultCheckEvery_def)
qed

text \<open>
  \<open>pop_checked\<close> gives up on a dead producer: on an empty ring that nobody fills any more,
  with the producer's process registered and gone, it returns 0 with \<open>*peer_dead\<close> set
  within \<open>check_every\<close> attempts.
\<close>

theorem pop_checked_detects_death:
  assumes "bus_invar (p, c, s)" and "in_flight s = 0" and "peer_gone kill (producer_pid (ctrl s))"
    and "\<forall>j t. in_flight t = 0 \<longrightarrow>
      producer_moves 0 t (env j t) \<and> producer_pid (ctrl (env j t)) = producer_pid (ctrl t)"
    and "0 < check_every" and "check_every \<le> INT_MAX"
  shows "\<exists>c' s'. pop_checked (nat check_every) env kill check_every 0 buf n c s
    = Some (Returned (0, True, buf, c', s'))"
  using assms by (intro pop_checked_gives_up [where d = "nat check_every"]) (auto simp: bus_invar_def)

theorem pop_checked_detects_death_witness:
  "case sample_bus of (p, c, s) \<Rightarrow>
     \<exists>c' s'. pop_checked (nat kDefaultCheckEvery) stay (\<lambda>_ pid. (-1, ESRCH)) kDefaultCheckEvery 0 [] 8 c s
       = Some (Returned (0, True, [], c', s'))"
proof -
  obtain p c s where b: "sample_bus = (p, c, s)" by (metis prod_cases3)
  have "case sample_bus of (p, c, s) \<Rightarrow> in_flight s = 0 \<and> producer_pid (ctrl s) = 1" by code_simp
  then have f: "in_flight s = 0" "producer_pid (ctrl s) = 1" by (simp_all add: b)
  have "\<exists>c' s'. pop_checked (nat kDefaultCheckEvery) stay (\<lambda>_ pid. (-1, ESRCH)) kDefaultCheckEvery 0 [] 8 c s
       = Some (Returned (0, True, [], c', s'))"
    by (rule pop_checked_detects_death [OF sample_bus_invar [unfolded b] f(1)])
      (use f in \<open>simp_all add: peer_gone_def stay_def producer_moves_def kDefaultCheckEvery_def INT_MAX_def\<close>)
  then show ?thesis by (simp add: b)
qed

end
