(* ===== verification/Spsc_Concurrent.thy ===== *)
theory Spsc_Concurrent
  imports Spsc_Bus
begin

text \<open>
  The producer and the consumer running at the same time on one segment. A step is one access
  to the shared memory: a load or a store of a position, the store or load of a size field,
  one byte of a \<open>memcpy\<close>. Any interleaving is allowed, and an acquire load of the other
  side's position may return any value that side has published since the last load, so a
  late view of the position is covered. The plain accesses to slots are modelled in program
  order; \<open>no_data_race\<close> shows that they never conflict.
\<close>

datatype prod_pc = PIdle | PLoad bytes | PSize bytes | PCopy bytes nat
datatype cons_pc = CIdle | CLoad | CSize | CCopy u32 bytes

text \<open>
  Besides both objects and their program points the state records, as ghosts, the messages
  published so far and the results (returned size and bytes copied) of the pops.
\<close>

record sys =
  seg :: segment
  prod :: Producer
  ppc :: prod_pc
  cons :: Consumer
  cpc :: cons_pc
  buf_sz :: u32
  sent :: "bytes list"
  rcvd :: "(u32 \<times> bytes) list"

definition set_mem :: "memory \<Rightarrow> sys \<Rightarrow> sys" where
  "set_mem m \<sigma> = \<sigma>\<lparr>seg := (seg \<sigma>)\<lparr>mem := m\<rparr>\<rparr>"

definition copy_len :: "u32 \<Rightarrow> sys \<Rightarrow> nat" where
  "copy_len sz \<sigma> = unat (if sz < buf_sz \<sigma> then sz else buf_sz \<sigma>)"

inductive bus_step :: "sys \<Rightarrow> sys \<Rightarrow> bool" where
  p_reject: "\<lbrakk> ppc \<sigma> = PIdle; length (m :: bytes) < 2 ^ 32; p_max_msg (prod \<sigma>) < of_nat (length m) \<rbrakk>
    \<Longrightarrow> bus_step \<sigma> \<sigma>"
| p_fast: "\<lbrakk> ppc \<sigma> = PIdle; length m < 2 ^ 32; \<not> p_max_msg (prod \<sigma>) < of_nat (length m);
      \<not> p_full (prod \<sigma>) \<rbrakk>
    \<Longrightarrow> bus_step \<sigma> (\<sigma>\<lparr>ppc := PSize m\<rparr>)"
| p_slow: "\<lbrakk> ppc \<sigma> = PIdle; length m < 2 ^ 32; \<not> p_max_msg (prod \<sigma>) < of_nat (length m);
      p_full (prod \<sigma>) \<rbrakk>
    \<Longrightarrow> bus_step \<sigma> (\<sigma>\<lparr>ppc := PLoad m\<rparr>)"
| p_load: "\<lbrakk> ppc \<sigma> = PLoad m;
      unat (v - p_read_cache (prod \<sigma>)) \<le> unat (read_pos (ctrl (seg \<sigma>)) - p_read_cache (prod \<sigma>));
      p' = (prod \<sigma>)\<lparr>p_read_cache := v\<rparr> \<rbrakk>
    \<Longrightarrow> bus_step \<sigma> (\<sigma>\<lparr>prod := p', ppc := if p_full p' then PIdle else PSize m\<rparr>)"
| p_size: "ppc \<sigma> = PSize m
    \<Longrightarrow> bus_step \<sigma> ((set_mem (store32 (mem (seg \<sigma>)) (size_ptr (p_slot (prod \<sigma>))) (of_nat (length m))) \<sigma>)
          \<lparr>ppc := PCopy m 0\<rparr>)"
| p_byte: "\<lbrakk> ppc \<sigma> = PCopy m i; i < length m \<rbrakk>
    \<Longrightarrow> bus_step \<sigma> ((set_mem ((mem (seg \<sigma>))(payload_ptr (p_slot (prod \<sigma>)) + i := m ! i)) \<sigma>)
          \<lparr>ppc := PCopy m (Suc i)\<rparr>)"
| p_publish: "ppc \<sigma> = PCopy m (length m)
    \<Longrightarrow> bus_step \<sigma> (\<sigma>\<lparr>seg := (seg \<sigma>)\<lparr>ctrl := (ctrl (seg \<sigma>))\<lparr>write_pos := p_write_pos (prod \<sigma>) + 1\<rparr>\<rparr>,
          prod := (prod \<sigma>)\<lparr>p_write_pos := p_write_pos (prod \<sigma>) + 1\<rparr>,
          ppc := PIdle, sent := sent \<sigma> @ [m]\<rparr>)"
| c_fast: "\<lbrakk> cpc \<sigma> = CIdle; c_read_pos (cons \<sigma>) \<noteq> c_write_cache (cons \<sigma>) \<rbrakk>
    \<Longrightarrow> bus_step \<sigma> (\<sigma>\<lparr>cpc := CSize\<rparr>)"
| c_slow: "\<lbrakk> cpc \<sigma> = CIdle; c_read_pos (cons \<sigma>) = c_write_cache (cons \<sigma>) \<rbrakk>
    \<Longrightarrow> bus_step \<sigma> (\<sigma>\<lparr>cpc := CLoad\<rparr>)"
| c_load: "\<lbrakk> cpc \<sigma> = CLoad;
      unat (v - c_write_cache (cons \<sigma>)) \<le> unat (write_pos (ctrl (seg \<sigma>)) - c_write_cache (cons \<sigma>));
      c' = (cons \<sigma>)\<lparr>c_write_cache := v\<rparr> \<rbrakk>
    \<Longrightarrow> bus_step \<sigma> (\<sigma>\<lparr>cons := c', cpc := if c_read_pos c' = v then CIdle else CSize\<rparr>)"
| c_size: "cpc \<sigma> = CSize
    \<Longrightarrow> bus_step \<sigma> (\<sigma>\<lparr>cpc := CCopy (load32 (mem (seg \<sigma>)) (size_ptr (c_slot (cons \<sigma>)))) []\<rparr>)"
| c_byte: "\<lbrakk> cpc \<sigma> = CCopy sz acc; length acc < copy_len sz \<sigma> \<rbrakk>
    \<Longrightarrow> bus_step \<sigma> (\<sigma>\<lparr>cpc := CCopy sz (acc @ [mem (seg \<sigma>) (payload_ptr (c_slot (cons \<sigma>)) + length acc)])\<rparr>)"
| c_publish: "\<lbrakk> cpc \<sigma> = CCopy sz acc; length acc = copy_len sz \<sigma> \<rbrakk>
    \<Longrightarrow> bus_step \<sigma> (\<sigma>\<lparr>seg := (seg \<sigma>)\<lparr>ctrl := (ctrl (seg \<sigma>))\<lparr>read_pos := c_read_pos (cons \<sigma>) + 1\<rparr>\<rparr>,
          cons := (cons \<sigma>)\<lparr>c_read_pos := c_read_pos (cons \<sigma>) + 1\<rparr>,
          cpc := CIdle, rcvd := rcvd \<sigma> @ [(sz, acc)]\<rparr>)"

definition start :: "segment \<Rightarrow> u32 \<Rightarrow> u32 \<Rightarrow> u32 \<Rightarrow> sys" where
  "start s pid_p pid_c n =
     (case new_Producer pid_p s of (p, s1) \<Rightarrow> case new_Consumer pid_c s1 of (c, s2) \<Rightarrow>
       \<lparr> seg = s2, prod = p, ppc = PIdle, cons = c, cpc = CIdle, buf_sz = n, sent = [], rcvd = [] \<rparr>)"

inductive reachable :: "sys \<Rightarrow> sys \<Rightarrow> bool" for \<sigma>0 where
  init: "reachable \<sigma>0 \<sigma>0"
| step: "reachable \<sigma>0 \<sigma> \<Longrightarrow> bus_step \<sigma> \<tau> \<Longrightarrow> reachable \<sigma>0 \<tau>"

section \<open>The invariant\<close>

definition cfg_inv :: "sys \<Rightarrow> bool" where
  "cfg_inv \<sigma> \<longleftrightarrow> (let cb = ctrl (seg \<sigma>); p = prod \<sigma>; c = cons \<sigma> in cfg_ok cb \<and>
     p_capacity p = capacity cb \<and> p_stride p = slot_stride cb \<and> p_max_msg p = max_msg_size cb \<and>
     c_capacity c = capacity cb \<and> c_stride c = slot_stride cb)"

definition writing :: "prod_pc \<Rightarrow> bool" where
  "writing pc = (case pc of PSize m \<Rightarrow> True | PCopy m i \<Rightarrow> True | _ \<Rightarrow> False)"

definition reading :: "cons_pc \<Rightarrow> bool" where
  "reading pc = (case pc of CSize \<Rightarrow> True | CCopy sz acc \<Rightarrow> True | _ \<Rightarrow> False)"

text \<open>The positions count the ghost lists, modulo \<open>2 ^ 64\<close>; the caches lag behind.\<close>

definition pos_inv :: "sys \<Rightarrow> nat \<Rightarrow> nat \<Rightarrow> bool" where
  "pos_inv \<sigma> rc wc \<longleftrightarrow> (let cb = ctrl (seg \<sigma>); W = length (sent \<sigma>); R = length (rcvd \<sigma>);
       cap = unat (capacity cb) in
     write_pos cb = of_nat W \<and> p_write_pos (prod \<sigma>) = of_nat W \<and>
     read_pos cb = of_nat R \<and> c_read_pos (cons \<sigma>) = of_nat R \<and>
     p_read_cache (prod \<sigma>) = of_nat rc \<and> c_write_cache (cons \<sigma>) = of_nat wc \<and>
     rc \<le> R \<and> R \<le> wc \<and> wc \<le> W \<and> W \<le> rc + cap \<and>
     (writing (ppc \<sigma>) \<longrightarrow> W < rc + cap) \<and> (reading (cpc \<sigma>) \<longrightarrow> R < wc))"

definition slot_no :: "sys \<Rightarrow> nat \<Rightarrow> nat" where
  "slot_no \<sigma> i = slot_at (ctrl (seg \<sigma>)) (of_nat i)"

definition data_inv :: "sys \<Rightarrow> bool" where
  "data_inv \<sigma> \<longleftrightarrow> (\<forall>m\<in>set (sent \<sigma>). length m \<le> unat (max_msg_size (ctrl (seg \<sigma>)))) \<and>
     (\<forall>i. length (rcvd \<sigma>) \<le> i \<and> i < length (sent \<sigma>) \<longrightarrow>
        slot_msg (mem (seg \<sigma>)) (slot_no \<sigma> i) = sent \<sigma> ! i) \<and>
     rcvd \<sigma> = map (\<lambda>m. (of_nat (length m), take (unat (buf_sz \<sigma>)) m)) (take (length (rcvd \<sigma>)) (sent \<sigma>))"

fun ppc_inv :: "sys \<Rightarrow> prod_pc \<Rightarrow> bool" where
  "ppc_inv \<sigma> PIdle = True"
| "ppc_inv \<sigma> (PLoad m) = (length m \<le> unat (max_msg_size (ctrl (seg \<sigma>))))"
| "ppc_inv \<sigma> (PSize m) = (length m \<le> unat (max_msg_size (ctrl (seg \<sigma>))))"
| "ppc_inv \<sigma> (PCopy m i) = (length m \<le> unat (max_msg_size (ctrl (seg \<sigma>))) \<and> i \<le> length m \<and>
     slot_len (mem (seg \<sigma>)) (slot_no \<sigma> (length (sent \<sigma>))) = length m \<and>
     read_bytes (mem (seg \<sigma>)) (payload_ptr (slot_no \<sigma> (length (sent \<sigma>)))) i = take i m)"

fun cpc_inv :: "sys \<Rightarrow> cons_pc \<Rightarrow> bool" where
  "cpc_inv \<sigma> (CCopy sz acc) = (unat sz = length (sent \<sigma> ! length (rcvd \<sigma>)) \<and>
     length acc \<le> copy_len sz \<sigma> \<and> acc = take (length acc) (sent \<sigma> ! length (rcvd \<sigma>)))"
| "cpc_inv \<sigma> _ = True"

definition conc_inv :: "sys \<Rightarrow> bool" where
  "conc_inv \<sigma> \<longleftrightarrow> cfg_inv \<sigma> \<and> (\<exists>rc wc. pos_inv \<sigma> rc wc) \<and> data_inv \<sigma> \<and>
     ppc_inv \<sigma> (ppc \<sigma>) \<and> cpc_inv \<sigma> (cpc \<sigma>)"

section \<open>Steps keep the invariant\<close>

text \<open>
  What a producer step writes lies in the slot of the next message, which differs from every
  slot the consumer may still read.
\<close>

definition agree_outside :: "memory \<Rightarrow> memory \<Rightarrow> nat \<Rightarrow> nat \<Rightarrow> bool" where
  "agree_outside m m' a n \<longleftrightarrow> (\<forall>x. x < a \<or> a + n \<le> x \<longrightarrow> m' x = m x)"

lemma agree_slot:
  assumes "agree_outside m m' a n" and "a + n \<le> slot \<or> slot + n \<le> a" and "slot_len m slot + 8 \<le> n"
  shows "slot_len m' slot = slot_len m slot" and "slot_msg m' slot = slot_msg m slot"
proof -
  have read: "read_bytes m' b k = read_bytes m b k" if "slot \<le> b" "b + k \<le> slot + n" for b k
    using assms(1,2) that by (intro read_bytes_cong) (auto simp: agree_outside_def)
  show len: "slot_len m' slot = slot_len m slot"
    using read [of "slot + 4" 4] assms(3) by (simp add: slot_len_def load32_def slot_fields)
  show "slot_msg m' slot = slot_msg m slot"
    unfolding slot_msg_def len
    using read [of "slot + 8" "slot_len m slot"] assms(3) by (simp add: slot_fields)
qed

lemma slot_no_disjoint:
  assumes "cfg_ok (ctrl (seg \<sigma>))" and "R \<le> i" and "i < W" and "W < R + unat (capacity (ctrl (seg \<sigma>)))"
  shows "slot_no \<sigma> W + unat (slot_stride (ctrl (seg \<sigma>))) \<le> slot_no \<sigma> i \<or>
    slot_no \<sigma> i + unat (slot_stride (ctrl (seg \<sigma>))) \<le> slot_no \<sigma> W"
proof -
  have "R \<le> W" using assms by simp
  then obtain a b where ab: "i = R + a" "W = R + b" using assms(2) by (metis le_iff_add)
  with assms have "a < unat (capacity (ctrl (seg \<sigma>)))" "b < unat (capacity (ctrl (seg \<sigma>)))" "b \<noteq> a"
    by auto
  with slot_at_disjoint [OF assms(1), of b a "of_nat R"] show ?thesis by (simp add: slot_no_def ab)
qed

lemma queued_len:
  assumes "conc_inv \<sigma>" and "length (rcvd \<sigma>) \<le> i" and "i < length (sent \<sigma>)"
  shows "slot_len (mem (seg \<sigma>)) (slot_no \<sigma> i) + 8 \<le> unat (slot_stride (ctrl (seg \<sigma>)))"
    and "slot_len (mem (seg \<sigma>)) (slot_no \<sigma> i) = length (sent \<sigma> ! i)"
proof -
  have "slot_msg (mem (seg \<sigma>)) (slot_no \<sigma> i) = sent \<sigma> ! i"
    using assms by (simp add: conc_inv_def data_inv_def)
  then show len: "slot_len (mem (seg \<sigma>)) (slot_no \<sigma> i) = length (sent \<sigma> ! i)"
    by (simp flip: length_slot_msg)
  have "length (sent \<sigma> ! i) \<le> unat (max_msg_size (ctrl (seg \<sigma>)))"
    using assms by (simp add: conc_inv_def data_inv_def)
  then show "slot_len (mem (seg \<sigma>)) (slot_no \<sigma> i) + 8 \<le> unat (slot_stride (ctrl (seg \<sigma>)))"
    using assms(1) by (simp add: len conc_inv_def cfg_inv_def cfg_ok_def Let_def)
qed

text \<open>A step that only changes memory, in the slot being written, and moves the producer on.\<close>

lemma set_mem_fields [simp]:
  "ctrl (seg (set_mem m \<sigma>)) = ctrl (seg \<sigma>)" "mem (seg (set_mem m \<sigma>)) = m" "prod (set_mem m \<sigma>) = prod \<sigma>"
  "cons (set_mem m \<sigma>) = cons \<sigma>" "sent (set_mem m \<sigma>) = sent \<sigma>" "rcvd (set_mem m \<sigma>) = rcvd \<sigma>"
  "buf_sz (set_mem m \<sigma>) = buf_sz \<sigma>" "cpc (set_mem m \<sigma>) = cpc \<sigma>" "ppc (set_mem m \<sigma>) = ppc \<sigma>"
  "slot_no (set_mem m \<sigma>) i = slot_no \<sigma> i"
  by (simp_all add: set_mem_def slot_no_def)

lemma slot_no_upd [simp]:
  "slot_no (\<sigma>\<lparr>ppc := a\<rparr>) = slot_no \<sigma>" "slot_no (\<sigma>\<lparr>cpc := b\<rparr>) = slot_no \<sigma>"
  "slot_no (\<sigma>\<lparr>prod := p\<rparr>) = slot_no \<sigma>" "slot_no (\<sigma>\<lparr>cons := c\<rparr>) = slot_no \<sigma>"
  "slot_no (\<sigma>\<lparr>sent := x\<rparr>) = slot_no \<sigma>" "slot_no (\<sigma>\<lparr>rcvd := y\<rparr>) = slot_no \<sigma>"
  by (simp_all add: slot_no_def fun_eq_iff)

lemma write_step_inv:
  assumes inv: "conc_inv \<sigma>" and w: "writing (ppc \<sigma>)"
    and agree: "agree_outside (mem (seg \<sigma>)) m' (slot_no \<sigma> (length (sent \<sigma>))) (unat (slot_stride (ctrl (seg \<sigma>))))"
    and pc: "writing pc" "ppc_inv ((set_mem m' \<sigma>)\<lparr>ppc := pc\<rparr>) pc"
  shows "conc_inv ((set_mem m' \<sigma>)\<lparr>ppc := pc\<rparr>)"
proof -
  let ?\<tau> = "(set_mem m' \<sigma>)\<lparr>ppc := pc\<rparr>"
  from inv obtain rc wc where pos: "pos_inv \<sigma> rc wc" by (auto simp: conc_inv_def)
  have room: "length (sent \<sigma>) < length (rcvd \<sigma>) + unat (capacity (ctrl (seg \<sigma>)))"
    using pos w by (auto simp: pos_inv_def Let_def)
  have cfg: "cfg_ok (ctrl (seg \<sigma>))" using inv by (simp add: conc_inv_def cfg_inv_def Let_def)
  have "slot_msg m' (slot_no \<sigma> i) = slot_msg (mem (seg \<sigma>)) (slot_no \<sigma> i)"
    if "length (rcvd \<sigma>) \<le> i" "i < length (sent \<sigma>)" for i
    using agree slot_no_disjoint [OF cfg that room] queued_len(1) [OF inv that] by (rule agree_slot(2))
  then have "data_inv ?\<tau>" using inv by (auto simp: conc_inv_def data_inv_def)
  moreover have "cpc_inv ?\<tau> (cpc ?\<tau>)"
    using inv by (cases "cpc \<sigma>") (auto simp: conc_inv_def copy_len_def)
  moreover have "pos_inv ?\<tau> rc wc" using pos w pc(1) by (simp add: pos_inv_def Let_def)
  moreover have "cfg_inv ?\<tau>" using inv by (simp add: conc_inv_def cfg_inv_def)
  ultimately show ?thesis using pc(2) by (auto simp: conc_inv_def)
qed

subsection \<open>Producer steps\<close>

lemma p_slot_next:
  assumes "conc_inv \<sigma>"
  shows "p_slot (prod \<sigma>) = slot_no \<sigma> (length (sent \<sigma>))"
  using assms by (auto simp: conc_inv_def cfg_inv_def pos_inv_def Let_def p_slot_def slot_no_def slot_at_def)

lemma stride_room:
  assumes "conc_inv \<sigma>"
  shows "unat (max_msg_size (ctrl (seg \<sigma>))) + 8 \<le> unat (slot_stride (ctrl (seg \<sigma>)))"
  using assms by (simp add: conc_inv_def cfg_inv_def cfg_ok_def Let_def)

lemma p_size_inv:
  assumes inv: "conc_inv \<sigma>" and pc: "ppc \<sigma> = PSize m"
  shows "conc_inv ((set_mem (store32 (mem (seg \<sigma>)) (size_ptr (p_slot (prod \<sigma>))) (of_nat (length m))) \<sigma>)
    \<lparr>ppc := PCopy m 0\<rparr>)"
proof (rule write_step_inv [OF inv])
  let ?s = "slot_no \<sigma> (length (sent \<sigma>))"
  have len: "length m \<le> unat (max_msg_size (ctrl (seg \<sigma>)))" using inv pc by (simp add: conc_inv_def)
  then have sz: "unat (of_nat (length m) :: u32) = length m"
    using unat_lt_32 [of "max_msg_size (ctrl (seg \<sigma>))"] by (simp add: unat_of_nat)
  show "agree_outside (mem (seg \<sigma>)) (store32 (mem (seg \<sigma>)) (size_ptr (p_slot (prod \<sigma>))) (of_nat (length m)))
    ?s (unat (slot_stride (ctrl (seg \<sigma>))))"
    using stride_room [OF inv]
    by (auto simp: agree_outside_def store32_def write_bytes_def slot_fields p_slot_next [OF inv])
  show "ppc_inv ((set_mem (store32 (mem (seg \<sigma>)) (size_ptr (p_slot (prod \<sigma>))) (of_nat (length m))) \<sigma>)
      \<lparr>ppc := PCopy m 0\<rparr>) (PCopy m 0)"
    using len by (simp add: slot_len_def p_slot_next [OF inv] mem_simps sz)
qed (simp_all add: pc writing_def)

lemma p_byte_inv:
  assumes inv: "conc_inv \<sigma>" and pc: "ppc \<sigma> = PCopy m i" and i: "i < length m"
  shows "conc_inv ((set_mem ((mem (seg \<sigma>))(payload_ptr (p_slot (prod \<sigma>)) + i := m ! i)) \<sigma>)
    \<lparr>ppc := PCopy m (Suc i)\<rparr>)"
proof (rule write_step_inv [OF inv])
  let ?s = "slot_no \<sigma> (length (sent \<sigma>))"
  let ?m = "(mem (seg \<sigma>))(payload_ptr ?s + i := m ! i)"
  have I: "length m \<le> unat (max_msg_size (ctrl (seg \<sigma>)))" "slot_len (mem (seg \<sigma>)) ?s = length m"
    "read_bytes (mem (seg \<sigma>)) (payload_ptr ?s) i = take i m"
    using inv pc by (simp_all add: conc_inv_def)
  show "agree_outside (mem (seg \<sigma>)) ((mem (seg \<sigma>))(payload_ptr (p_slot (prod \<sigma>)) + i := m ! i))
    ?s (unat (slot_stride (ctrl (seg \<sigma>))))"
    using stride_room [OF inv] I(1) i by (auto simp: agree_outside_def slot_fields p_slot_next [OF inv])
  have "read_bytes ?m (payload_ptr ?s) (Suc i) = read_bytes (mem (seg \<sigma>)) (payload_ptr ?s) i @ [m ! i]"
    unfolding read_bytes_Suc by (auto intro!: read_bytes_cong)
  moreover have "slot_len ?m ?s = slot_len (mem (seg \<sigma>)) ?s"
    unfolding slot_len_def load32_def by (subst read_bytes_cong) (auto simp: slot_fields)
  ultimately show "ppc_inv ((set_mem ((mem (seg \<sigma>))(payload_ptr (p_slot (prod \<sigma>)) + i := m ! i)) \<sigma>)
      \<lparr>ppc := PCopy m (Suc i)\<rparr>) (PCopy m (Suc i))"
    using I i by (simp add: p_slot_next [OF inv] take_Suc_conv_app_nth)
qed (simp_all add: pc writing_def)

lemma pc_step_inv:
  assumes "conc_inv \<sigma>" and "\<not> writing pc \<or> \<not> p_full (prod \<sigma>)" and "ppc_inv \<sigma> pc"
  shows "conc_inv (\<sigma>\<lparr>ppc := pc\<rparr>)"
proof -
  from assms(1) obtain rc wc where pos: "pos_inv \<sigma> rc wc" by (auto simp: conc_inv_def)
  have cap: "p_capacity (prod \<sigma>) = capacity (ctrl (seg \<sigma>))"
    using assms(1) by (simp add: conc_inv_def cfg_inv_def Let_def)
  have le: "rc \<le> length (sent \<sigma>)" "length (sent \<sigma>) - rc \<le> unat (capacity (ctrl (seg \<sigma>)))"
    using pos by (auto simp: pos_inv_def Let_def)
  then have "unat (p_write_pos (prod \<sigma>) - p_read_cache (prod \<sigma>)) = length (sent \<sigma>) - rc"
    using pos capacity_lt [of "ctrl (seg \<sigma>)"] by (simp add: pos_inv_def Let_def unat_of_nat_diff)
  then have "p_full (prod \<sigma>) \<longleftrightarrow> unat (capacity (ctrl (seg \<sigma>))) \<le> length (sent \<sigma>) - rc"
    by (simp add: p_full_unat cap)
  with pos le assms(2) have "pos_inv (\<sigma>\<lparr>ppc := pc\<rparr>) rc wc" by (auto simp: pos_inv_def Let_def)
  moreover have "ppc_inv (\<sigma>\<lparr>ppc := pc\<rparr>) pc" using assms(3) by (cases pc) auto
  moreover have "cpc_inv (\<sigma>\<lparr>ppc := pc\<rparr>) (cpc \<sigma>)"
    using assms(1) by (cases "cpc \<sigma>") (auto simp: conc_inv_def copy_len_def)
  ultimately show ?thesis
    using assms(1) by (auto simp: conc_inv_def cfg_inv_def data_inv_def)
qed

lemma p_load_inv:
  assumes inv: "conc_inv \<sigma>" and pc: "ppc \<sigma> = PLoad m"
    and v: "unat (v - p_read_cache (prod \<sigma>)) \<le> unat (read_pos (ctrl (seg \<sigma>)) - p_read_cache (prod \<sigma>))"
  defines "p' \<equiv> (prod \<sigma>)\<lparr>p_read_cache := v\<rparr>"
  shows "conc_inv (\<sigma>\<lparr>prod := p', ppc := if p_full p' then PIdle else PSize m\<rparr>)"
proof -
  from inv obtain rc wc where pos: "pos_inv \<sigma> rc wc" by (auto simp: conc_inv_def)
  have "length (rcvd \<sigma>) - rc < 2 ^ 64"
    using pos capacity_lt [of "ctrl (seg \<sigma>)"] by (auto simp: pos_inv_def Let_def)
  then obtain rc' where rc': "rc \<le> rc'" "rc' \<le> length (rcvd \<sigma>)" "v = of_nat rc'"
    using pos v by (auto simp: pos_inv_def Let_def elim: counter_between [of rc "length (rcvd \<sigma>)"])
  have "pos_inv (\<sigma>\<lparr>prod := p'\<rparr>) rc' wc"
    using pos rc' by (auto simp: pos_inv_def Let_def p'_def pc writing_def)
  moreover have "cpc_inv (\<sigma>\<lparr>prod := p'\<rparr>) (cpc \<sigma>)"
    using inv by (cases "cpc \<sigma>") (auto simp: conc_inv_def copy_len_def)
  ultimately have "conc_inv (\<sigma>\<lparr>prod := p'\<rparr>)"
    using inv pc by (auto simp: conc_inv_def cfg_inv_def data_inv_def p'_def Let_def)
  moreover have "length m \<le> unat (max_msg_size (ctrl (seg \<sigma>)))" using inv pc by (simp add: conc_inv_def)
  ultimately show ?thesis
    using pc_step_inv [of "\<sigma>\<lparr>prod := p'\<rparr>" "if p_full p' then PIdle else PSize m"]
    by (auto simp: writing_def)
qed

lemma p_publish_inv:
  assumes inv: "conc_inv \<sigma>" and pc: "ppc \<sigma> = PCopy m (length m)"
  defines "\<tau> \<equiv> \<sigma>\<lparr>seg := (seg \<sigma>)\<lparr>ctrl := (ctrl (seg \<sigma>))\<lparr>write_pos := p_write_pos (prod \<sigma>) + 1\<rparr>\<rparr>,
          prod := (prod \<sigma>)\<lparr>p_write_pos := p_write_pos (prod \<sigma>) + 1\<rparr>,
          ppc := PIdle, sent := sent \<sigma> @ [m]\<rparr>"
  shows "conc_inv \<tau>"
proof -
  from inv obtain rc wc where pos: "pos_inv \<sigma> rc wc" by (auto simp: conc_inv_def)
  have slot: "slot_no \<tau> = slot_no \<sigma>" by (simp add: \<tau>_def slot_no_def slot_at_def fun_eq_iff)
  have new: "slot_msg (mem (seg \<sigma>)) (slot_no \<sigma> (length (sent \<sigma>))) = m"
    and len: "length m \<le> unat (max_msg_size (ctrl (seg \<sigma>)))"
    using inv pc by (simp_all add: conc_inv_def slot_msg_def)
  have le: "length (rcvd \<sigma>) \<le> length (sent \<sigma>)" using pos by (simp add: pos_inv_def Let_def)
  have "pos_inv \<tau> rc wc" using pos pc by (auto simp: pos_inv_def Let_def \<tau>_def writing_def)
  moreover have "data_inv \<tau>"
    using inv new len le unfolding data_inv_def slot
    by (auto simp: \<tau>_def conc_inv_def data_inv_def nth_append less_Suc_eq)
  moreover have "cpc_inv \<tau> (cpc \<tau>)"
  proof (cases "cpc \<sigma>")
    case (CCopy sz acc)
    then have "length (rcvd \<sigma>) < length (sent \<sigma>)"
      using pos by (auto simp: pos_inv_def Let_def reading_def)
    moreover have "copy_len sz \<tau> = copy_len sz \<sigma>" by (simp add: \<tau>_def copy_len_def)
    ultimately show ?thesis using inv CCopy by (simp add: \<tau>_def conc_inv_def nth_append)
  qed (auto simp: \<tau>_def)
  moreover have "cfg_inv \<tau>" using inv by (simp add: \<tau>_def conc_inv_def cfg_inv_def cfg_ok_def Let_def)
  moreover have "ppc_inv \<tau> (ppc \<tau>)" by (simp add: \<tau>_def)
  ultimately show ?thesis by (auto simp: conc_inv_def)
qed

subsection \<open>Consumer steps\<close>

lemma c_slot_next:
  assumes "conc_inv \<sigma>"
  shows "c_slot (cons \<sigma>) = slot_no \<sigma> (length (rcvd \<sigma>))"
  using assms by (auto simp: conc_inv_def cfg_inv_def pos_inv_def Let_def c_slot_def slot_no_def slot_at_def)

lemma cpc_step_inv:
  assumes "conc_inv \<sigma>" and "reading pc \<longrightarrow> c_read_pos (cons \<sigma>) \<noteq> c_write_cache (cons \<sigma>) \<or> reading (cpc \<sigma>)"
    and "cpc_inv \<sigma> pc"
  shows "conc_inv (\<sigma>\<lparr>cpc := pc\<rparr>)"
proof -
  from assms(1) obtain rc wc where pos: "pos_inv \<sigma> rc wc" by (auto simp: conc_inv_def)
  have "pos_inv (\<sigma>\<lparr>cpc := pc\<rparr>) rc wc"
    using pos assms(2) by (auto simp: pos_inv_def Let_def le_less)
  moreover have "ppc_inv (\<sigma>\<lparr>cpc := pc\<rparr>) (ppc \<sigma>)"
    using assms(1) by (cases "ppc \<sigma>") (auto simp: conc_inv_def)
  moreover have "cpc_inv (\<sigma>\<lparr>cpc := pc\<rparr>) pc"
    using assms(3) by (cases pc) (auto simp: copy_len_def)
  ultimately show ?thesis
    using assms(1) by (auto simp: conc_inv_def cfg_inv_def data_inv_def)
qed

lemma c_load_inv:
  assumes inv: "conc_inv \<sigma>" and pc: "cpc \<sigma> = CLoad"
    and v: "unat (v - c_write_cache (cons \<sigma>)) \<le> unat (write_pos (ctrl (seg \<sigma>)) - c_write_cache (cons \<sigma>))"
  defines "c' \<equiv> (cons \<sigma>)\<lparr>c_write_cache := v\<rparr>"
  shows "conc_inv (\<sigma>\<lparr>cons := c', cpc := if c_read_pos c' = v then CIdle else CSize\<rparr>)"
proof -
  from inv obtain rc wc where pos: "pos_inv \<sigma> rc wc" by (auto simp: conc_inv_def)
  have "length (sent \<sigma>) - wc < 2 ^ 64"
    using pos capacity_lt [of "ctrl (seg \<sigma>)"] by (auto simp: pos_inv_def Let_def)
  then obtain wc' where wc': "wc \<le> wc'" "wc' \<le> length (sent \<sigma>)" "v = of_nat wc'"
    using pos v by (auto simp: pos_inv_def Let_def elim: counter_between [of wc "length (sent \<sigma>)"])
  have "pos_inv (\<sigma>\<lparr>cons := c'\<rparr>) rc wc'"
    using pos wc' by (auto simp: pos_inv_def Let_def c'_def pc reading_def)
  moreover have "ppc_inv (\<sigma>\<lparr>cons := c'\<rparr>) (ppc \<sigma>)"
    using inv by (cases "ppc \<sigma>") (auto simp: conc_inv_def)
  ultimately have "conc_inv (\<sigma>\<lparr>cons := c'\<rparr>)"
    using inv pc by (auto simp: conc_inv_def cfg_inv_def data_inv_def c'_def Let_def)
  then show ?thesis
    using cpc_step_inv [of "\<sigma>\<lparr>cons := c'\<rparr>" "if c_read_pos c' = v then CIdle else CSize"]
    by (auto simp: reading_def c'_def)
qed

lemma head_message:
  assumes inv: "conc_inv \<sigma>" and "reading (cpc \<sigma>)"
  shows "length (rcvd \<sigma>) < length (sent \<sigma>)"
    and "slot_msg (mem (seg \<sigma>)) (c_slot (cons \<sigma>)) = sent \<sigma> ! length (rcvd \<sigma>)"
proof -
  from inv obtain rc wc where pos: "pos_inv \<sigma> rc wc" by (auto simp: conc_inv_def)
  then show lt: "length (rcvd \<sigma>) < length (sent \<sigma>)" using assms(2) by (auto simp: pos_inv_def Let_def)
  then show "slot_msg (mem (seg \<sigma>)) (c_slot (cons \<sigma>)) = sent \<sigma> ! length (rcvd \<sigma>)"
    using inv by (simp add: c_slot_next conc_inv_def data_inv_def)
qed

lemma c_size_inv:
  assumes inv: "conc_inv \<sigma>" and pc: "cpc \<sigma> = CSize"
  shows "conc_inv (\<sigma>\<lparr>cpc := CCopy (load32 (mem (seg \<sigma>)) (size_ptr (c_slot (cons \<sigma>)))) []\<rparr>)"
proof (rule cpc_step_inv [OF inv])
  have "slot_msg (mem (seg \<sigma>)) (c_slot (cons \<sigma>)) = sent \<sigma> ! length (rcvd \<sigma>)"
    using head_message(2) [OF inv] pc by (simp add: reading_def)
  then have "slot_len (mem (seg \<sigma>)) (c_slot (cons \<sigma>)) = length (sent \<sigma> ! length (rcvd \<sigma>))"
    by (simp flip: length_slot_msg)
  then show "cpc_inv \<sigma> (CCopy (load32 (mem (seg \<sigma>)) (size_ptr (c_slot (cons \<sigma>)))) [])"
    by (simp add: slot_len_def)
qed (simp add: pc reading_def)

lemma copy_len_le: "copy_len sz \<sigma> \<le> unat sz" "copy_len sz \<sigma> \<le> unat (buf_sz \<sigma>)"
  "copy_len sz \<sigma> = min (unat sz) (unat (buf_sz \<sigma>))"
  by (auto simp: copy_len_def word_less_nat_alt min_def)

lemma c_byte_inv:
  assumes inv: "conc_inv \<sigma>" and pc: "cpc \<sigma> = CCopy sz acc" and lt: "length acc < copy_len sz \<sigma>"
  shows "conc_inv (\<sigma>\<lparr>cpc := CCopy sz (acc @ [mem (seg \<sigma>) (payload_ptr (c_slot (cons \<sigma>)) + length acc)])\<rparr>)"
proof (rule cpc_step_inv [OF inv])
  let ?msg = "sent \<sigma> ! length (rcvd \<sigma>)" and ?slot = "c_slot (cons \<sigma>)"
  have I: "unat sz = length ?msg" "acc = take (length acc) ?msg" using inv pc by (simp_all add: conc_inv_def)
  have msg: "slot_msg (mem (seg \<sigma>)) ?slot = ?msg"
    using head_message(2) [OF inv] pc by (simp add: reading_def)
  have "length acc < length ?msg" using lt copy_len_le(1) [of sz \<sigma>] I(1) by simp
  moreover have "slot_len (mem (seg \<sigma>)) ?slot = length ?msg" using msg length_slot_msg by metis
  ultimately have "slot_msg (mem (seg \<sigma>)) ?slot ! length acc = mem (seg \<sigma>) (payload_ptr ?slot + length acc)"
    by (simp add: slot_msg_def read_bytes_def)
  with \<open>length acc < length ?msg\<close> have "?msg ! length acc = mem (seg \<sigma>) (payload_ptr ?slot + length acc)"
    by (simp only: msg)
  then have "acc @ [mem (seg \<sigma>) (payload_ptr ?slot + length acc)] = take (Suc (length acc)) ?msg"
    using I(2) \<open>length acc < length ?msg\<close> by (simp add: take_Suc_conv_app_nth)
  then show "cpc_inv \<sigma> (CCopy sz (acc @ [mem (seg \<sigma>) (payload_ptr ?slot + length acc)]))"
    using I lt \<open>length acc < length ?msg\<close> by (simp add: min_def)
qed (simp add: pc reading_def)

lemma c_publish_inv:
  assumes inv: "conc_inv \<sigma>" and pc: "cpc \<sigma> = CCopy sz acc" and len: "length acc = copy_len sz \<sigma>"
  defines "\<tau> \<equiv> \<sigma>\<lparr>seg := (seg \<sigma>)\<lparr>ctrl := (ctrl (seg \<sigma>))\<lparr>read_pos := c_read_pos (cons \<sigma>) + 1\<rparr>\<rparr>,
          cons := (cons \<sigma>)\<lparr>c_read_pos := c_read_pos (cons \<sigma>) + 1\<rparr>,
          cpc := CIdle, rcvd := rcvd \<sigma> @ [(sz, acc)]\<rparr>"
  shows "conc_inv \<tau>"
proof -
  from inv obtain rc wc where pos: "pos_inv \<sigma> rc wc" by (auto simp: conc_inv_def)
  let ?msg = "sent \<sigma> ! length (rcvd \<sigma>)"
  have lt: "length (rcvd \<sigma>) < length (sent \<sigma>)"
    using head_message(1) [OF inv] pc by (simp add: reading_def)
  have I: "unat sz = length ?msg" "acc = take (length acc) ?msg" using inv pc by (simp_all add: conc_inv_def)
  have got: "(sz, acc) = (of_nat (length ?msg), take (unat (buf_sz \<sigma>)) ?msg)"
  proof -
    have "sz = of_nat (length ?msg)" using I(1) by (metis of_nat_unat ucast_id)
    moreover have "acc = take (min (length ?msg) (unat (buf_sz \<sigma>))) ?msg"
      using I len by (simp add: copy_len_le(3))
    ultimately show ?thesis by (auto simp: min_def)
  qed
  have slot: "slot_no \<tau> = slot_no \<sigma>" by (simp add: \<tau>_def slot_no_def slot_at_def fun_eq_iff)
  have "pos_inv \<tau> rc wc" using pos pc by (auto simp: pos_inv_def Let_def \<tau>_def reading_def)
  moreover have "data_inv \<tau>"
    using inv lt unfolding data_inv_def slot
    by (auto simp: \<tau>_def conc_inv_def data_inv_def got take_Suc_conv_app_nth)
  moreover have "ppc_inv \<tau> (ppc \<tau>)"
    using inv slot by (cases "ppc \<sigma>") (auto simp: \<tau>_def conc_inv_def)
  moreover have "cfg_inv \<tau>" using inv by (simp add: \<tau>_def conc_inv_def cfg_inv_def cfg_ok_def Let_def)
  moreover have "cpc_inv \<tau> (cpc \<tau>)" by (simp add: \<tau>_def)
  ultimately show ?thesis by (auto simp: conc_inv_def)
qed

subsection \<open>All steps, all reachable states\<close>

lemma accepted_len:
  assumes "conc_inv \<sigma>" and "length (m :: bytes) < 2 ^ 32" and "\<not> p_max_msg (prod \<sigma>) < of_nat (length m)"
  shows "length m \<le> unat (max_msg_size (ctrl (seg \<sigma>)))"
  using assms by (simp add: conc_inv_def cfg_inv_def Let_def not_less word_le_nat_alt unat_of_nat)

lemma bus_step_inv:
  assumes "bus_step \<sigma> \<tau>" and "conc_inv \<sigma>"
  shows "conc_inv \<tau>"
  using assms
proof (cases rule: bus_step.cases)
  case (p_fast m)
  with assms(2) accepted_len [of \<sigma> m] pc_step_inv [of \<sigma> "PSize m"] show ?thesis by simp
next
  case (p_slow m)
  with assms(2) accepted_len [of \<sigma> m] pc_step_inv [of \<sigma> "PLoad m"] show ?thesis by (simp add: writing_def)
next
  case c_fast
  with assms(2) show ?thesis by (auto intro!: cpc_step_inv)
next
  case c_slow
  with assms(2) show ?thesis by (auto intro!: cpc_step_inv simp: reading_def)
next
  case (p_load m v p')
  with p_load_inv [OF assms(2)] show ?thesis by simp
next
  case (c_load v c')
  with c_load_inv [OF assms(2)] show ?thesis by simp
qed (use assms(2) in \<open>auto intro: p_size_inv p_byte_inv p_publish_inv c_size_inv c_byte_inv
   c_publish_inv\<close>)

lemma start_inv:
  assumes "fst (create cap max_msg opts env) = Inr s" and "unat max_msg \<le> 2 ^ 32 - 72"
  shows "conc_inv (start s pid_p pid_c n)"
proof -
  have s: "s = init_segment cap max_msg (make_session_id env) (compute_shm_size cap max_msg)"
    using assms(1) by (auto simp: create_def Let_def split: if_splits)
  let ?\<sigma> = "start s pid_p pid_c n"
  have cfg: "cfg_ok (ctrl s)" using assms by (rule create_cfg_ok)
  have "cfg_inv ?\<sigma>"
    using cfg by (simp add: start_def new_Producer_def new_Consumer_def cfg_inv_def cfg_ok_def Let_def)
  moreover have "pos_inv ?\<sigma> 0 0"
    by (simp add: s init_segment_def start_def new_Producer_def new_Consumer_def pos_inv_def Let_def
        writing_def reading_def)
  moreover have "data_inv ?\<sigma>" "ppc_inv ?\<sigma> (ppc ?\<sigma>)" "cpc_inv ?\<sigma> (cpc ?\<sigma>)"
    by (simp_all add: start_def new_Producer_def new_Consumer_def data_inv_def)
  ultimately show ?thesis by (auto simp: conc_inv_def)
qed

lemma reachable_inv: "reachable \<sigma>0 \<sigma> \<Longrightarrow> conc_inv \<sigma>0 \<Longrightarrow> conc_inv \<sigma>"
  by (induction rule: reachable.induct) (auto intro: bus_step_inv)

lemma step_frame:
  assumes "bus_step \<sigma> \<tau>"
  shows "buf_sz \<tau> = buf_sz \<sigma> \<and> capacity (ctrl (seg \<tau>)) = capacity (ctrl (seg \<sigma>)) \<and>
    slot_stride (ctrl (seg \<tau>)) = slot_stride (ctrl (seg \<sigma>))"
  using assms by (cases rule: bus_step.cases) auto

lemma reachable_frame:
  "reachable \<sigma>0 \<sigma> \<Longrightarrow> buf_sz \<sigma> = buf_sz \<sigma>0 \<and> capacity (ctrl (seg \<sigma>)) = capacity (ctrl (seg \<sigma>0)) \<and>
    slot_stride (ctrl (seg \<sigma>)) = slot_stride (ctrl (seg \<sigma>0))"
  by (induction rule: reachable.induct) (auto dest: step_frame)

lemma conc_inv_result:
  assumes "conc_inv \<sigma>"
  shows "rcvd \<sigma> = map (\<lambda>m. (of_nat (length m), take (unat (buf_sz \<sigma>)) m)) (take (length (rcvd \<sigma>)) (sent \<sigma>))"
    and "length (rcvd \<sigma>) \<le> length (sent \<sigma>)"
    and "length (sent \<sigma>) \<le> length (rcvd \<sigma>) + unat (capacity (ctrl (seg \<sigma>)))"
  using assms by (auto simp: conc_inv_def data_inv_def pos_inv_def Let_def)

lemma conc_inv_race_free:
  assumes inv: "conc_inv \<sigma>" and "writing (ppc \<sigma>)" and "reading (cpc \<sigma>)"
  shows "p_slot (prod \<sigma>) + unat (slot_stride (ctrl (seg \<sigma>))) \<le> c_slot (cons \<sigma>) \<or>
    c_slot (cons \<sigma>) + unat (slot_stride (ctrl (seg \<sigma>))) \<le> p_slot (prod \<sigma>)"
proof -
  from inv obtain rc wc where pos: "pos_inv \<sigma> rc wc" by (auto simp: conc_inv_def)
  have "length (sent \<sigma>) < length (rcvd \<sigma>) + unat (capacity (ctrl (seg \<sigma>)))"
    using pos assms(2) by (auto simp: pos_inv_def Let_def)
  moreover have "cfg_ok (ctrl (seg \<sigma>))" using inv by (simp add: conc_inv_def cfg_inv_def Let_def)
  ultimately show ?thesis
    using slot_no_disjoint [of \<sigma> "length (rcvd \<sigma>)" "length (rcvd \<sigma>)" "length (sent \<sigma>)"]
      head_message(1) [OF inv assms(3)]
    by (simp add: p_slot_next [OF inv] c_slot_next [OF inv])
qed

section \<open>A call that is not interrupted\<close>

text \<open>
  Run without interference, and with loads that return the current value, the steps of one
  call compose to \<open>try_push\<close> and \<open>try_pop\<close>: the step relation refines the two functions.
\<close>

lemma copy_steps:
  assumes "ppc \<sigma> = PCopy m i" and "i \<le> length m"
  shows "bus_step\<^sup>*\<^sup>* \<sigma> ((set_mem (write_bytes (mem (seg \<sigma>)) (payload_ptr (p_slot (prod \<sigma>)) + i) (drop i m)) \<sigma>)
    \<lparr>ppc := PCopy m (length m)\<rparr>)"
  using assms
proof (induction "length m - i" arbitrary: i \<sigma>)
  case 0
  then have "write_bytes (mem (seg \<sigma>)) (payload_ptr (p_slot (prod \<sigma>)) + i) (drop i m) = mem (seg \<sigma>)"
    by simp
  moreover have "\<sigma>\<lparr>seg := (seg \<sigma>)\<lparr>mem := mem (seg \<sigma>)\<rparr>, ppc := PCopy m (length m)\<rparr> = \<sigma>"
    using 0 by (cases \<sigma>) simp
  ultimately show ?case by (simp add: set_mem_def)
next
  case (Suc k)
  let ?a = "payload_ptr (p_slot (prod \<sigma>))"
  let ?\<tau> = "(set_mem ((mem (seg \<sigma>))(?a + i := m ! i)) \<sigma>)\<lparr>ppc := PCopy m (Suc i)\<rparr>"
  have i: "i < length m" using Suc.hyps(2) by simp
  have "write_bytes ((mem (seg \<sigma>))(?a + i := m ! i)) (?a + Suc i) (drop (Suc i) m)
      = write_bytes (mem (seg \<sigma>)) (?a + i) (drop i m)"
    using i by (auto simp: write_bytes_def fun_eq_iff nth_Cons' simp flip: Cons_nth_drop_Suc)
  moreover have "bus_step \<sigma> ?\<tau>" using Suc.prems(1) i by (rule bus_step.p_byte)
  moreover have "bus_step\<^sup>*\<^sup>* ?\<tau> ((set_mem (write_bytes (mem (seg ?\<tau>)) (payload_ptr (p_slot (prod ?\<tau>)) + Suc i)
      (drop (Suc i) m)) ?\<tau>)\<lparr>ppc := PCopy m (length m)\<rparr>)"
    using Suc.hyps i by (intro Suc.hyps(1)) auto
  ultimately show ?case
    by (simp add: set_mem_def converse_rtranclp_into_rtranclp)
qed

lemma push_slot_steps:
  assumes "ppc \<sigma> = PSize m" and "length m < 2 ^ 32"
    and "push_slot m (of_nat (length m)) (prod \<sigma>) (seg \<sigma>) = (r, p', s')"
  shows "bus_step\<^sup>*\<^sup>* \<sigma> (\<sigma>\<lparr>seg := s', prod := p', ppc := PIdle, sent := sent \<sigma> @ [m]\<rparr>)"
proof -
  let ?m1 = "store32 (mem (seg \<sigma>)) (size_ptr (p_slot (prod \<sigma>))) (of_nat (length m))"
  let ?\<sigma>1 = "(set_mem ?m1 \<sigma>)\<lparr>ppc := PCopy m 0\<rparr>"
  let ?m2 = "write_bytes ?m1 (payload_ptr (p_slot (prod \<sigma>))) m"
  let ?\<sigma>2 = "(set_mem ?m2 \<sigma>)\<lparr>ppc := PCopy m (length m)\<rparr>"
  have "bus_step \<sigma> ?\<sigma>1" by (rule bus_step.p_size [OF assms(1)])
  also have "bus_step\<^sup>*\<^sup>* ?\<sigma>1 ?\<sigma>2" using copy_steps [of ?\<sigma>1 m 0] by (simp add: set_mem_def)
  also have "bus_step ?\<sigma>2 (\<sigma>\<lparr>seg := s', prod := p', ppc := PIdle, sent := sent \<sigma> @ [m]\<rparr>)"
    using bus_step.p_publish [of ?\<sigma>2 m] assms(2,3)
    by (auto simp: set_mem_def push_slot_def fill_slot_def unat_of_nat)
  finally show ?thesis .
qed

lemma push_steps:
  assumes "ppc \<sigma> = PIdle" and "length m < 2 ^ 32"
    and "try_push m (of_nat (length m)) (prod \<sigma>) (seg \<sigma>) = (r, p', s')"
  shows "bus_step\<^sup>*\<^sup>* \<sigma> (\<sigma>\<lparr>seg := s', prod := p', ppc := PIdle,
    sent := if r then sent \<sigma> @ [m] else sent \<sigma>\<rparr>)"
proof -
  let ?p = "(prod \<sigma>)\<lparr>p_read_cache := read_pos (ctrl (seg \<sigma>))\<rparr>"
  let ?size = "\<sigma>\<lparr>ppc := PSize m\<rparr>" and ?load = "\<sigma>\<lparr>ppc := PLoad m\<rparr>"
  let ?loaded = "\<sigma>\<lparr>prod := ?p, ppc := if p_full ?p then PIdle else PSize m\<rparr>"
  have load: "bus_step ?load ?loaded"
    using bus_step.p_load [of ?load m "read_pos (ctrl (seg \<sigma>))" ?p] by simp
  consider (big) "p_max_msg (prod \<sigma>) < of_nat (length m)"
    | (fast) "\<not> p_max_msg (prod \<sigma>) < of_nat (length m)" "\<not> p_full (prod \<sigma>)"
    | (slow) "\<not> p_max_msg (prod \<sigma>) < of_nat (length m)" "p_full (prod \<sigma>)" by blast
  then show ?thesis
  proof cases
    case big
    then show ?thesis using assms(1,3) by (cases \<sigma>) (simp add: try_push_def)
  next
    case fast
    have step: "bus_step \<sigma> ?size" using assms(1,2) fast by (rule bus_step.p_fast)
    have ps: "push_slot m (of_nat (length m)) (prod ?size) (seg ?size) = (r, p', s')"
      using assms(3) fast by (simp add: try_push_def)
    from converse_rtranclp_into_rtranclp [OF step push_slot_steps [OF _ assms(2) ps]]
      push_slot_ctrl(1) [OF ps]
    show ?thesis by simp
  next
    case slow
    have step: "bus_step \<sigma> ?load" using assms(1,2) slow by (rule bus_step.p_slow)
    show ?thesis
    proof (cases "p_full ?p")
      case True
      with assms(3) slow have "r = False" "p' = ?p" "s' = seg \<sigma>" by (auto simp: try_push_def)
      with True step load show ?thesis by (cases \<sigma>) (simp add: converse_rtranclp_into_rtranclp)
    next
      case False
      then have ps: "push_slot m (of_nat (length m)) (prod ?loaded) (seg ?loaded) = (r, p', s')"
        using assms(3) slow by (simp add: try_push_def)
      from False converse_rtranclp_into_rtranclp [OF load push_slot_steps [OF _ assms(2) ps]]
        push_slot_ctrl(1) [OF ps]
      have "bus_step\<^sup>*\<^sup>* ?load (\<sigma>\<lparr>seg := s', prod := p', ppc := PIdle,
        sent := if r then sent \<sigma> @ [m] else sent \<sigma>\<rparr>)" by simp
      with step show ?thesis by (rule converse_rtranclp_into_rtranclp)
    qed
  qed
qed

lemma copy_len_upd [simp]:
  "copy_len sz (\<sigma>\<lparr>cpc := pc\<rparr>) = copy_len sz \<sigma>" "copy_len sz (\<sigma>\<lparr>cons := c\<rparr>) = copy_len sz \<sigma>"
  by (simp_all add: copy_len_def)

lemma read_steps:
  assumes "cpc \<sigma> = CCopy sz acc" and "length acc \<le> copy_len sz \<sigma>"
  shows "bus_step\<^sup>*\<^sup>* \<sigma> (\<sigma>\<lparr>cpc := CCopy sz (acc @ read_bytes (mem (seg \<sigma>))
    (payload_ptr (c_slot (cons \<sigma>)) + length acc) (copy_len sz \<sigma> - length acc))\<rparr>)"
  using assms
proof (induction "copy_len sz \<sigma> - length acc" arbitrary: acc \<sigma>)
  case 0
  have same: "\<sigma>\<lparr>cpc := CCopy sz acc\<rparr> = \<sigma>" using 0 by (cases \<sigma>) simp
  have "copy_len sz \<sigma> - length acc = 0" using 0 by simp
  then show ?case by (simp only: read_bytes_0 append_Nil2 same rtranclp.rtrancl_refl)
next
  case (Suc k)
  let ?a = "payload_ptr (c_slot (cons \<sigma>)) + length acc" and ?m = "mem (seg \<sigma>)"
  let ?\<tau> = "\<sigma>\<lparr>cpc := CCopy sz (acc @ [?m ?a])\<rparr>"
  have "bus_step \<sigma> ?\<tau>" using Suc.prems(1) Suc.hyps(2) by (intro bus_step.c_byte) auto
  moreover have "bus_step\<^sup>*\<^sup>* ?\<tau> (?\<tau>\<lparr>cpc := CCopy sz ((acc @ [?m ?a]) @ read_bytes (mem (seg ?\<tau>))
    (payload_ptr (c_slot (cons ?\<tau>)) + length (acc @ [?m ?a])) (copy_len sz ?\<tau> - length (acc @ [?m ?a])))\<rparr>)"
    using Suc.hyps(2) by (intro Suc.hyps(1)) auto
  moreover have "?m ?a # read_bytes ?m (Suc ?a) (copy_len sz \<sigma> - Suc (length acc))
      = read_bytes ?m ?a (copy_len sz \<sigma> - length acc)"
  proof -
    have "copy_len sz \<sigma> - length acc = Suc k" "copy_len sz \<sigma> - Suc (length acc) = k"
      using Suc.hyps(2) by simp_all
    then show ?thesis by (simp only: read_bytes_Cons)
  qed
  ultimately show ?case by (simp add: converse_rtranclp_into_rtranclp)
qed

lemma pop_slot_steps:
  assumes "cpc \<sigma> = CSize"
    and "pop_slot buf (buf_sz \<sigma>) (cons \<sigma>) (seg \<sigma>) = (n, out, c', s')"
  shows "bus_step\<^sup>*\<^sup>* \<sigma> (\<sigma>\<lparr>seg := s', cons := c', cpc := CIdle,
    rcvd := rcvd \<sigma> @ [(n, take (copy_len n \<sigma>) out)]\<rparr>)"
proof -
  let ?bytes = "read_bytes (mem (seg \<sigma>)) (payload_ptr (c_slot (cons \<sigma>))) (copy_len n \<sigma>)"
  let ?\<sigma>1 = "\<sigma>\<lparr>cpc := CCopy n []\<rparr>" and ?\<sigma>2 = "\<sigma>\<lparr>cpc := CCopy n ?bytes\<rparr>"
  have n: "n = load32 (mem (seg \<sigma>)) (size_ptr (c_slot (cons \<sigma>)))"
    and out: "take (copy_len n \<sigma>) out = ?bytes"
    using assms(2) by (auto simp: pop_slot_def Let_def copy_out_def copy_len_def)
  have "bus_step \<sigma> ?\<sigma>1" using bus_step.c_size [OF assms(1)] n by simp
  also have "bus_step\<^sup>*\<^sup>* ?\<sigma>1 ?\<sigma>2" using read_steps [of ?\<sigma>1 n "[]"] by simp
  also have "bus_step ?\<sigma>2 (\<sigma>\<lparr>seg := s', cons := c', cpc := CIdle,
      rcvd := rcvd \<sigma> @ [(n, take (copy_len n \<sigma>) out)]\<rparr>)"
    using bus_step.c_publish [of ?\<sigma>2 n ?bytes] assms(2)
    by (auto simp: out pop_slot_def Let_def)
  finally show ?thesis .
qed

lemma pop_steps:
  assumes "cpc \<sigma> = CIdle" and "try_pop buf (buf_sz \<sigma>) (cons \<sigma>) (seg \<sigma>) = (n, out, c', s')"
  shows "bus_step\<^sup>*\<^sup>* \<sigma> (\<sigma>\<lparr>seg := s', cons := c', cpc := CIdle,
    rcvd := if c_read_pos c' = c_read_pos (cons \<sigma>) then rcvd \<sigma>
            else rcvd \<sigma> @ [(n, take (copy_len n \<sigma>) out)]\<rparr>)"
proof -
  let ?c = "(cons \<sigma>)\<lparr>c_write_cache := write_pos (ctrl (seg \<sigma>))\<rparr>"
  let ?size = "\<sigma>\<lparr>cpc := CSize\<rparr>" and ?load = "\<sigma>\<lparr>cpc := CLoad\<rparr>"
  let ?loaded = "\<sigma>\<lparr>cons := ?c, cpc := if c_read_pos ?c = write_pos (ctrl (seg \<sigma>)) then CIdle else CSize\<rparr>"
  have load: "bus_step ?load ?loaded"
    using bus_step.c_load [of ?load "write_pos (ctrl (seg \<sigma>))" ?c] by simp
  have moved: "c_read_pos c' \<noteq> c_read_pos (cons \<sigma>)"
    if "pop_slot buf (buf_sz \<sigma>) c (seg \<sigma>) = (n, out, c', s')" "c_read_pos c = c_read_pos (cons \<sigma>)" for c
    using that by (auto simp: pop_slot_def Let_def)
  show ?thesis
  proof (cases "c_read_pos (cons \<sigma>) = c_write_cache (cons \<sigma>)")
    case False
    have step: "bus_step \<sigma> ?size" using assms(1) False by (rule bus_step.c_fast)
    have ps: "pop_slot buf (buf_sz ?size) (cons ?size) (seg ?size) = (n, out, c', s')"
      using assms(2) False by (simp add: try_pop_def)
    from converse_rtranclp_into_rtranclp [OF step pop_slot_steps [OF _ ps]] moved ps
    show ?thesis by simp
  next
    case True
    have step: "bus_step \<sigma> ?load" using assms(1) True by (rule bus_step.c_slow)
    show ?thesis
    proof (cases "c_read_pos ?c = write_pos (ctrl (seg \<sigma>))")
      case empty: True
      then have "c' = ?c" "s' = seg \<sigma>" using assms(2) True by (auto simp: try_pop_def)
      with empty step load show ?thesis by (cases \<sigma>) (simp add: converse_rtranclp_into_rtranclp)
    next
      case False
      then have ps: "pop_slot buf (buf_sz ?loaded) (cons ?loaded) (seg ?loaded) = (n, out, c', s')"
        using assms(2) True by (simp add: try_pop_def)
      from False moved ps converse_rtranclp_into_rtranclp [OF load pop_slot_steps [OF _ ps]]
      have "bus_step\<^sup>*\<^sup>* ?load (\<sigma>\<lparr>seg := s', cons := c', cpc := CIdle,
        rcvd := if c_read_pos c' = c_read_pos (cons \<sigma>) then rcvd \<sigma>
                else rcvd \<sigma> @ [(n, take (copy_len n \<sigma>) out)]\<rparr>)" by simp
      with step show ?thesis by (rule converse_rtranclp_into_rtranclp)
    qed
  qed
qed


section \<open>Properties\<close>

lemma reachable_rtranclp: "bus_step\<^sup>*\<^sup>* \<sigma> \<tau> \<Longrightarrow> reachable \<sigma>0 \<sigma> \<Longrightarrow> reachable \<sigma>0 \<tau>"
  by (induction rule: rtranclp_induct) (auto intro: reachable.step)

text \<open>
  The states the instances below use: a started system, after one call of \<open>try_push\<close>, and
  after the consumer has then taken its position and the producer has begun a second call.
\<close>

definition pushed :: "bytes \<Rightarrow> sys \<Rightarrow> sys" where
  "pushed m \<sigma> = (case try_push m (of_nat (length m)) (prod \<sigma>) (seg \<sigma>) of (r, p', s') \<Rightarrow>
     \<sigma>\<lparr>seg := s', prod := p', ppc := PIdle, sent := if r then sent \<sigma> @ [m] else sent \<sigma>\<rparr>)"

definition popped :: "sys \<Rightarrow> sys" where
  "popped \<sigma> = (case try_pop [] (buf_sz \<sigma>) (cons \<sigma>) (seg \<sigma>) of (n, out, c', s') \<Rightarrow>
     \<sigma>\<lparr>seg := s', cons := c', cpc := CIdle,
       rcvd := if c_read_pos c' = c_read_pos (cons \<sigma>) then rcvd \<sigma>
               else rcvd \<sigma> @ [(n, take (copy_len n \<sigma>) out)]\<rparr>)"

definition sample_start :: sys where "sample_start = start sample_segment 1 2 8"
definition sample_sent :: sys where "sample_sent = pushed [7, 8] sample_start"
definition sample_both :: sys where
  "sample_both = sample_sent\<lparr>ppc := PSize [9], cons := (cons sample_sent)\<lparr>c_write_cache := 1\<rparr>, cpc := CSize\<rparr>"

lemma pushed_steps: "ppc \<sigma> = PIdle \<Longrightarrow> length m < 2 ^ 32 \<Longrightarrow> bus_step\<^sup>*\<^sup>* \<sigma> (pushed m \<sigma>)"
  unfolding pushed_def
  by (cases "try_push m (of_nat (length m)) (prod \<sigma>) (seg \<sigma>)" rule: prod_cases3)
    (simp only: prod.case push_steps)

lemma popped_steps: "cpc \<sigma> = CIdle \<Longrightarrow> bus_step\<^sup>*\<^sup>* \<sigma> (popped \<sigma>)"
  unfolding popped_def
  by (cases "try_pop [] (buf_sz \<sigma>) (cons \<sigma>) (seg \<sigma>)" rule: prod_cases4)
    (simp only: prod.case pop_steps)

lemma sample_sent_reachable: "reachable sample_start sample_sent"
proof -
  have "ppc sample_start = PIdle" by code_simp
  then have "bus_step\<^sup>*\<^sup>* sample_start (pushed [7, 8] sample_start)" by (rule pushed_steps) simp
  then show ?thesis unfolding sample_sent_def by (rule reachable_rtranclp) (rule reachable.init)
qed

lemma sample_popped_reachable: "reachable sample_start (popped sample_sent)"
proof -
  have "cpc sample_sent = CIdle" by code_simp
  from popped_steps [OF this] sample_sent_reachable show ?thesis by (rule reachable_rtranclp)
qed

lemma sample_both_reachable: "reachable sample_start sample_both"
proof -
  let ?\<sigma>1 = "sample_sent\<lparr>ppc := PSize [9]\<rparr>"
  have f: "ppc sample_sent = PIdle" "\<not> p_max_msg (prod sample_sent) < of_nat (length [9 :: u8])"
    "\<not> p_full (prod sample_sent)" "cpc sample_sent = CIdle"
    "c_read_pos (cons sample_sent) = c_write_cache (cons sample_sent)" "c_read_pos (cons sample_sent) = 0"
    "write_pos (ctrl (seg sample_sent)) = 1" by code_simp+
  have "bus_step sample_sent ?\<sigma>1" by (rule bus_step.p_fast [OF f(1) _ f(2,3)]) simp
  moreover have "bus_step ?\<sigma>1 (?\<sigma>1\<lparr>cpc := CLoad\<rparr>)" using f by (intro bus_step.c_slow) auto
  moreover have "bus_step (?\<sigma>1\<lparr>cpc := CLoad\<rparr>) sample_both"
    using bus_step.c_load [of "?\<sigma>1\<lparr>cpc := CLoad\<rparr>" 1 "(cons sample_sent)\<lparr>c_write_cache := 1\<rparr>"] f
    by (simp add: sample_both_def)
  ultimately show ?thesis using sample_sent_reachable by (blast intro: reachable.step)
qed

text \<open>
  C1. First in, first out under concurrency: however the steps of a producer and a consumer on
  a segment that \<open>create\<close> set up interleave, and however late the acquire loads see the other
  side's position, the results of the pops are the first messages pushed, in order and
  untorn: each with its full length and its bytes as far as the caller's buffer goes. No more
  than the capacity is in flight.
\<close>

theorem conc_fifo:
  assumes "fst (create cap max_msg opts env) = Inr s" and "unat max_msg \<le> 2 ^ 32 - 72"
    and "reachable (start s pid_p pid_c n) \<sigma>"
  shows "rcvd \<sigma> = map (\<lambda>m. (of_nat (length m), take (unat n) m)) (take (length (rcvd \<sigma>)) (sent \<sigma>)) \<and>
    length (rcvd \<sigma>) \<le> length (sent \<sigma>) \<and> length (sent \<sigma>) \<le> length (rcvd \<sigma>) + unat cap"
proof -
  note inv = reachable_inv [OF assms(3) start_inv [OF assms(1,2)]]
  have "buf_sz \<sigma> = n" and "capacity (ctrl (seg \<sigma>)) = cap"
    using reachable_frame [OF assms(3)] created_segment [OF assms(1)]
    by (auto simp: start_def new_Producer_def new_Consumer_def init_segment_def)
  with conc_inv_result [OF inv] show ?thesis by simp
qed

theorem conc_fifo_witness:
  "reachable (start sample_segment 1 2 8) (popped sample_sent) \<and>
   sent (popped sample_sent) = [[7, 8]] \<and> rcvd (popped sample_sent) = [(2, [7, 8])]"
proof -
  note r = sample_popped_reachable [unfolded sample_start_def]
  have "sent (popped sample_sent) = [[7, 8]]" "length (rcvd (popped sample_sent)) = 1" by code_simp+
  with conc_fifo [OF sample_create _ r] r show ?thesis by simp
qed

text \<open>
  C6. No data race on the slots: whenever the producer is between its capacity check and its
  publishing store while the consumer is between its check and its publishing store, the two
  work in slots that do not overlap, so the plain accesses to sizes and payloads never
  conflict.
\<close>

theorem no_data_race:
  assumes "fst (create cap max_msg opts env) = Inr s" and "unat max_msg \<le> 2 ^ 32 - 72"
    and "reachable (start s pid_p pid_c n) \<sigma>" and "writing (ppc \<sigma>)" and "reading (cpc \<sigma>)"
  shows "p_slot (prod \<sigma>) + unat (slot_stride (ctrl (seg \<sigma>))) \<le> c_slot (cons \<sigma>) \<or>
    c_slot (cons \<sigma>) + unat (slot_stride (ctrl (seg \<sigma>))) \<le> p_slot (prod \<sigma>)"
  using reachable_inv [OF assms(3) start_inv [OF assms(1,2)]] assms(4,5) by (rule conc_inv_race_free)

theorem no_data_race_witness:
  "c_slot (cons sample_both) + unat (slot_stride (ctrl (seg sample_both))) \<le> p_slot (prod sample_both)"
proof -
  have "writing (ppc sample_both)" "reading (cpc sample_both)"
    "\<not> p_slot (prod sample_both) + unat (slot_stride (ctrl (seg sample_both))) \<le> c_slot (cons sample_both)"
    by code_simp+
  with no_data_race [OF sample_create _ sample_both_reachable [unfolded sample_start_def]]
  show ?thesis by simp
qed

text \<open>
  The calls and the steps agree: a producer call and a consumer call of the sequential
  model are each a run of atomic steps with the same effect on the segment and on the two
  objects, and with the same result.
\<close>

theorem calls_are_runs:
  assumes "ppc \<sigma> = PIdle" and "cpc \<sigma> = CIdle" and "length m < 2 ^ 32"
    and "try_push m (of_nat (length m)) (prod \<sigma>) (seg \<sigma>) = (r, p', s1)"
    and "try_pop buf (buf_sz \<sigma>) (cons \<sigma>) s1 = (n, out, c', s2)"
  shows "bus_step\<^sup>*\<^sup>* \<sigma> (\<sigma>\<lparr>seg := s2, prod := p', cons := c',
    sent := if r then sent \<sigma> @ [m] else sent \<sigma>,
    rcvd := if c_read_pos c' = c_read_pos (cons \<sigma>) then rcvd \<sigma>
            else rcvd \<sigma> @ [(n, take (copy_len n \<sigma>) out)]\<rparr>)"
proof -
  define S where "S = (if r then sent \<sigma> @ [m] else sent \<sigma>)"
  define R where "R = (if c_read_pos c' = c_read_pos (cons \<sigma>) then rcvd \<sigma>
    else rcvd \<sigma> @ [(n, take (copy_len n \<sigma>) out)])"
  let ?\<tau> = "\<sigma>\<lparr>seg := s1, prod := p', ppc := PIdle, sent := S\<rparr>"
  have one: "bus_step\<^sup>*\<^sup>* \<sigma> ?\<tau>" unfolding S_def by (rule push_steps [OF assms(1,3,4)])
  have "bus_step\<^sup>*\<^sup>* ?\<tau> (?\<tau>\<lparr>seg := s2, cons := c', cpc := CIdle,
    rcvd := if c_read_pos c' = c_read_pos (cons ?\<tau>) then rcvd ?\<tau>
            else rcvd ?\<tau> @ [(n, take (copy_len n ?\<tau>) out)]\<rparr>)"
    by (rule pop_steps [of _ buf]) (simp_all add: assms(2,5))
  also have "(if c_read_pos c' = c_read_pos (cons ?\<tau>) then rcvd ?\<tau>
      else rcvd ?\<tau> @ [(n, take (copy_len n ?\<tau>) out)]) = R"
    by (simp add: R_def copy_len_def)
  also have "?\<tau>\<lparr>seg := s2, cons := c', cpc := CIdle, rcvd := R\<rparr>
      = \<sigma>\<lparr>seg := s2, prod := p', cons := c', sent := S, rcvd := R\<rparr>"
    using assms(1,2) by (cases \<sigma>) simp
  finally show ?thesis using one unfolding S_def R_def by (rule rtranclp_trans [rotated])
qed

theorem calls_are_runs_witness:
  "\<exists>\<tau>. bus_step\<^sup>*\<^sup>* sample_start \<tau> \<and> sent \<tau> = [[7, 8]] \<and> rcvd \<tau> = [(2, [7, 8])]"
proof -
  let ?\<sigma> = sample_start
  obtain r p' s1 where u: "try_push [7, 8] (of_nat (length [7, 8 :: u8])) (prod ?\<sigma>) (seg ?\<sigma>) = (r, p', s1)"
    by (metis prod_cases3)
  obtain n out c' s2 where o: "try_pop [] (buf_sz ?\<sigma>) (cons ?\<sigma>) s1 = (n, out, c', s2)"
    by (metis prod_cases4)
  have f: "ppc ?\<sigma> = PIdle" "cpc ?\<sigma> = CIdle" "sent ?\<sigma> = []" "rcvd ?\<sigma> = []" "copy_len 2 ?\<sigma> = 2"
    by code_simp+
  have "case try_push [7, 8] (of_nat (length [7, 8 :: u8])) (prod ?\<sigma>) (seg ?\<sigma>) of (r, p', s1) \<Rightarrow>
      case try_pop [] (buf_sz ?\<sigma>) (cons ?\<sigma>) s1 of (n, out, c', s2) \<Rightarrow>
        r \<and> n = 2 \<and> out = [7, 8] \<and> c_read_pos c' \<noteq> c_read_pos (cons ?\<sigma>)" by code_simp
  then have v: "r" "n = 2" "out = [7, 8]" "c_read_pos c' \<noteq> c_read_pos (cons ?\<sigma>)"
    using u o by simp_all
  from calls_are_runs [OF f(1,2) _ u o] v f(3-5) show ?thesis
    by (intro exI [of _ "?\<sigma>\<lparr>seg := s2, prod := p', cons := c', sent := [[7, 8]], rcvd := [(2, [7, 8])]\<rparr>"]) simp
qed

end
