(* ===== verification/Transitions.thy ===== *)
theory Transitions
  imports Main
begin

text \<open>
  Laws for step relations, shared by the components that are state machines: invariants carry
  over to every state a run reaches, a measure that every step lowers bounds the runs, and a call whose own
  steps lower a measure that nobody else touches ends after a bounded number of them.
\<close>

locale preserved =
  fixes step :: "'s \<Rightarrow> 's \<Rightarrow> bool" and inv :: "'s \<Rightarrow> bool"
  assumes keep: "inv s \<Longrightarrow> step s t \<Longrightarrow> inv t"
begin

lemma along_run: "step\<^sup>*\<^sup>* s t \<Longrightarrow> inv s \<Longrightarrow> inv t"
  by (induction rule: rtranclp_induct) (auto intro: keep)

lemma along_path: "\<forall>i<k. step (f i) (f (Suc i)) \<Longrightarrow> inv (f 0) \<Longrightarrow> i \<le> k \<Longrightarrow> inv (f i)"
proof (induction i)
  case (Suc i)
  then have "inv (f i)" "step (f i) (f (Suc i))" by auto
  then show ?case by (rule keep)
qed simp

lemma along_steps: "(step ^^ n) s t \<Longrightarrow> inv s \<Longrightarrow> inv t"
  by (rule along_run) (auto simp: rtranclp_power)

end

locale measured = preserved step inv
  for step :: "'s \<Rightarrow> 's \<Rightarrow> bool" and inv :: "'s \<Rightarrow> bool" +
  fixes meas :: "'s \<Rightarrow> nat"
  assumes lower: "inv s \<Longrightarrow> step s t \<Longrightarrow> meas t < meas s"
begin

lemma run_bound: "(step ^^ n) s t \<Longrightarrow> inv s \<Longrightarrow> n + meas t \<le> meas s"
proof (induction n arbitrary: t)
  case (Suc n)
  from Suc.prems(1) obtain u where u: "(step ^^ n) s u" "step u t" by auto
  then have "meas t < meas u" using along_steps Suc.prems(2) lower by blast
  then show ?case using Suc.IH [OF u(1) Suc.prems(2)] by simp
qed simp

lemma reaches_end: "inv s \<Longrightarrow> \<exists>t. step\<^sup>*\<^sup>* s t \<and> (\<nexists>u. step t u)"
proof (induction "meas s" arbitrary: s rule: less_induct)
  case less
  show ?case
  proof (cases "\<exists>u. step s u")
    case True
    then obtain u where "step s u" ..
    with less lower keep show ?thesis by (meson converse_rtranclp_into_rtranclp)
  qed auto
qed

end

text \<open>
  One thread of several: \<open>pc\<close> is its program point, which every step of its own changes and no step of another
  does, and \<open>left\<close> the number of steps to the end of its call, 0 outside of calls.
\<close>

locale progress = preserved step inv
  for step :: "'s \<Rightarrow> 's \<Rightarrow> bool" and inv :: "'s \<Rightarrow> bool" +
  fixes pc :: "'s \<Rightarrow> 'p" and left :: "'s \<Rightarrow> nat"
  assumes enabled: "inv s \<Longrightarrow> 0 < left s \<Longrightarrow> \<exists>t. step s t \<and> pc t \<noteq> pc s"
    and lowers: "inv s \<Longrightarrow> 0 < left s \<Longrightarrow> step s t \<Longrightarrow> pc t \<noteq> pc s \<Longrightarrow> left t < left s"
    and untouched: "inv s \<Longrightarrow> step s t \<Longrightarrow> pc t = pc s \<Longrightarrow> left t = left s"
begin

lemma own_steps_bound:
  assumes "\<forall>i<k. step (f i) (f (Suc i))" and "inv (f 0)" and "\<forall>i<k. 0 < left (f i)"
  shows "inv (f k) \<and> card {i. i < k \<and> pc (f (Suc i)) \<noteq> pc (f i)} + left (f k) \<le> left (f 0)"
  using assms
proof (induction k)
  case (Suc k)
  let ?A = "\<lambda>k. {i. i < k \<and> pc (f (Suc i)) \<noteq> pc (f i)}"
  have IH: "inv (f k)" "card (?A k) + left (f k) \<le> left (f 0)" and step: "step (f k) (f (Suc k))" and busy: "0 < left (f k)"
    using Suc by auto
  show ?case
  proof (cases "pc (f (Suc k)) = pc (f k)")
    case True
    then have "?A (Suc k) = ?A k" by (auto simp: less_Suc_eq)
    then show ?thesis using IH untouched [OF IH(1) step True] keep [OF IH(1) step] by simp
  next
    case False
    then have "?A (Suc k) = insert k (?A k)" by (auto simp: less_Suc_eq)
    then have "card (?A (Suc k)) = Suc (card (?A k))" by simp
    then show ?thesis using IH lowers [OF IH(1) busy step False] keep [OF IH(1) step] by linarith
  qed
qed simp

lemma call_bound:
  assumes "\<forall>i<k. step (f i) (f (Suc i))" and "inv (f 0)" and "\<forall>i<k. 0 < left (f i)" and "left (f 0) \<le> b"
  shows "card {i. i < k \<and> pc (f (Suc i)) \<noteq> pc (f i)} \<le> b"
  using own_steps_bound [OF assms(1-3)] assms(4) by linarith

text \<open>Left alone, the thread comes to the end of its call.\<close>

lemma ends_alone: "inv s \<Longrightarrow> \<exists>t. (\<lambda>s t. step s t \<and> pc t \<noteq> pc s \<and> 0 < left s)\<^sup>*\<^sup>* s t \<and> left t = 0" (is "_ \<Longrightarrow> \<exists>t. ?own\<^sup>*\<^sup>* s t \<and> _")
proof (induction "left s" arbitrary: s rule: less_induct)
  case less
  show ?case
  proof (cases "left s = 0")
    case False
    then obtain u where u: "step s u" "pc u \<noteq> pc s" using enabled less.prems by auto
    then have "left u < left s" "inv u" using lowers keep less.prems False by auto
    then obtain t where t: "?own\<^sup>*\<^sup>* u t" "left t = 0" using less.hyps by blast
    have "?own\<^sup>*\<^sup>* s t" by (rule converse_rtranclp_into_rtranclp [OF _ t(1)]) (use u False in simp)
    then show ?thesis using t(2) by blast
  qed auto
qed

end

end
