(* ===== verification/Spsc_Recovery.thy ===== *)
theory Spsc_Recovery
  imports Spsc_Concurrent Transitions
begin

text \<open>
  Processes that die and come back. A process may stop for ever at any of its memory accesses, in the middle of a call
  too, and a new one may attach to the same segment with a new \<open>Producer\<close> or \<open>Consumer\<close>; that keeps the
  order and loses nothing. A producer that instead calls \<open>create\<close> again starts the segment afresh under the
  feet of a consumer that is still attached, and that is shown to stop the traffic.
\<close>

section \<open>Attaching again\<close>

inductive crash_step :: "sys \<Rightarrow> sys \<Rightarrow> bool" where
  runs: "bus_step \<sigma> \<tau> \<Longrightarrow> crash_step \<sigma> \<tau>"
| producer_again: "new_Producer pid (seg \<sigma>) = (p, s) \<Longrightarrow> crash_step \<sigma> (\<sigma>\<lparr>seg := s, prod := p, ppc := PIdle\<rparr>)"
| consumer_again: "new_Consumer pid (seg \<sigma>) = (c, s) \<Longrightarrow> crash_step \<sigma> (\<sigma>\<lparr>seg := s, cons := c, cpc := CIdle\<rparr>)"

lemma producer_again_inv:
  assumes inv: "conc_inv \<sigma>" and "new_Producer pid (seg \<sigma>) = (p, s)"
  shows "conc_inv (\<sigma>\<lparr>seg := s, prod := p, ppc := PIdle\<rparr>)"
proof -
  let ?\<tau> = "\<sigma>\<lparr>seg := s, prod := p, ppc := PIdle\<rparr>"
  from inv obtain rc wc where pos: "pos_inv \<sigma> rc wc" by (auto simp: conc_inv_def)
  have s: "s = (seg \<sigma>)\<lparr>ctrl := (ctrl (seg \<sigma>))\<lparr>producer_pid := pid\<rparr>\<rparr>" and p: "p_write_pos p = write_pos (ctrl (seg \<sigma>))"
    "p_read_cache p = read_pos (ctrl (seg \<sigma>))" "p_capacity p = capacity (ctrl (seg \<sigma>))"
    "p_stride p = slot_stride (ctrl (seg \<sigma>))" "p_max_msg p = max_msg_size (ctrl (seg \<sigma>))"
    using assms(2) by (auto simp: new_Producer_def)
  have slot: "slot_no ?\<tau> = slot_no \<sigma>" by (simp add: s slot_no_def slot_at_def fun_eq_iff)
  have "pos_inv ?\<tau> (length (rcvd \<sigma>)) wc" using pos by (auto simp: pos_inv_def Let_def s p writing_def)
  moreover have "cfg_inv ?\<tau>" using inv by (simp add: conc_inv_def cfg_inv_def cfg_ok_def Let_def s p)
  moreover have "data_inv ?\<tau>" using inv unfolding conc_inv_def data_inv_def slot by (simp add: s)
  moreover have "cpc_inv ?\<tau> (cpc \<sigma>)" using inv by (cases "cpc \<sigma>") (auto simp: conc_inv_def copy_len_def)
  ultimately show ?thesis by (auto simp: conc_inv_def)
qed

lemma consumer_again_inv:
  assumes inv: "conc_inv \<sigma>" and "new_Consumer pid (seg \<sigma>) = (c, s)"
  shows "conc_inv (\<sigma>\<lparr>seg := s, cons := c, cpc := CIdle\<rparr>)"
proof -
  let ?\<tau> = "\<sigma>\<lparr>seg := s, cons := c, cpc := CIdle\<rparr>"
  from inv obtain rc wc where pos: "pos_inv \<sigma> rc wc" by (auto simp: conc_inv_def)
  have s: "s = (seg \<sigma>)\<lparr>ctrl := (ctrl (seg \<sigma>))\<lparr>consumer_pid := pid\<rparr>\<rparr>" and c: "c_read_pos c = read_pos (ctrl (seg \<sigma>))"
    "c_write_cache c = write_pos (ctrl (seg \<sigma>))" "c_capacity c = capacity (ctrl (seg \<sigma>))" "c_stride c = slot_stride (ctrl (seg \<sigma>))"
    using assms(2) by (auto simp: new_Consumer_def)
  have slot: "slot_no ?\<tau> = slot_no \<sigma>" by (simp add: s slot_no_def slot_at_def fun_eq_iff)
  have "pos_inv ?\<tau> rc (length (sent \<sigma>))" using pos by (auto simp: pos_inv_def Let_def s c reading_def)
  moreover have "cfg_inv ?\<tau>" using inv by (simp add: conc_inv_def cfg_inv_def cfg_ok_def Let_def s c)
  moreover have "data_inv ?\<tau>" using inv unfolding conc_inv_def data_inv_def slot by (simp add: s)
  moreover have "ppc_inv ?\<tau> (ppc \<sigma>)" using inv slot by (cases "ppc \<sigma>") (auto simp: conc_inv_def s)
  ultimately show ?thesis by (auto simp: conc_inv_def)
qed

interpretation recovery: preserved crash_step conc_inv
proof
  fix \<sigma> \<tau> assume "conc_inv \<sigma>" and "crash_step \<sigma> \<tau>"
  from this(2,1) show "conc_inv \<tau>"
    by cases (auto intro: bus_step_inv producer_again_inv consumer_again_inv)
qed

interpretation fixed_sizes: preserved crash_step "\<lambda>\<sigma>. buf_sz \<sigma> = n \<and> capacity (ctrl (seg \<sigma>)) = cap"
proof
  fix \<sigma> \<tau> assume "buf_sz \<sigma> = n \<and> capacity (ctrl (seg \<sigma>)) = cap" and "crash_step \<sigma> \<tau>"
  from this(2,1) show "buf_sz \<tau> = n \<and> capacity (ctrl (seg \<tau>)) = cap"
    by cases (auto dest: step_frame simp: new_Producer_def new_Consumer_def)
qed

lemma runs_crash: "bus_step\<^sup>*\<^sup>* \<sigma> \<tau> \<Longrightarrow> crash_step\<^sup>*\<^sup>* \<sigma> \<tau>"
  by (induction rule: rtranclp_induct) (auto intro: crash_step.runs rtranclp.rtrancl_into_rtrancl)

section \<open>A second \<open>create\<close> while the consumer is attached\<close>

text \<open>Calls of \<open>try_pop\<close> one after the other, as \<open>pop\<close> makes them while they return 0.\<close>

fun pops :: "nat \<Rightarrow> bytes \<Rightarrow> u32 \<Rightarrow> Consumer \<Rightarrow> segment \<Rightarrow> u32 list \<times> Consumer \<times> segment" where
  "pops 0 buf n c s = ([], c, s)"
| "pops (Suc k) buf n c s =
     (case try_pop buf n c s of (r, out, c', s') \<Rightarrow> case pops k out n c' s' of (rs, c'', s'') \<Rightarrow> (r # rs, c'', s''))"

text \<open>The new segment as the old consumer leaves it: nothing written and nothing published, but its position moved.\<close>

definition fresh_but_read :: "ControlBlock \<Rightarrow> segment \<Rightarrow> bool" where
  "fresh_but_read cb s \<longleftrightarrow> mem s = (\<lambda>_. 0) \<and> write_pos cb = 0 \<and> (\<exists>r. ctrl s = cb\<lparr>read_pos := r\<rparr>)"

lemma load32_zero: "load32 (\<lambda>_. 0) a = 0"
  by (simp add: load32_def read_bytes_def le32_of_def numeral_eq_Suc)

lemma stale_pop:
  assumes "fresh_but_read cb s" and "c_read_pos c \<noteq> 0"
  shows "\<exists>out c' s'. try_pop buf n c s = (0, out, c', s') \<and> fresh_but_read cb s' \<and>
    c_read_pos c' = c_read_pos c + 1 \<and> read_pos (ctrl s') = c_read_pos c + 1"
proof -
  have w: "write_pos (ctrl s) = 0" using assms(1) by (auto simp: fresh_but_read_def)
  have "\<exists>c\<^sub>0. c_read_pos c\<^sub>0 = c_read_pos c \<and> try_pop buf n c s = pop_slot buf n c\<^sub>0 s"
    using assms(2) w by (cases "c_read_pos c = c_write_cache c")
      (auto simp: try_pop_def intro: exI [of _ "c\<lparr>c_write_cache := 0\<rparr>"])
  then show ?thesis using assms(1) by (auto simp: pop_slot_def Let_def fresh_but_read_def load32_zero)
qed

lemma stale_pops:
  assumes "fresh_but_read cb s" and "c_read_pos c \<noteq> 0" and "unat (c_read_pos c) + Suc k < 2 ^ 64"
  shows "\<exists>c' s'. pops (Suc k) buf n c s = (replicate (Suc k) 0, c', s') \<and> fresh_but_read cb s' \<and>
    read_pos (ctrl s') = c_read_pos c + of_nat (Suc k)"
  using assms
proof (induction k arbitrary: buf c s)
  case 0
  then show ?case using stale_pop [of cb s c buf n] by auto
next
  case (Suc k)
  obtain out c1 s1 where 1: "try_pop buf n c s = (0, out, c1, s1)" "fresh_but_read cb s1" "c_read_pos c1 = c_read_pos c + 1"
    using stale_pop [OF Suc.prems(1,2)] by blast
  have u: "unat (c_read_pos c1) = Suc (unat (c_read_pos c))" using Suc.prems(3) by (simp add: 1 unat_word_ariths)
  then have "c_read_pos c1 \<noteq> 0" by auto
  then obtain c' s' where "pops (Suc k) out n c1 s1 = (replicate (Suc k) 0, c', s')" "fresh_but_read cb s'"
    "read_pos (ctrl s') = c_read_pos c1 + of_nat (Suc k)" using Suc.IH [OF 1(2), of c1 out] Suc.prems(3) u by auto
  then show ?case using 1 by (simp del: pops.simps add: pops.simps(2) [of "Suc k"])
qed

text \<open>With the read position ahead of the write position by more than nothing, the ring looks full.\<close>

lemma refused_ahead:
  assumes "fresh_but_read cb s" and "unat (read_pos (ctrl s)) + unat (capacity cb) \<le> 2 ^ 64" and "read_pos (ctrl s) \<noteq> 0"
    and "new_Producer pid s = (p, s')"
  shows "\<not> fst (try_push payload sz p s')"
proof -
  have w: "write_pos (ctrl s) = 0" "capacity (ctrl s) = capacity cb"
    using assms(1) by (auto simp: fresh_but_read_def)
  have "unat (0 - read_pos (ctrl s)) = 2 ^ 64 - unat (read_pos (ctrl s))"
    using assms(3) unat_sub_if_size [of 0 "read_pos (ctrl s)"] by (simp add: word_size unat_eq_0)
  then have "p_full p" using assms(2,4) w by (auto simp: p_full_def new_Producer_def word_le_nat_alt)
  then show ?thesis using assms(4) by (auto simp: try_push_def Let_def new_Producer_def)
qed

section \<open>Properties\<close>

text \<open>
  C3. A crash loses nothing. In any run in which, besides the steps of the two sides, either process may stop anywhere,
  also inside a call, and a new one attach to the segment, any number of times: the results of the pops are
  the first messages published, in order, whole and each once, and no more than the capacity is in flight. (A message
  counts as popped when the read position has been stored, so one that was copied but not yet
  released is delivered to the next consumer.)
\<close>

theorem crash_restart:
  assumes "fst (create cap max_msg opts env) = Inr s" and "unat max_msg \<le> 2 ^ 32 - 72"
    and "crash_step\<^sup>*\<^sup>* (start s pid_p pid_c n) \<sigma>"
  shows "rcvd \<sigma> = map (\<lambda>m. (of_nat (length m), take (unat n) m)) (take (length (rcvd \<sigma>)) (sent \<sigma>)) \<and>
    length (rcvd \<sigma>) \<le> length (sent \<sigma>) \<and> length (sent \<sigma>) \<le> length (rcvd \<sigma>) + unat cap"
proof -
  have inv: "conc_inv \<sigma>" by (rule recovery.along_run [OF assms(3) start_inv [OF assms(1,2)]])
  have "buf_sz \<sigma> = n \<and> capacity (ctrl (seg \<sigma>)) = cap"
    by (rule fixed_sizes.along_run [OF assms(3)])
      (use created_segment [OF assms(1)] in \<open>simp add: start_def new_Producer_def new_Consumer_def init_segment_def\<close>)
  with conc_inv_result [OF inv] show ?thesis by simp
qed

text \<open>
  C38. A second \<open>create\<close> with a consumer attached stops the traffic. A consumer that has popped something in the session before
  takes each of the zeroed slots for a message of no bytes: every call of \<open>try_pop\<close> returns 0, as for an empty ring, and moves the
  read position of the new session one further. From then on every push of a producer that attaches is
  refused, although the ring is empty.
\<close>

theorem stale_consumer:
  assumes "fst (create cap max_msg opts env) = Inr s" and "c_capacity c = cap" "c_stride c = slot_stride (ctrl s)"
    and "c_read_pos c \<noteq> 0" and "unat (c_read_pos c) + Suc k + unat cap \<le> 2 ^ 64"
  shows "\<exists>c' s'. pops (Suc k) buf n c s = (replicate (Suc k) 0, c', s') \<and>
    write_pos (ctrl s') = 0 \<and> read_pos (ctrl s') = c_read_pos c + of_nat (Suc k) \<and>
    (\<forall>pid p s'' payload sz. new_Producer pid s' = (p, s'') \<longrightarrow> \<not> fst (try_push payload sz p s''))"
proof -
  have s: "s = init_segment cap max_msg (make_session_id env) (compute_shm_size cap max_msg)" "0 < unat cap"
    using created_segment [OF assms(1)] by (auto simp: pow2_def unat_gt_0)
  then have f: "fresh_but_read (ctrl s) s" "capacity (ctrl s) = cap" by (auto simp: fresh_but_read_def init_segment_def intro!: exI [of _ 0])
  obtain c' s' where r: "pops (Suc k) buf n c s = (replicate (Suc k) 0, c', s')" "fresh_but_read (ctrl s) s'"
    "read_pos (ctrl s') = c_read_pos c + of_nat (Suc k)"
    using stale_pops [OF f(1) assms(4), of k buf n] assms(5) s(2) by auto
  have u: "unat (read_pos (ctrl s')) = unat (c_read_pos c) + Suc k"
    using assms(5) s(2) by (simp add: r(3) unat_word_ariths unat_of_nat del: of_nat_Suc)
  then have "read_pos (ctrl s') \<noteq> 0" by auto
  then have "\<not> fst (try_push payload sz p s'')" if "new_Producer pid s' = (p, s'')" for pid p s'' payload sz
    using refused_ahead [OF r(2) _ _ that] u assms(5) f(2) by simp
  moreover have "write_pos (ctrl s') = 0" using r(2) by (auto simp: fresh_but_read_def)
  ultimately show ?thesis using r(1,3) by blast
qed

definition crashed :: sys where
  "crashed = (let p = new_Producer 3 (seg sample_both); c = new_Consumer 4 (snd p)
     in sample_both\<lparr>seg := snd c, prod := fst p, ppc := PIdle, cons := fst c, cpc := CIdle\<rparr>)"

lemma crashed_run: "crash_step\<^sup>*\<^sup>* (start sample_segment 1 2 8) (popped crashed)"
proof -
  let ?p = "new_Producer 3 (seg sample_both)"
  let ?\<sigma> = "sample_both\<lparr>seg := snd ?p, prod := fst ?p, ppc := PIdle\<rparr>"
  have "crash_step sample_both ?\<sigma>" by (rule crash_step.producer_again) simp
  moreover have "crash_step ?\<sigma> crashed"
  proof -
    have "crashed = ?\<sigma>\<lparr>seg := snd (new_Consumer 4 (snd ?p)), cons := fst (new_Consumer 4 (snd ?p)), cpc := CIdle\<rparr>"
      by (rule sys.equality) (simp_all add: crashed_def Let_def)
    then show ?thesis by (rule ssubst) (rule crash_step.consumer_again, simp)
  qed
  moreover have "crash_step\<^sup>*\<^sup>* crashed (popped crashed)" by (intro runs_crash popped_steps) (simp add: crashed_def Let_def)
  moreover have "crash_step\<^sup>*\<^sup>* (start sample_segment 1 2 8) sample_both"
    using sample_both_reachable unfolding sample_start_def
    by (induction rule: reachable.induct) (auto intro: crash_step.runs rtranclp.rtrancl_into_rtrancl)
  ultimately show ?thesis by (meson rtranclp.rtrancl_into_rtrancl rtranclp_trans)
qed

theorem crash_restart_witness:
  "crash_step\<^sup>*\<^sup>* (start sample_segment 1 2 8) (popped crashed) \<and> ppc sample_both = PSize [9] \<and>
   sent (popped crashed) = [[7, 8]] \<and> rcvd (popped crashed) = [(2, [7, 8])]"
proof -
  have "sent (popped crashed) = [[7, 8]]" "length (rcvd (popped crashed)) = 1" "ppc sample_both = PSize [9]" by code_simp+
  with crash_restart [OF sample_create _ crashed_run] crashed_run show ?thesis by simp
qed

theorem stale_consumer_witness:
  "\<exists>c' s'. pops 3 [] 8 \<lparr> c_capacity = 2, c_stride = slot_stride (ctrl sample_segment), c_max_msg = 8, c_read_pos = 5, c_write_cache = 5 \<rparr>
      sample_segment = ([0, 0, 0], c', s') \<and> read_pos (ctrl s') = 8 \<and> \<not> fst (try_push [1] 1 (fst (new_Producer 3 s')) (snd (new_Producer 3 s')))"
proof -
  let ?c = "\<lparr> c_capacity = 2, c_stride = slot_stride (ctrl sample_segment), c_max_msg = 8, c_read_pos = 5, c_write_cache = 5 \<rparr>"
  obtain c' s' where r: "pops (Suc 2) [] 8 ?c sample_segment = (replicate (Suc 2) 0, c', s')"
    "read_pos (ctrl s') = c_read_pos ?c + of_nat (Suc 2)"
    "\<forall>pid p s'' payload sz. new_Producer pid s' = (p, s'') \<longrightarrow> \<not> fst (try_push payload sz p s'')"
    using stale_consumer [OF sample_create, of ?c 2 "[]" 8] by auto
  have "\<not> fst (try_push [1] 1 (fst (new_Producer 3 s')) (snd (new_Producer 3 s')))"
    using r(3) surjective_pairing [of "new_Producer 3 s'"] by blast
  moreover have "replicate (Suc 2) 0 = [0, 0, 0 :: u32]" "Suc 2 = 3" by (simp_all add: numeral_eq_Suc)
  ultimately show ?thesis using r(1,2) by (simp del: pops.simps replicate.simps)
qed

end
