(* ===== verification/Spsc_Lossy.thy ===== *)
theory Spsc_Lossy
  imports Spsc_Blocking
begin

text \<open>
  The lossy mode of the bus: \<open>OverwriteProducer\<close>, which never waits, and \<open>Consumer::try_pop_lossy\<close>, which
  detects overwritten slots by the generation in the slot header. It is shown exactly which
  message a pop returns when calls do not overlap.
\<close>

section \<open>Operations\<close>

record OverwriteProducer =
  o_capacity :: u32
  o_stride :: u32
  o_max_msg :: u32
  o_write_pos :: u64
  o_read_cache :: u64

definition new_OverwriteProducer :: "u32 \<Rightarrow> segment \<Rightarrow> OverwriteProducer \<times> segment" where
  "new_OverwriteProducer pid s =
     (\<lparr> o_capacity = capacity (ctrl s), o_stride = slot_stride (ctrl s), o_max_msg = max_msg_size (ctrl s),
        o_write_pos = write_pos (ctrl s), o_read_cache = read_pos (ctrl s) \<rparr>,
      s\<lparr>ctrl := (ctrl s)\<lparr>producer_pid := pid\<rparr>\<rparr>)"

definition ow_push :: "bytes \<Rightarrow> u32 \<Rightarrow> OverwriteProducer \<Rightarrow> segment \<Rightarrow> bool \<times> OverwriteProducer \<times> segment" where
  "ow_push payload sz p s =
     (if o_max_msg p < sz then (False, p, s)
      else let slot = slot_ptr (o_capacity p) (o_stride p) (o_write_pos p);
               g = load32 (mem s) (gen_ptr slot);
               m = store32 (mem s) (gen_ptr slot) (g + 1);
               m = fill_slot slot payload sz m;
               m = store32 m (gen_ptr slot) (g + 2) in
      (True, p\<lparr>o_write_pos := o_write_pos p + 1\<rparr>,
       s\<lparr>mem := m, ctrl := (ctrl s)\<lparr>write_pos := o_write_pos p + 1\<rparr>\<rparr>))"

definition ow_heartbeat :: "timespec \<Rightarrow> segment \<Rightarrow> segment" where
  "ow_heartbeat ts s = s\<lparr>ctrl := (ctrl s)\<lparr>producer_heartbeat_ts := mono_ns ts\<rparr>\<rparr>"

definition ow_consumer_status :: "kill_fun \<Rightarrow> segment \<Rightarrow> PeerStatus" where
  "ow_consumer_status kill s =
     (let pid = consumer_pid (ctrl s) in
      if pid = 0 then Unknown
      else case kill pid of (r, e) \<Rightarrow> if r = 0 then Alive else if e = ESRCH then Dead else Unknown)"

text \<open>
  The producer may run while the slot is copied: \<open>during s\<close> is the memory the copy sees and the segment when
  the generation is read again. The results are the returned size, the flag and the buffer.
\<close>

definition try_pop_lossy :: "bytes \<Rightarrow> u32 \<Rightarrow> (segment \<Rightarrow> memory \<times> segment) \<Rightarrow> Consumer \<Rightarrow> segment
    \<Rightarrow> u32 \<times> bool \<times> bytes \<times> Consumer \<times> segment" where
  "try_pop_lossy buf buf_size during c s =
     (let c = (if c_read_pos c = c_write_cache c then c\<lparr>c_write_cache := write_pos (ctrl s)\<rparr> else c) in
      if c_read_pos c = c_write_cache c then (0, False, buf, c, s)
      else if ucast (c_capacity c) < c_write_cache c - c_read_pos c
      then let r = c_write_cache c - ucast (c_capacity c) in
           (0, True, buf, c\<lparr>c_read_pos := r\<rparr>, s\<lparr>ctrl := (ctrl s)\<lparr>read_pos := r\<rparr>\<rparr>)
      else let slot = c_slot c; gen1 = load32 (mem s) (gen_ptr slot) in
      if gen1 AND 1 \<noteq> 0 then (0, False, buf, c, s)
      else case during s of (m, s) \<Rightarrow>
        let msg_sz = load32 m (size_ptr slot);
            copy_sz = (if msg_sz < buf_size then msg_sz else buf_size);
            buf = copy_out m slot copy_sz buf in
        if load32 (mem s) (gen_ptr slot) \<noteq> gen1
        then let w = write_pos (ctrl s); r = (if ucast (c_capacity c) < w then w - ucast (c_capacity c) else w) in
             (0, True, buf, c\<lparr>c_write_cache := w, c_read_pos := r\<rparr>, s\<lparr>ctrl := (ctrl s)\<lparr>read_pos := r\<rparr>\<rparr>)
        else (msg_sz, False, buf, c\<lparr>c_read_pos := c_read_pos c + 1\<rparr>,
              s\<lparr>ctrl := (ctrl s)\<lparr>read_pos := c_read_pos c + 1\<rparr>\<rparr>))"

definition undisturbed :: "segment \<Rightarrow> memory \<times> segment" where
  "undisturbed s = (mem s, s)"

section \<open>The ring under an overwriting producer\<close>

text \<open>The ring holds the last \<open>capacity\<close> messages of those pushed; all generations are even.\<close>

definition lossy_inv :: "bytes list \<Rightarrow> OverwriteProducer \<Rightarrow> segment \<Rightarrow> bool" where
  "lossy_inv pushed p s \<longleftrightarrow> cfg_ok (ctrl s) \<and> o_capacity p = capacity (ctrl s) \<and> o_stride p = slot_stride (ctrl s) \<and>
     o_max_msg p = max_msg_size (ctrl s) \<and> o_write_pos p = of_nat (length pushed) \<and> write_pos (ctrl s) = of_nat (length pushed) \<and>
     (\<forall>m\<in>set pushed. length m \<le> unat (max_msg_size (ctrl s))) \<and>
     (\<forall>i<length pushed. length pushed \<le> i + unat (capacity (ctrl s)) \<longrightarrow>
        slot_msg (mem s) (slot_at (ctrl s) (of_nat i)) = pushed ! i) \<and>
     (\<forall>pos. even (load32 (mem s) (gen_ptr (slot_at (ctrl s) pos))))"

lemma slot_same_or_apart:
  assumes "cfg_ok cb"
  shows "slot_at cb a = slot_at cb b \<or> slot_at cb a + unat (slot_stride cb) \<le> slot_at cb b
    \<or> slot_at cb b + unat (slot_stride cb) \<le> slot_at cb a"
proof -
  from assms obtain k where k: "unat (capacity cb) = 2 ^ k" "k < 32" by (rule cfg_okE)
  show ?thesis
  proof (cases "unat a mod 2 ^ k = unat b mod 2 ^ k")
    case True
    then show ?thesis by (simp add: slot_at_def slot_ptr_eq [OF k])
  next
    case False
    then show ?thesis using slots_disjoint_index [OF k False, of "slot_stride cb"] by (simp add: slot_at_def)
  qed
qed

text \<open>Rewriting the generation of a slot changes no message.\<close>

lemma slot_msg_gen [simp]: "slot_msg (store32 m (gen_ptr slot) g) slot = slot_msg m slot"
  by (simp add: slot_msg_def slot_len_def slot_fields mem_simps)

lemma slot_msg_gen_other:
  assumes "slot + st \<le> slot' \<or> slot' + st \<le> slot" and "slot_len m slot' + 8 \<le> st"
  shows "slot_msg (store32 m (gen_ptr slot) g) slot' = slot_msg m slot'"
    and "slot_len (store32 m (gen_ptr slot) g) slot' = slot_len m slot'"
  using assms by (auto simp: slot_msg_def slot_len_def slot_fields mem_simps)

lemma gen_fill:
  assumes "slot' = slot \<or> slot + st \<le> slot' \<or> slot' + st \<le> slot" and "unat sz + 8 \<le> st" and "length payload = unat sz"
  shows "load32 (fill_slot slot payload sz m) (gen_ptr slot') = load32 m (gen_ptr slot')"
  using assms by (auto simp: fill_slot_def slot_fields mem_simps)

lemma ow_push_inv:
  assumes inv: "lossy_inv pushed p s" and len: "length m = unat sz" and sz: "sz \<le> max_msg_size (ctrl s)"
    and push: "ow_push m sz p s = (r, p', s')"
  shows "r \<and> lossy_inv (pushed @ [m]) p' s' \<and> read_pos (ctrl s') = read_pos (ctrl s) \<and> capacity (ctrl s') = capacity (ctrl s)
    \<and> slot_stride (ctrl s') = slot_stride (ctrl s) \<and> max_msg_size (ctrl s') = max_msg_size (ctrl s)"
proof -
  let ?cb = "ctrl s" let ?W = "length pushed" let ?st = "unat (slot_stride ?cb)"
  let ?slot = "slot_at ?cb (of_nat ?W)"
  let ?g = "load32 (mem s) (gen_ptr ?slot)"
  let ?m1 = "store32 (mem s) (gen_ptr ?slot) (?g + 1)"
  let ?m3 = "store32 (fill_slot ?slot m sz ?m1) (gen_ptr ?slot) (?g + 2)"
  have cfg: "cfg_ok ?cb" using inv by (simp add: lossy_inv_def)
  have room: "unat sz + 8 \<le> ?st" using cfg sz by (auto simp: cfg_ok_def word_le_nat_alt)
  have "slot_ptr (o_capacity p) (o_stride p) (o_write_pos p) = ?slot" using inv by (simp add: lossy_inv_def slot_at_def)
  moreover have "\<not> o_max_msg p < sz" using inv sz by (simp add: lossy_inv_def not_less)
  ultimately have res: r "p' = p\<lparr>o_write_pos := o_write_pos p + 1\<rparr>" "mem s' = ?m3"
      "ctrl s' = ?cb\<lparr>write_pos := o_write_pos p + 1\<rparr>"
    using push by (auto simp: ow_push_def Let_def)
  have at: "slot_at (ctrl s') = slot_at ?cb" by (simp add: res slot_at_def fun_eq_iff)
  have new: "slot_msg ?m3 ?slot = m" using len by (simp add: slot_fill_same)
  have old: "slot_msg ?m3 (slot_at ?cb (of_nat i)) = pushed ! i" if i: "i < ?W" "Suc ?W \<le> i + unat (capacity ?cb)" for i
  proof -
    let ?o = "slot_at ?cb (of_nat i)"
    have apart: "?slot + ?st \<le> ?o \<or> ?o + ?st \<le> ?slot"
      using slot_at_disjoint [OF cfg, of "?W - i" 0 "of_nat i"] i by (auto simp: of_nat_diff algebra_simps)
    have msg: "slot_msg (mem s) ?o = pushed ! i" using inv i by (simp add: lossy_inv_def)
    then have "slot_len (mem s) ?o = length (pushed ! i)" by (metis length_slot_msg)
    also have "\<dots> \<le> unat (max_msg_size ?cb)" using inv i(1) by (simp add: lossy_inv_def)
    finally have l: "slot_len (mem s) ?o + 8 \<le> ?st" using cfg by (simp add: cfg_ok_def)
    note g1 = slot_msg_gen_other [OF apart l, of "?g + 1"]
    note f = slot_fill_other [OF apart _ room, of ?m1 m, unfolded g1(2), OF l]
    show ?thesis using slot_msg_gen_other(1) [OF apart, of "fill_slot ?slot m sz ?m1" "?g + 2"] f g1 l msg by simp
  qed
  have gens: "even (load32 ?m3 (gen_ptr (slot_at ?cb pos)))" for pos
  proof -
    let ?o = "slot_at ?cb pos"
    have e: "even ?g" "even (load32 (mem s) (gen_ptr ?o))" using inv by (simp_all add: lossy_inv_def)
    show ?thesis
    proof (cases "?o = ?slot")
      case True
      then show ?thesis using e(1) by (simp add: mem_simps)
    next
      case False
      then have apart: "?slot + ?st \<le> ?o \<or> ?o + ?st \<le> ?slot" using slot_same_or_apart [OF cfg, of pos "of_nat ?W"] by auto
      then show ?thesis using e(2) gen_fill [of ?o ?slot ?st sz m ?m1] room len
        by (auto simp: slot_fields mem_simps)
    qed
  qed
  have "lossy_inv (pushed @ [m]) p' s'"
    using inv new old gens len sz unfolding lossy_inv_def at
    by (auto simp: res nth_append less_Suc_eq cfg_ok_def word_le_nat_alt)
  then show ?thesis using res by simp
qed

lemma u32_length:
  assumes "length m \<le> unat (mx :: u32)"
  shows "length m = unat (of_nat (length m) :: u32)" and "(of_nat (length m) :: u32) \<le> mx"
  using assms unat_lt_32 [of mx] by (simp_all add: word_le_nat_alt unat_of_nat)

lemma lossy_inv_fresh:
  assumes "fst (create cap max_msg opts env) = Inr s" and "unat max_msg \<le> 2 ^ 32 - 72"
    and "new_OverwriteProducer pid s = (p, s')"
  shows "lossy_inv [] p s'"
proof -
  have s: "s = init_segment cap max_msg (make_session_id env) (compute_shm_size cap max_msg)"
    using assms(1) by (auto simp: create_def Let_def split: if_splits)
  have "cfg_ok (ctrl s')" using create_cfg_ok [OF assms(1,2)] assms(3)
    by (auto simp: new_OverwriteProducer_def cfg_ok_def)
  moreover have "p = \<lparr> o_capacity = capacity (ctrl s), o_stride = slot_stride (ctrl s), o_max_msg = max_msg_size (ctrl s),
      o_write_pos = 0, o_read_cache = 0 \<rparr>" and "s' = s\<lparr>ctrl := (ctrl s)\<lparr>producer_pid := pid\<rparr>\<rparr>"
    using assms(3) by (simp_all add: new_OverwriteProducer_def s init_segment_def)
  moreover have "load32 (\<lambda>_. 0) a = 0" for a by (simp add: load32_def read_bytes_def le32_of_def numeral_eq_Suc)
  ultimately show ?thesis by (simp add: lossy_inv_def s init_segment_def)
qed

lemma lossy_inv_read_pos: "lossy_inv pushed p s \<Longrightarrow> lossy_inv pushed p (s\<lparr>ctrl := (ctrl s)\<lparr>read_pos := r\<rparr>\<rparr>)"
  by (simp add: lossy_inv_def slot_at_def cfg_ok_def)

text \<open>A call that nothing disturbs only moves the consumer.\<close>

lemma try_pop_lossy_inv:
  assumes "lossy_inv pushed p s" and "try_pop_lossy buf n undisturbed c s = (k, lost, out, c', s')"
  shows "lossy_inv pushed p s'"
  using assms lossy_inv_read_pos [OF assms(1)]
  by (auto simp: try_pop_lossy_def Let_def undisturbed_def split: if_splits)

section \<open>What a pop returns\<close>

text \<open>
  Position \<open>r\<close> shares its slot with the last position \<open>newest cap r w\<close> that was written to it before
  \<open>w\<close>: the consumer reads that message.
\<close>

definition newest :: "nat \<Rightarrow> nat \<Rightarrow> nat \<Rightarrow> nat" where
  "newest cap r w = r + cap * ((w - 1 - r) div cap)"

lemma newest_bounds:
  assumes "r < w" and "0 < cap"
  shows "newest cap r w < w" and "w \<le> newest cap r w + cap" and "newest cap r w mod cap = r mod cap"
    and "w \<le> r + cap \<Longrightarrow> newest cap r w = r" and "r + cap < w \<Longrightarrow> r < newest cap r w"
proof -
  let ?d = "w - 1 - r"
  have eq: "cap * (?d div cap) + ?d mod cap = ?d" and lt: "?d mod cap < cap" using assms(2) by simp_all
  show "newest cap r w < w" using eq assms(1) unfolding newest_def by linarith
  show "w \<le> newest cap r w + cap" using eq lt assms(1) unfolding newest_def by linarith
  show "newest cap r w mod cap = r mod cap" by (simp add: newest_def)
  show "newest cap r w = r" if "w \<le> r + cap" using that assms by (simp add: newest_def)
  show "r < newest cap r w" if "r + cap < w"
    using that assms by (simp add: newest_def div_greater_zero_iff)
qed

lemma slot_at_newest:
  assumes "cfg_ok cb" and "r < w" and "w < 2 ^ 64"
  shows "slot_at cb (of_nat (newest (unat (capacity cb)) r w)) = slot_at cb (of_nat r)"
proof -
  from assms(1) obtain k where k: "unat (capacity cb) = 2 ^ k" "k < 32" by (rule cfg_okE)
  have n: "newest (2 ^ k) r w < w" "newest (2 ^ k) r w mod 2 ^ k = r mod 2 ^ k"
    using newest_bounds [OF assms(2), of "2 ^ k"] by simp_all
  then have "unat (of_nat (newest (2 ^ k) r w) :: u64) = newest (2 ^ k) r w" "unat (of_nat r :: u64) = r"
    using assms by (simp_all add: unat_of_nat)
  then show ?thesis using n by (simp add: slot_at_def slot_ptr_eq [OF k] k)
qed

text \<open>The consumer of a lossy ring: it stands at message \<open>r\<close> and last saw \<open>w\<close> messages.\<close>

definition lossy_consumer :: "nat \<Rightarrow> nat \<Rightarrow> Consumer \<Rightarrow> segment \<Rightarrow> bool" where
  "lossy_consumer r w c s \<longleftrightarrow> c_capacity c = capacity (ctrl s) \<and> c_stride c = slot_stride (ctrl s) \<and>
     c_max_msg c = max_msg_size (ctrl s) \<and> c_read_pos c = of_nat r \<and> c_write_cache c = of_nat w \<and> r \<le> w"

lemma lossy_lap:
  assumes "r \<le> w" and "w < 2 ^ 64"
  shows "ucast (cap :: u32) < (of_nat w - of_nat r :: u64) \<longleftrightarrow> unat cap < w - r"
    and "(of_nat r :: u64) = of_nat w \<longleftrightarrow> r = w"
proof -
  have "(of_nat w - of_nat r :: u64) = of_nat (w - r)" using assms by (simp add: of_nat_diff)
  moreover have "unat (of_nat (w - r) :: u64) = w - r" using assms(2) by (simp only: unat_of_nat) simp
  ultimately have "unat (of_nat w - of_nat r :: u64) = w - r" by metis
  then show "ucast cap < (of_nat w - of_nat r :: u64) \<longleftrightarrow> unat cap < w - r" by (simp add: word_less_nat_alt)
  have "unat (of_nat r :: u64) = r" "unat (of_nat w :: u64) = w" using assms by (simp_all add: unat_of_nat)
  then show "(of_nat r :: u64) = of_nat w \<longleftrightarrow> r = w" by metis
qed

lemma lossy_read:
  assumes inv: "lossy_inv pushed p s" and c: "lossy_consumer r w c s" and r: "r < length pushed" "length pushed < 2 ^ 64"
  shows "even (load32 (mem s) (gen_ptr (c_slot c)))"
    and "slot_msg (mem s) (c_slot c) = pushed ! newest (unat (capacity (ctrl s))) r (length pushed)"
proof -
  let ?n = "newest (unat (capacity (ctrl s))) r (length pushed)"
  have cfg: "cfg_ok (ctrl s)" using inv by (simp add: lossy_inv_def)
  then have cap: "0 < unat (capacity (ctrl s))" by (auto elim: cfg_okE)
  have "c_slot c = slot_at (ctrl s) (of_nat r)" using c by (simp add: c_slot_def slot_at_def lossy_consumer_def)
  also have "\<dots> = slot_at (ctrl s) (of_nat ?n)" using slot_at_newest [OF cfg r] by simp
  finally have slot: "c_slot c = slot_at (ctrl s) (of_nat ?n)" .
  show "even (load32 (mem s) (gen_ptr (c_slot c)))" using inv unfolding slot by (simp add: lossy_inv_def)
  show "slot_msg (mem s) (c_slot c) = pushed ! ?n"
    using inv newest_bounds(1,2) [OF r(1) cap] unfolding slot by (simp add: lossy_inv_def)
qed

text \<open>An undisturbed pop in positions: the wrapped comparisons of the code are comparisons of numbers.\<close>

lemma try_pop_lossy_eq:
  fixes w' :: nat and c :: Consumer
  defines "c0 \<equiv> c\<lparr>c_write_cache := of_nat w'\<rparr>"
  assumes inv: "lossy_inv pushed p s" and cons: "lossy_consumer r w c s" and w: "w \<le> length pushed"
    and len: "length pushed < 2 ^ 64" and w': "w' = (if r = w then length pushed else w)"
  shows "try_pop_lossy buf n undisturbed c s =
    (if r = w' then (0, False, buf, c0, s)
     else if unat (capacity (ctrl s)) < w' - r
     then (0, True, buf, c0\<lparr>c_read_pos := of_nat (w' - unat (capacity (ctrl s)))\<rparr>,
           s\<lparr>ctrl := (ctrl s)\<lparr>read_pos := of_nat (w' - unat (capacity (ctrl s)))\<rparr>\<rparr>)
     else case pop_slot buf n c0 s of (k, out, c', s') \<Rightarrow> (k, False, out, c', s'))"
    and "lossy_consumer r w' c0 s"
proof -
  have rw: "r \<le> w'" "w' < 2 ^ 64" "w' \<le> length pushed" using cons w len w' by (simp_all add: lossy_consumer_def)
  show c0: "lossy_consumer r w' c0 s" using cons rw by (simp add: lossy_consumer_def c0_def)
  have cw: "r \<le> w" "w < 2 ^ 64" using cons w len by (simp_all add: lossy_consumer_def)
  have fresh: "(if c_read_pos c = c_write_cache c then c\<lparr>c_write_cache := write_pos (ctrl s)\<rparr> else c) = c0"
    using cons inv lossy_lap(2) [OF cw] w' by (auto simp: lossy_consumer_def lossy_inv_def c0_def)
  have tests: "c_read_pos c0 = c_write_cache c0 \<longleftrightarrow> r = w'"
    "ucast (c_capacity c0) < c_write_cache c0 - c_read_pos c0 \<longleftrightarrow> unat (capacity (ctrl s)) < w' - r"
    using c0 lossy_lap(1) [OF rw(1,2), of "capacity (ctrl s)"] lossy_lap(2) [OF rw(1,2)] by (simp_all add: lossy_consumer_def)
  have ahead: "c_write_cache c0 - ucast (c_capacity c0) = of_nat (w' - unat (capacity (ctrl s)))"
    if "unat (capacity (ctrl s)) < w' - r"
    using that c0 by (simp add: lossy_consumer_def of_nat_diff)
  have "load32 (mem s) (gen_ptr (c_slot c0)) AND 1 = 0" if "r \<noteq> w'"
    using lossy_read(1) [OF inv c0] that rw len by (simp add: and_one_eq even_iff_mod_2_eq_zero)
  then show "try_pop_lossy buf n undisturbed c s =
    (if r = w' then (0, False, buf, c0, s)
     else if unat (capacity (ctrl s)) < w' - r
     then (0, True, buf, c0\<lparr>c_read_pos := of_nat (w' - unat (capacity (ctrl s)))\<rparr>,
           s\<lparr>ctrl := (ctrl s)\<lparr>read_pos := of_nat (w' - unat (capacity (ctrl s)))\<rparr>\<rparr>)
     else case pop_slot buf n c0 s of (k, out, c', s') \<Rightarrow> (k, False, out, c', s'))"
    unfolding try_pop_lossy_def fresh by (simp add: Let_def tests ahead undisturbed_def pop_slot_def)
qed

lemma pop_slot_lossy:
  assumes inv: "lossy_inv pushed p s" and c: "lossy_consumer r w c s" and r: "r < length pushed" "length pushed < 2 ^ 64"
    and n: "max_msg_size (ctrl s) \<le> n" and pop: "pop_slot buf n c s = (k, out, c', s')" and rw: "r < w"
  defines "m \<equiv> pushed ! newest (unat (capacity (ctrl s))) r (length pushed)"
  shows "unat k = length m" and "take (unat k) out = m" and "lossy_consumer (Suc r) w c' s'"
proof -
  have cap: "0 < unat (capacity (ctrl s))" using inv by (auto simp: lossy_inv_def elim: cfg_okE)
  have slot: "slot_msg (mem s) (c_slot c) = m" using lossy_read(2) [OF inv c r] by (simp add: m_def)
  have k: "k = load32 (mem s) (size_ptr (c_slot c))" using pop by (simp add: pop_slot_def Let_def)
  show len: "unat k = length m" by (simp add: k flip: slot slot_len_def)
  have "m \<in> set pushed" using newest_bounds(1) [OF r(1) cap] by (simp add: m_def)
  then have "unat k \<le> unat n" using inv n len by (auto simp: lossy_inv_def word_le_nat_alt)
  then have "out = copy_out (mem s) (c_slot c) k buf"
    using pop by (auto simp: pop_slot_def Let_def k not_less copy_out_def word_less_nat_alt)
  then show "take (unat k) out = m" by (simp add: copy_out_def slot_msg_def slot_len_def k flip: slot)
  show "lossy_consumer (Suc r) w c' s'" using pop c rw by (auto simp: pop_slot_def Let_def lossy_consumer_def algebra_simps)
qed

text \<open>The cases of a pop: \<open>w'\<close> is the cached write position after the call's refresh.\<close>

lemma lossy_pop_cases:
  assumes "lossy_inv pushed p s" and "lossy_consumer r w c s" and "w \<le> length pushed" and "length pushed < 2 ^ 64"
    and "max_msg_size (ctrl s) \<le> n" and "try_pop_lossy buf n undisturbed c s = (k, lost, out, c', s')"
    and "w' = (if r = w then length pushed else w)" and "cap = unat (capacity (ctrl s))"
  shows "(r = w' \<longrightarrow> k = 0 \<and> \<not> lost \<and> out = buf \<and> lossy_consumer r w' c' s' \<and> s' = s) \<and>
    (cap < w' - r \<longrightarrow> k = 0 \<and> lost \<and> out = buf \<and> lossy_consumer (w' - cap) w' c' s') \<and>
    (r < w' \<and> w' - r \<le> cap \<longrightarrow>
      unat k = length (pushed ! newest cap r (length pushed)) \<and> take (unat k) out = pushed ! newest cap r (length pushed) \<and>
      \<not> lost \<and> lossy_consumer (Suc r) w' c' s' \<and>
      (newest cap r (length pushed) = r \<longleftrightarrow> length pushed - r \<le> cap))"
proof -
  note eq = try_pop_lossy_eq(1) [OF assms(1-4,7), of buf n, unfolded assms(6)] try_pop_lossy_eq(2) [OF assms(1-4,7)]
  have w': "w' \<le> length pushed" "0 < cap"
    using assms(1,3,7,8) by (auto simp: lossy_inv_def elim: cfg_okE)
  have "newest cap r (length pushed) = r \<longleftrightarrow> length pushed - r \<le> cap" if "r < w'"
    using newest_bounds(4,5) [of r "length pushed" cap] that w' by fastforce
  moreover have "k = 0 \<and> lost \<and> out = buf \<and> lossy_consumer (w' - cap) w' c' s'" if "cap < w' - r"
  proof -
    have "r \<noteq> w'" using that by auto
    then show ?thesis using eq that assms(8) by (auto simp: lossy_consumer_def)
  qed
  moreover have "unat k = length (pushed ! newest cap r (length pushed))" "\<not> lost" "lossy_consumer (Suc r) w' c' s'"
      "take (unat k) out = pushed ! newest cap r (length pushed)" if "r < w'" "w' - r \<le> cap"
    using pop_slot_lossy [OF assms(1) eq(2) _ assms(4,5)] eq(1) that w' assms(8) by (auto split: prod.splits)
  moreover have "k = 0 \<and> \<not> lost \<and> out = buf \<and> lossy_consumer r w' c' s' \<and> s' = s" if "r = w'"
    using eq that by simp
  ultimately show ?thesis by blast
qed

subsection \<open>Any history of pushes and pops\<close>

datatype lossy_op = LPush bytes | LPop bytes u32

fun lossy_run :: "lossy_op list \<Rightarrow> OverwriteProducer \<times> Consumer \<times> segment \<Rightarrow> OverwriteProducer \<times> Consumer \<times> segment" where
  "lossy_run [] b = b"
| "lossy_run (LPush m # xs) (p, c, s) =
     (case ow_push m (of_nat (length m)) p s of (ok, p', s') \<Rightarrow> lossy_run xs (p', c, s'))"
| "lossy_run (LPop buf n # xs) (p, c, s) =
     (case try_pop_lossy buf n undisturbed c s of (k, lost, out, c', s') \<Rightarrow> lossy_run xs (p, c', s'))"

fun pushes :: "lossy_op list \<Rightarrow> bytes list" where
  "pushes [] = []"
| "pushes (LPush m # xs) = m # pushes xs"
| "pushes (LPop buf n # xs) = pushes xs"

definition lossy_sys :: "bytes list \<Rightarrow> OverwriteProducer \<times> Consumer \<times> segment \<Rightarrow> bool" where
  "lossy_sys pushed b = (case b of (p, c, s) \<Rightarrow>
     lossy_inv pushed p s \<and> (\<exists>r w. lossy_consumer r w c s \<and> w \<le> length pushed))"

lemma lossy_consumer_cong:
  assumes "capacity (ctrl s') = capacity (ctrl s)" and "slot_stride (ctrl s') = slot_stride (ctrl s)"
    and "max_msg_size (ctrl s') = max_msg_size (ctrl s)"
  shows "lossy_consumer r w c s' \<longleftrightarrow> lossy_consumer r w c s"
  using assms by (simp add: lossy_consumer_def)

lemma try_pop_lossy_position:
  assumes "lossy_inv pushed p s" and "lossy_consumer r w c s" and "w \<le> length pushed" and "length pushed < 2 ^ 64"
    and "try_pop_lossy buf n undisturbed c s = (k, lost, out, c', s')"
  shows "\<exists>r' w'. lossy_consumer r' w' c' s' \<and> w' \<le> length pushed"
proof -
  define w' where "w' = (if r = w then length pushed else w)"
  define c0 where "c0 = c\<lparr>c_write_cache := of_nat w'\<rparr>"
  note eq = try_pop_lossy_eq(1) [OF assms(1-4) w'_def, of buf n, unfolded assms(5), folded c0_def]
  note c0 = try_pop_lossy_eq(2) [OF assms(1-4) w'_def, folded c0_def]
  have le: "w' \<le> length pushed" using assms(3) by (simp add: w'_def)
  consider "r = w'" | "r \<noteq> w'" "unat (capacity (ctrl s)) < w' - r" | "r \<noteq> w'" "\<not> unat (capacity (ctrl s)) < w' - r" by blast
  then show ?thesis
  proof cases
    case 1
    then show ?thesis using eq c0 le by auto
  next
    case 2
    then have "lossy_consumer (w' - unat (capacity (ctrl s))) w' c' s'" using eq c0 by (auto simp: lossy_consumer_def)
    then show ?thesis using le by blast
  next
    case 3
    then have "lossy_consumer (Suc r) w' c' s'"
      using eq c0 by (auto simp: pop_slot_def Let_def lossy_consumer_def algebra_simps)
    then show ?thesis using le by blast
  qed
qed

lemma lossy_run_sys:
  assumes "lossy_sys pushed (p, c, s)" and "length pushed + length (pushes xs) < 2 ^ 64"
    and "\<forall>m\<in>set (pushes xs). length m \<le> unat (max_msg_size (ctrl s))" and "lossy_run xs (p, c, s) = (p', c', s')"
  shows "lossy_sys (pushed @ pushes xs) (p', c', s') \<and> max_msg_size (ctrl s') = max_msg_size (ctrl s) \<and> capacity (ctrl s') = capacity (ctrl s)"
  using assms
proof (induction xs arbitrary: pushed p c s)
  case Nil
  then show ?case by simp
next
  case (Cons x xs)
  obtain r w where sys: "lossy_inv pushed p s" "lossy_consumer r w c s" "w \<le> length pushed"
    using Cons.prems(1) by (auto simp: lossy_sys_def)
  show ?case
  proof (cases x)
    case (LPush m)
    obtain ok p1 s1 where push: "ow_push m (of_nat (length m)) p s = (ok, p1, s1)" by (cases "ow_push m (of_nat (length m)) p s")
    have m: "length m \<le> unat (max_msg_size (ctrl s))" using Cons.prems(3) LPush by simp
    note step = ow_push_inv [OF sys(1) u32_length [OF m] push]
    have "lossy_sys (pushed @ [m]) (p1, c, s1)"
      using step sys(2,3) lossy_consumer_cong [of s1 s r w c] by (auto simp: lossy_sys_def intro: le_SucI)
    then show ?thesis using Cons.IH [of "pushed @ [m]" p1 c s1] Cons.prems push LPush step by auto
  next
    case (LPop buf n)
    obtain k lost out c1 s1 where pop: "try_pop_lossy buf n undisturbed c s = (k, lost, out, c1, s1)" by (metis prod_cases5)
    have "lossy_sys pushed (p, c1, s1)"
      using try_pop_lossy_inv [OF sys(1) pop] try_pop_lossy_position [OF sys _ pop] Cons.prems(2) LPop
      by (auto simp: lossy_sys_def)
    moreover have "max_msg_size (ctrl s1) = max_msg_size (ctrl s)" "capacity (ctrl s1) = capacity (ctrl s)"
      using pop by (auto simp: try_pop_lossy_def Let_def undisturbed_def split: if_splits)
    ultimately show ?thesis using Cons.IH [of pushed p c1 s1] Cons.prems pop LPop by auto
  qed
qed

lemma fresh_lossy:
  assumes "fst (create cap max_msg opts env) = Inr s0" and "unat max_msg \<le> 2 ^ 32 - 72"
    and "new_OverwriteProducer ppid s0 = (p, s1)" and "new_Consumer cpid s1 = (c, s)"
  shows "lossy_sys [] (p, c, s) \<and> max_msg_size (ctrl s) = max_msg \<and> capacity (ctrl s) = cap"
proof -
  have s0: "s0 = init_segment cap max_msg (make_session_id env) (compute_shm_size cap max_msg)"
    using assms(1) by (auto simp: create_def Let_def split: if_splits)
  have s: "s = s1\<lparr>ctrl := (ctrl s1)\<lparr>consumer_pid := cpid\<rparr>\<rparr>" using assms(4) by (auto simp: new_Consumer_def)
  have s1: "s1 = s0\<lparr>ctrl := (ctrl s0)\<lparr>producer_pid := ppid\<rparr>\<rparr>" using assms(3) by (auto simp: new_OverwriteProducer_def)
  have "lossy_inv [] p s"
    using lossy_inv_fresh [OF assms(1-3)] by (simp add: s lossy_inv_def slot_at_def cfg_ok_def)
  moreover have "lossy_consumer 0 0 c s"
    using assms(4) by (auto simp: new_Consumer_def lossy_consumer_def s s1 s0 init_segment_def)
  ultimately show ?thesis by (auto simp: lossy_sys_def s s1 s0 init_segment_def)
qed

section \<open>Properties\<close>

text \<open>
  C33. What a pop of the lossy ring returns after any history of pushes and pops that do not
  overlap. The consumer stands at message \<open>r\<close> and takes \<open>w\<close> for the number of messages pushed, a value it
  refreshes only when it has reached it. An empty ring gives 0; a consumer more than a capacity behind
  \<open>w\<close> is moved to the oldest message it knows of and told of the loss; otherwise it gets the newest message of
  its slot with no loss reported, which is the next message in order exactly when it was not lapped.
\<close>

theorem lossy_pop_returns:
  assumes "fst (create cap max_msg opts env) = Inr s0" and "unat max_msg \<le> 2 ^ 32 - 72"
    and "new_OverwriteProducer ppid s0 = (p0, s1)" and "new_Consumer cpid s1 = (c0, s2)"
    and "lossy_run history (p0, c0, s2) = (p, c, s)" and "\<forall>m\<in>set (pushes history). length m \<le> unat max_msg"
    and "length (pushes history) < 2 ^ 64" and "max_msg \<le> n"
    and "try_pop_lossy buf n undisturbed c s = (k, lost, out, c', s')"
    and "r = unat (c_read_pos c)"
    and "w = unat (if c_read_pos c = c_write_cache c then write_pos (ctrl s) else c_write_cache c)"
    and "i = newest (unat cap) r (length (pushes history))"
  shows "r \<le> w \<and> w \<le> length (pushes history) \<and> unat (c_write_cache c') = w \<and>
    (r = w \<longrightarrow> k = 0 \<and> \<not> lost \<and> out = buf \<and> unat (c_read_pos c') = r) \<and>
    (unat cap < w - r \<longrightarrow> k = 0 \<and> lost \<and> out = buf \<and> unat (c_read_pos c') = w - unat cap) \<and>
    (r < w \<and> w - r \<le> unat cap \<longrightarrow>
       unat k = length (pushes history ! i) \<and> take (unat k) out = pushes history ! i \<and> \<not> lost \<and>
       unat (c_read_pos c') = Suc r \<and> (i = r \<longleftrightarrow> length (pushes history) - r \<le> unat cap))"
proof -
  have run: "lossy_sys (pushes history) (p, c, s)" "max_msg_size (ctrl s) = max_msg" "capacity (ctrl s) = cap"
    using lossy_run_sys [of "[]" p0 c0 s2 history p c s] fresh_lossy [OF assms(1-4)] assms(5-7) by auto
  then obtain r0 w0 where cons: "lossy_inv (pushes history) p s" "lossy_consumer r0 w0 c s" "w0 \<le> length (pushes history)"
    by (auto simp: lossy_sys_def)
  have num: "unat (of_nat j :: u64) = j" if "j \<le> length (pushes history)" for j
    using that assms(7) by (simp only: unat_of_nat) simp
  have r0: "r0 = r" "unat (c_write_cache c) = w0" "unat (write_pos (ctrl s)) = length (pushes history)" "r0 \<le> w0"
    using cons num assms(10) by (auto simp: lossy_consumer_def lossy_inv_def)
  then have "c_read_pos c = c_write_cache c \<longleftrightarrow> r0 = w0" using assms(10) by (metis word_unat_eq_iff)
  then have w: "w = (if r0 = w0 then length (pushes history) else w0)" using assms(11) r0 by simp
  have bounds: "r \<le> w" "w \<le> length (pushes history)" using w r0 cons(3) by auto
  note cases = lossy_pop_cases [OF cons assms(7) _ assms(9) w refl, unfolded run(2,3) r0(1), OF assms(8)]
  have pos: "unat (c_read_pos c') = j \<and> unat (c_write_cache c') = w" if "lossy_consumer j w c' s'" for j
    using that num bounds by (simp add: lossy_consumer_def)
  consider "r = w" | "unat cap < w - r" | "r < w" "w - r \<le> unat cap" using bounds by linarith
  then show ?thesis
    by cases (use cases pos bounds assms(12) in auto)
qed

text \<open>
  The sample: a ring of two slots; A and B are pushed, A is popped, and C and D overwrite both slots. The
  next pop returns D and reports no loss.
\<close>

definition lossy_history :: "lossy_op list" where
  "lossy_history = [LPush [65], LPush [66], LPop (replicate 8 0) 8, LPush [67], LPush [68]]"

definition lossy_start :: "OverwriteProducer \<times> Consumer \<times> segment" where
  "lossy_start = (case new_OverwriteProducer 7 sample_segment of (p, s) \<Rightarrow> case new_Consumer 8 s of (c, s) \<Rightarrow> (p, c, s))"

lemma lossy_run_append: "lossy_run (xs @ ys) b = lossy_run ys (lossy_run xs b)"
  by (induction xs b rule: lossy_run.induct) (auto split: prod.splits)

lemma lossy_run_pushes: "lossy_run (map LPush ms) (p, c, s) = (p', c', s') \<Longrightarrow> c' = c"
  by (induction ms arbitrary: p s) (auto split: prod.splits)

lemma lossy_history_end:
  "case lossy_run lossy_history lossy_start of (p, c, s) \<Rightarrow> c_read_pos c = 1 \<and> c_write_cache c = 2"
proof -
  let ?ab = "map LPush [[65], [66]]" let ?cd = "map LPush [[67], [68]]"
  obtain p0 s1 where p0: "new_OverwriteProducer 7 sample_segment = (p0, s1)" by fastforce
  obtain c0 s0 where c0: "new_Consumer 8 s1 = (c0, s0)" by fastforce
  obtain p c s where ab: "lossy_run ?ab (p0, c0, s0) = (p, c, s)" by (metis prod_cases3)
  obtain k lost out c' s' where pop: "try_pop_lossy (replicate 8 0) 8 undisturbed c s = (k, lost, out, c', s')" by (metis prod_cases5)
  obtain p2 c2 s2 where cd: "lossy_run ?cd (p, c', s') = (p2, c2, s2)" by (metis prod_cases3)
  have fresh: "lossy_sys [] (p0, c0, s0)" "max_msg_size (ctrl s0) = 8" "capacity (ctrl s0) = 2"
    using fresh_lossy [OF sample_create _ p0 c0] by simp_all
  then have "lossy_sys [[65], [66]] (p, c, s) \<and> max_msg_size (ctrl s) = 8 \<and> capacity (ctrl s) = 2"
    using lossy_run_sys [of "[]" p0 c0 s0 ?ab p c s] ab by simp
  then have inv: "lossy_inv [[65], [66]] p s" "max_msg_size (ctrl s) = 8" "capacity (ctrl s) = 2"
    and "\<exists>r w. lossy_consumer r w c s" by (auto simp: lossy_sys_def)
  moreover have "c_read_pos c = 0" "c_write_cache c = 0"
    using c0 p0 lossy_run_pushes [OF ab]
    by (auto simp: new_Consumer_def new_OverwriteProducer_def sample_segment_def init_segment_def)
  ultimately have "lossy_consumer 0 0 c s" by (auto simp: lossy_consumer_def)
  then have "lossy_consumer 1 2 c' s'"
    using lossy_pop_cases [OF inv(1) _ _ _ _ pop refl refl, of 0 0] inv(2,3) by (simp flip: numeral_2_eq_2)
  moreover have "c2 = c'" by (rule lossy_run_pushes [OF cd])
  moreover have "lossy_run lossy_history lossy_start = (p2, c2, s2)"
  proof -
    have hist: "lossy_history = ?ab @ LPop (replicate 8 0) 8 # ?cd" by (simp add: lossy_history_def)
    have start: "lossy_start = (p0, c0, s0)" by (simp add: lossy_start_def p0 c0)
    show ?thesis unfolding hist start lossy_run_append ab lossy_run.simps pop prod.case cd ..
  qed
  ultimately show ?thesis by (simp add: lossy_consumer_def)
qed

theorem lossy_pop_returns_witness:
  "case lossy_run lossy_history lossy_start of (p, c, s) \<Rightarrow>
     \<exists>k out c' s'. try_pop_lossy (replicate 8 0) 8 undisturbed c s = (k, False, out, c', s') \<and>
       take (unat k) out = [68] \<and> unat (c_read_pos c') = 2"
proof -
  obtain p0 s1 where p0: "new_OverwriteProducer 7 sample_segment = (p0, s1)" by fastforce
  obtain c0 s2 where c0: "new_Consumer 8 s1 = (c0, s2)" by fastforce
  have start: "lossy_start = (p0, c0, s2)" by (simp add: lossy_start_def p0 c0)
  obtain p c s where run: "lossy_run lossy_history (p0, c0, s2) = (p, c, s)" by (metis prod_cases3)
  have at: "c_read_pos c = 1" "c_write_cache c = 2" using lossy_history_end by (simp_all add: start run)
  obtain k lost out c' s' where pop: "try_pop_lossy (replicate 8 0) 8 undisturbed c s = (k, lost, out, c', s')"
    by (metis prod_cases5)
  have hist: "pushes lossy_history = [[65], [66], [67], [68]]" by (simp add: lossy_history_def)
  have "take (unat k) out = [68] \<and> \<not> lost \<and> unat (c_read_pos c') = 2"
    using lossy_pop_returns [OF sample_create _ p0 c0 run _ _ _ pop refl refl refl] unfolding hist
    by (auto simp: at newest_def simp flip: numeral_2_eq_2)
  moreover from this have "lost = False" by simp
  ultimately have "\<exists>k out c' s'. try_pop_lossy (replicate 8 0) 8 undisturbed c s = (k, False, out, c', s') \<and>
       take (unat k) out = [68] \<and> unat (c_read_pos c') = 2" using pop by blast
  then show ?thesis by (simp only: start run prod.case)
qed

end
