(* ===== verification/Spsc_Seqlock.thy ===== *)
theory Spsc_Seqlock
  imports Spsc_Lossy Spsc_Concurrent Transitions
begin

text \<open>
  The overwriting producer and the lossy consumer running at the same time. A step is one access to the
  shared memory: a load or store of a position or of a generation, the store or load of a size,
  one byte of a \<open>memcpy\<close>. Accesses take effect in program order, as on a processor that keeps stores
  and loads in order; a load of the write position may return any value published since the last load. It is
  shown that the generation protects the reader: what a pop returns is one whole message.
\<close>

section \<open>Steps\<close>

datatype ow_pc = OIdle | OMark bytes | OSize bytes u32 | OCopy bytes nat u32 | OPublish

text \<open>The consumer keeps the generation it read first and, as a ghost, the number of messages committed then.\<close>

datatype lc_pc = LIdle | LLoad | LLap | LGen | LSize u32 nat | LCopy u32 nat u32 bytes | LStore nat nat u32 bytes | LReload

text \<open>
  As ghosts, the messages whose generation has been committed, and the messages popped: the position,
  the numbers of messages committed at the two readings of the generation, the size returned and the bytes copied.
\<close>

record lsys =
  lseg :: segment
  lprod :: OverwriteProducer
  lppc :: ow_pc
  lcons :: Consumer
  lcpc :: lc_pc
  lbuf :: u32
  lsent :: "bytes list"
  lrcvd :: "(nat \<times> nat \<times> nat \<times> u32 \<times> bytes) list"

definition lset_mem :: "memory \<Rightarrow> lsys \<Rightarrow> lsys" where
  "lset_mem m \<sigma> = \<sigma>\<lparr>lseg := (lseg \<sigma>)\<lparr>mem := m\<rparr>\<rparr>"

definition lset_read :: "u64 \<Rightarrow> lsys \<Rightarrow> lsys" where
  "lset_read r \<sigma> = \<sigma>\<lparr>lseg := (lseg \<sigma>)\<lparr>ctrl := (ctrl (lseg \<sigma>))\<lparr>read_pos := r\<rparr>\<rparr>, lcons := (lcons \<sigma>)\<lparr>c_read_pos := r\<rparr>\<rparr>"

definition o_slot :: "OverwriteProducer \<Rightarrow> nat" where
  "o_slot p = slot_ptr (o_capacity p) (o_stride p) (o_write_pos p)"

definition lcopy_len :: "u32 \<Rightarrow> lsys \<Rightarrow> nat" where
  "lcopy_len sz \<sigma> = unat (if sz < lbuf \<sigma> then sz else lbuf \<sigma>)"

definition gen_of :: "lsys \<Rightarrow> nat \<Rightarrow> u32" where
  "gen_of \<sigma> slot = load32 (mem (lseg \<sigma>)) (gen_ptr slot)"

inductive lossy_step :: "lsys \<Rightarrow> lsys \<Rightarrow> bool" where
  o_reject: "\<lbrakk> lppc \<sigma> = OIdle; length (m :: bytes) < 2 ^ 32; o_max_msg (lprod \<sigma>) < of_nat (length m) \<rbrakk>
    \<Longrightarrow> lossy_step \<sigma> \<sigma>"
| o_begin: "\<lbrakk> lppc \<sigma> = OIdle; length m < 2 ^ 32; \<not> o_max_msg (lprod \<sigma>) < of_nat (length m) \<rbrakk>
    \<Longrightarrow> lossy_step \<sigma> (\<sigma>\<lparr>lppc := OMark m\<rparr>)"
| o_mark: "\<lbrakk> lppc \<sigma> = OMark m; g = gen_of \<sigma> (o_slot (lprod \<sigma>)) \<rbrakk>
    \<Longrightarrow> lossy_step \<sigma> ((lset_mem (store32 (mem (lseg \<sigma>)) (gen_ptr (o_slot (lprod \<sigma>))) (g + 1)) \<sigma>)\<lparr>lppc := OSize m g\<rparr>)"
| o_size: "lppc \<sigma> = OSize m g
    \<Longrightarrow> lossy_step \<sigma> ((lset_mem (store32 (mem (lseg \<sigma>)) (size_ptr (o_slot (lprod \<sigma>))) (of_nat (length m))) \<sigma>)
          \<lparr>lppc := OCopy m 0 g\<rparr>)"
| o_byte: "\<lbrakk> lppc \<sigma> = OCopy m i g; i < length m \<rbrakk>
    \<Longrightarrow> lossy_step \<sigma> ((lset_mem ((mem (lseg \<sigma>))(payload_ptr (o_slot (lprod \<sigma>)) + i := m ! i)) \<sigma>)
          \<lparr>lppc := OCopy m (Suc i) g\<rparr>)"
| o_commit: "lppc \<sigma> = OCopy m (length m) g
    \<Longrightarrow> lossy_step \<sigma> ((lset_mem (store32 (mem (lseg \<sigma>)) (gen_ptr (o_slot (lprod \<sigma>))) (g + 2)) \<sigma>)
          \<lparr>lppc := OPublish, lsent := lsent \<sigma> @ [m]\<rparr>)"
| o_publish: "lppc \<sigma> = OPublish
    \<Longrightarrow> lossy_step \<sigma> (\<sigma>\<lparr>lseg := (lseg \<sigma>)\<lparr>ctrl := (ctrl (lseg \<sigma>))\<lparr>write_pos := o_write_pos (lprod \<sigma>) + 1\<rparr>\<rparr>,
          lprod := (lprod \<sigma>)\<lparr>o_write_pos := o_write_pos (lprod \<sigma>) + 1\<rparr>, lppc := OIdle\<rparr>)"
| l_fast: "\<lbrakk> lcpc \<sigma> = LIdle; c_read_pos (lcons \<sigma>) \<noteq> c_write_cache (lcons \<sigma>) \<rbrakk>
    \<Longrightarrow> lossy_step \<sigma> (\<sigma>\<lparr>lcpc := LLap\<rparr>)"
| l_slow: "\<lbrakk> lcpc \<sigma> = LIdle; c_read_pos (lcons \<sigma>) = c_write_cache (lcons \<sigma>) \<rbrakk>
    \<Longrightarrow> lossy_step \<sigma> (\<sigma>\<lparr>lcpc := LLoad\<rparr>)"
| l_load: "\<lbrakk> lcpc \<sigma> = LLoad;
      unat (v - c_write_cache (lcons \<sigma>)) \<le> unat (write_pos (ctrl (lseg \<sigma>)) - c_write_cache (lcons \<sigma>)) \<rbrakk>
    \<Longrightarrow> lossy_step \<sigma> (\<sigma>\<lparr>lcons := (lcons \<sigma>)\<lparr>c_write_cache := v\<rparr>,
          lcpc := if c_read_pos (lcons \<sigma>) = v then LIdle else LLap\<rparr>)"
| l_lapped: "\<lbrakk> lcpc \<sigma> = LLap; ucast (c_capacity (lcons \<sigma>)) < c_write_cache (lcons \<sigma>) - c_read_pos (lcons \<sigma>) \<rbrakk>
    \<Longrightarrow> lossy_step \<sigma> ((lset_read (c_write_cache (lcons \<sigma>) - ucast (c_capacity (lcons \<sigma>))) \<sigma>)\<lparr>lcpc := LIdle\<rparr>)"
| l_near: "\<lbrakk> lcpc \<sigma> = LLap; \<not> ucast (c_capacity (lcons \<sigma>)) < c_write_cache (lcons \<sigma>) - c_read_pos (lcons \<sigma>) \<rbrakk>
    \<Longrightarrow> lossy_step \<sigma> (\<sigma>\<lparr>lcpc := LGen\<rparr>)"
| l_odd: "\<lbrakk> lcpc \<sigma> = LGen; gen_of \<sigma> (c_slot (lcons \<sigma>)) AND 1 \<noteq> 0 \<rbrakk>
    \<Longrightarrow> lossy_step \<sigma> (\<sigma>\<lparr>lcpc := LIdle\<rparr>)"
| l_even: "\<lbrakk> lcpc \<sigma> = LGen; g = gen_of \<sigma> (c_slot (lcons \<sigma>)); g AND 1 = 0 \<rbrakk>
    \<Longrightarrow> lossy_step \<sigma> (\<sigma>\<lparr>lcpc := LSize g (length (lsent \<sigma>))\<rparr>)"
| l_size: "lcpc \<sigma> = LSize g w
    \<Longrightarrow> lossy_step \<sigma> (\<sigma>\<lparr>lcpc := LCopy g w (load32 (mem (lseg \<sigma>)) (size_ptr (c_slot (lcons \<sigma>)))) []\<rparr>)"
| l_byte: "\<lbrakk> lcpc \<sigma> = LCopy g w sz acc; length acc < lcopy_len sz \<sigma> \<rbrakk>
    \<Longrightarrow> lossy_step \<sigma> (\<sigma>\<lparr>lcpc := LCopy g w sz (acc @ [mem (lseg \<sigma>) (payload_ptr (c_slot (lcons \<sigma>)) + length acc)])\<rparr>)"
| l_same: "\<lbrakk> lcpc \<sigma> = LCopy g w sz acc; length acc = lcopy_len sz \<sigma>; gen_of \<sigma> (c_slot (lcons \<sigma>)) = g \<rbrakk>
    \<Longrightarrow> lossy_step \<sigma> (\<sigma>\<lparr>lcpc := LStore w (length (lsent \<sigma>)) sz acc\<rparr>)"
| l_differs: "\<lbrakk> lcpc \<sigma> = LCopy g w sz acc; length acc = lcopy_len sz \<sigma>; gen_of \<sigma> (c_slot (lcons \<sigma>)) \<noteq> g \<rbrakk>
    \<Longrightarrow> lossy_step \<sigma> (\<sigma>\<lparr>lcpc := LReload\<rparr>)"
| l_reload: "\<lbrakk> lcpc \<sigma> = LReload;
      unat (v - c_write_cache (lcons \<sigma>)) \<le> unat (write_pos (ctrl (lseg \<sigma>)) - c_write_cache (lcons \<sigma>));
      r = (if ucast (c_capacity (lcons \<sigma>)) < v then v - ucast (c_capacity (lcons \<sigma>)) else v) \<rbrakk>
    \<Longrightarrow> lossy_step \<sigma> ((lset_read r (\<sigma>\<lparr>lcons := (lcons \<sigma>)\<lparr>c_write_cache := v\<rparr>\<rparr>))\<lparr>lcpc := LIdle\<rparr>)"
| l_store: "lcpc \<sigma> = LStore w w' sz acc
    \<Longrightarrow> lossy_step \<sigma> ((lset_read (c_read_pos (lcons \<sigma>) + 1) \<sigma>)
          \<lparr>lcpc := LIdle, lrcvd := lrcvd \<sigma> @ [(unat (c_read_pos (lcons \<sigma>)), w, w', sz, acc)]\<rparr>)"

definition lossy_init :: "segment \<Rightarrow> u32 \<Rightarrow> u32 \<Rightarrow> u32 \<Rightarrow> lsys" where
  "lossy_init s pid_p pid_c n =
     (case new_OverwriteProducer pid_p s of (p, s1) \<Rightarrow> case new_Consumer pid_c s1 of (c, s2) \<Rightarrow>
       \<lparr> lseg = s2, lprod = p, lppc = OIdle, lcons = c, lcpc = LIdle, lbuf = n, lsent = [], lrcvd = [] \<rparr>)"

section \<open>How often a slot has been written\<close>

definition writes :: "nat \<Rightarrow> nat \<Rightarrow> nat \<Rightarrow> nat" where
  "writes cap r w = card {i. i < w \<and> i mod cap = r mod cap}"

lemma writes_0 [simp]: "writes cap r 0 = 0"
  by (simp add: writes_def)

lemma writes_Suc: "writes cap r (Suc w) = writes cap r w + (if w mod cap = r mod cap then 1 else 0)"
proof -
  have "{i. i < Suc w \<and> i mod cap = r mod cap}
      = (if w mod cap = r mod cap then insert w {i. i < w \<and> i mod cap = r mod cap} else {i. i < w \<and> i mod cap = r mod cap})"
    by (auto simp: less_Suc_eq)
  then show ?thesis by (simp add: writes_def)
qed

lemma writes_add: "writes cap r w \<le> writes cap r (w + n) \<and> writes cap r (w + n) \<le> writes cap r w + n"
  by (induction n) (auto simp: writes_Suc)

lemma writes_mono: "w \<le> w' \<Longrightarrow> writes cap r w \<le> writes cap r w'"
  using writes_add [of cap r w "w' - w"] by simp

text \<open>As long as the number of writes stays the same, the newest message of the slot does.\<close>

lemma newest_unique:
  assumes "r < w" "0 < cap" "j < w" "w \<le> j + cap" "j mod cap = r mod cap"
  shows "newest cap r w = j"
proof -
  let ?n = "newest cap r w"
  have n: "?n < w" "w \<le> ?n + cap" "?n mod cap = r mod cap" using newest_bounds [OF assms(1,2)] by simp_all
  have eq: "x = y" if "x \<le> y" "y < x + cap" "x mod cap = y mod cap" for x y :: nat
  proof -
    have "cap dvd y - x" using that by (metis mod_eq_dvd_iff_nat)
    moreover have "y - x < cap" using that by simp
    ultimately have "y - x = 0" by (metis dvd_imp_le not_le neq0_conv)
    then show ?thesis using that(1) by simp
  qed
  show ?thesis
  proof (cases "?n \<le> j")
    case True
    then show ?thesis using eq [of ?n j] n assms by auto
  next
    case False
    then show ?thesis using eq [of j ?n] n assms by auto
  qed
qed

lemma newest_unchanged:
  assumes "r < w" "0 < cap" "w \<le> w'" "writes cap r w = writes cap r w'"
  shows "newest cap r w' = newest cap r w" and "w' \<le> newest cap r w + cap"
proof -
  let ?n = "newest cap r w"
  have n: "?n < w" "w \<le> ?n + cap" "?n mod cap = r mod cap" using newest_bounds [OF assms(1,2)] by simp_all
  show bound: "w' \<le> ?n + cap"
  proof (rule ccontr)
    assume "\<not> w' \<le> ?n + cap"
    then have "Suc (?n + cap) \<le> w'" by simp
    then have "writes cap r (Suc (?n + cap)) \<le> writes cap r w'" by (rule writes_mono)
    moreover have "writes cap r (Suc (?n + cap)) = Suc (writes cap r (?n + cap))" using n(3) by (simp add: writes_Suc)
    moreover have "writes cap r w \<le> writes cap r (?n + cap)" using n(2) by (rule writes_mono)
    ultimately show False using assms(4) by simp
  qed
  show "newest cap r w' = ?n"
    by (rule newest_unique) (use assms n bound in auto)
qed

section \<open>The invariant\<close>

abbreviation lcb :: "lsys \<Rightarrow> ControlBlock" where "lcb \<sigma> \<equiv> ctrl (lseg \<sigma>)"
abbreviation lcap :: "lsys \<Rightarrow> nat" where "lcap \<sigma> \<equiv> unat (capacity (lcb \<sigma>))"
abbreviation committed :: "lsys \<Rightarrow> nat" where "committed \<sigma> \<equiv> length (lsent \<sigma>)"
abbreviation lslot :: "lsys \<Rightarrow> nat \<Rightarrow> nat" where "lslot \<sigma> i \<equiv> slot_at (lcb \<sigma>) (of_nat i)"

definition busy :: "ow_pc \<Rightarrow> bool" where
  "busy pc = (case pc of OSize m g \<Rightarrow> True | OCopy m i g \<Rightarrow> True | _ \<Rightarrow> False)"

definition active :: "lc_pc \<Rightarrow> bool" where
  "active pc \<longleftrightarrow> pc \<noteq> LIdle \<and> pc \<noteq> LLoad \<and> pc \<noteq> LReload"

definition lcfg :: "lsys \<Rightarrow> bool" where
  "lcfg \<sigma> \<longleftrightarrow> cfg_ok (lcb \<sigma>) \<and> o_capacity (lprod \<sigma>) = capacity (lcb \<sigma>) \<and> o_stride (lprod \<sigma>) = slot_stride (lcb \<sigma>) \<and>
     o_max_msg (lprod \<sigma>) = max_msg_size (lcb \<sigma>)"

definition published :: "lsys \<Rightarrow> nat" where
  "published \<sigma> = committed \<sigma> - (if lppc \<sigma> = OPublish then 1 else 0)"

definition lpos :: "lsys \<Rightarrow> nat \<Rightarrow> nat \<Rightarrow> bool" where
  "lpos \<sigma> r w \<longleftrightarrow> (lppc \<sigma> = OPublish \<longrightarrow> 0 < committed \<sigma>) \<and> write_pos (lcb \<sigma>) = of_nat (published \<sigma>) \<and>
     o_write_pos (lprod \<sigma>) = of_nat (published \<sigma>) \<and> lossy_consumer r w (lcons \<sigma>) (lseg \<sigma>) \<and> w \<le> published \<sigma> \<and>
     (active (lcpc \<sigma>) \<longrightarrow> r < w)"

definition ldata :: "lsys \<Rightarrow> bool" where
  "ldata \<sigma> \<longleftrightarrow> (\<forall>m\<in>set (lsent \<sigma>). length m \<le> unat (max_msg_size (lcb \<sigma>))) \<and>
     (\<forall>i<committed \<sigma>. committed \<sigma> \<le> i + lcap \<sigma> \<and> (busy (lppc \<sigma>) \<longrightarrow> committed \<sigma> < i + lcap \<sigma>) \<longrightarrow>
        slot_msg (mem (lseg \<sigma>)) (lslot \<sigma> i) = lsent \<sigma> ! i)"

definition writing_at :: "lsys \<Rightarrow> nat \<Rightarrow> bool" where
  "writing_at \<sigma> i \<longleftrightarrow> busy (lppc \<sigma>) \<and> committed \<sigma> mod lcap \<sigma> = i mod lcap \<sigma>"

text \<open>A generation counts the writes to its slot, twice.\<close>

definition lgens :: "lsys \<Rightarrow> bool" where
  "lgens \<sigma> \<longleftrightarrow> (\<forall>i. gen_of \<sigma> (lslot \<sigma> i) = of_nat (2 * writes (lcap \<sigma>) i (committed \<sigma>) + of_bool (writing_at \<sigma> i)))"

fun lppc_inv :: "lsys \<Rightarrow> ow_pc \<Rightarrow> bool" where
  "lppc_inv \<sigma> (OMark m) = (length m \<le> unat (max_msg_size (lcb \<sigma>)))"
| "lppc_inv \<sigma> (OSize m g) = (length m \<le> unat (max_msg_size (lcb \<sigma>)) \<and>
     g = of_nat (2 * writes (lcap \<sigma>) (committed \<sigma>) (committed \<sigma>)))"
| "lppc_inv \<sigma> (OCopy m i g) = (length m \<le> unat (max_msg_size (lcb \<sigma>)) \<and>
     g = of_nat (2 * writes (lcap \<sigma>) (committed \<sigma>) (committed \<sigma>)) \<and> i \<le> length m \<and>
     slot_len (mem (lseg \<sigma>)) (lslot \<sigma> (committed \<sigma>)) = length m \<and>
     read_bytes (mem (lseg \<sigma>)) (payload_ptr (lslot \<sigma> (committed \<sigma>))) i = take i m)"
| "lppc_inv \<sigma> _ = True"

text \<open>Nothing has been written to the slot since \<open>w\<close> messages were committed, and nothing is being written.\<close>

definition untouched :: "lsys \<Rightarrow> nat \<Rightarrow> nat \<Rightarrow> bool" where
  "untouched \<sigma> r w \<longleftrightarrow> writes (lcap \<sigma>) r w = writes (lcap \<sigma>) r (committed \<sigma>) \<and> \<not> writing_at \<sigma> r"

abbreviation in_slot :: "lsys \<Rightarrow> nat \<Rightarrow> nat \<Rightarrow> bytes" where
  "in_slot \<sigma> r w \<equiv> lsent \<sigma> ! newest (lcap \<sigma>) r w"

definition whole :: "lsys \<Rightarrow> nat \<Rightarrow> nat \<Rightarrow> u32 \<Rightarrow> bytes \<Rightarrow> bool" where
  "whole \<sigma> r w sz acc \<longleftrightarrow> sz = of_nat (length (in_slot \<sigma> r w)) \<and> acc = take (unat (lbuf \<sigma>)) (in_slot \<sigma> r w)"

fun lcpc_inv :: "lsys \<Rightarrow> nat \<Rightarrow> lc_pc \<Rightarrow> bool" where
  "lcpc_inv \<sigma> r (LSize g w) = (r < w \<and> w \<le> committed \<sigma> \<and> g = of_nat (2 * writes (lcap \<sigma>) r w))"
| "lcpc_inv \<sigma> r (LCopy g w sz acc) = (r < w \<and> w \<le> committed \<sigma> \<and> g = of_nat (2 * writes (lcap \<sigma>) r w) \<and>
     (untouched \<sigma> r w \<longrightarrow> unat sz = length (in_slot \<sigma> r w) \<and> acc = take (length acc) (in_slot \<sigma> r w)))"
| "lcpc_inv \<sigma> r (LStore w w' sz acc) = (r < w \<and> w \<le> w' \<and> w' \<le> committed \<sigma> \<and> (w' < w + 2 ^ 31 \<longrightarrow> whole \<sigma> r w sz acc))"
| "lcpc_inv \<sigma> r _ = True"

definition lrcvd_inv :: "lsys \<Rightarrow> bool" where
  "lrcvd_inv \<sigma> \<longleftrightarrow> (\<forall>(r, w, w', sz, acc)\<in>set (lrcvd \<sigma>). r < w \<and> w \<le> w' \<and> w' \<le> committed \<sigma> \<and>
     (w' < w + 2 ^ 31 \<longrightarrow> whole \<sigma> r w sz acc))"

definition seqlock_inv :: "lsys \<Rightarrow> bool" where
  "seqlock_inv \<sigma> \<longleftrightarrow> lcfg \<sigma> \<and> (\<exists>r w. lpos \<sigma> r w \<and> lcpc_inv \<sigma> r (lcpc \<sigma>)) \<and> ldata \<sigma> \<and> lgens \<sigma> \<and>
     lppc_inv \<sigma> (lppc \<sigma>) \<and> lrcvd_inv \<sigma>"

lemma lset_mem_fields [simp]:
  "lcb (lset_mem m \<sigma>) = lcb \<sigma>" "mem (lseg (lset_mem m \<sigma>)) = m" "lprod (lset_mem m \<sigma>) = lprod \<sigma>"
  "lcons (lset_mem m \<sigma>) = lcons \<sigma>" "lsent (lset_mem m \<sigma>) = lsent \<sigma>" "lrcvd (lset_mem m \<sigma>) = lrcvd \<sigma>"
  "lbuf (lset_mem m \<sigma>) = lbuf \<sigma>" "lcpc (lset_mem m \<sigma>) = lcpc \<sigma>" "lppc (lset_mem m \<sigma>) = lppc \<sigma>"
  by (simp_all add: lset_mem_def)

lemma lset_read_fields [simp]:
  "lcb (lset_read r \<sigma>) = (lcb \<sigma>)\<lparr>read_pos := r\<rparr>" "mem (lseg (lset_read r \<sigma>)) = mem (lseg \<sigma>)" "lprod (lset_read r \<sigma>) = lprod \<sigma>"
  "lcons (lset_read r \<sigma>) = (lcons \<sigma>)\<lparr>c_read_pos := r\<rparr>" "lsent (lset_read r \<sigma>) = lsent \<sigma>" "lrcvd (lset_read r \<sigma>) = lrcvd \<sigma>"
  "lbuf (lset_read r \<sigma>) = lbuf \<sigma>" "lcpc (lset_read r \<sigma>) = lcpc \<sigma>" "lppc (lset_read r \<sigma>) = lppc \<sigma>"
  by (simp_all add: lset_read_def)

lemma slot_at_upd [simp]:
  "slot_at (cb\<lparr>read_pos := x\<rparr>) = slot_at cb" "slot_at (cb\<lparr>write_pos := x\<rparr>) = slot_at cb"
  by (simp_all add: slot_at_def fun_eq_iff)

lemma cfg_ok_upd [simp]: "cfg_ok (cb\<lparr>read_pos := x\<rparr>) = cfg_ok cb" "cfg_ok (cb\<lparr>write_pos := x\<rparr>) = cfg_ok cb"
  by (simp_all add: cfg_ok_def)

lemma writes_cong: "r mod cap = r' mod cap \<Longrightarrow> writes cap r w = writes cap r' w"
  by (simp add: writes_def)

lemma lslot_cong:
  assumes "cfg_ok cb" and "i mod unat (capacity cb) = j mod unat (capacity cb)"
  shows "slot_at cb (of_nat i) = slot_at cb (of_nat j)"
proof -
  from assms(1) obtain k where k: "unat (capacity cb) = 2 ^ k" "k < 32" by (rule cfg_okE)
  have "(2 :: nat) ^ k dvd 2 ^ 64" using k(2) by (intro le_imp_power_dvd) simp
  then have "unat (of_nat n :: u64) mod 2 ^ k = n mod 2 ^ k" for n
    by (simp add: unat_of_nat mod_mod_cancel)
  then show ?thesis using assms(2) by (simp add: slot_at_def slot_ptr_eq [OF k] k)
qed

lemma lslot_apart:
  assumes "cfg_ok cb" and "i mod unat (capacity cb) \<noteq> j mod unat (capacity cb)"
  shows "slot_at cb (of_nat i) + unat (slot_stride cb) \<le> slot_at cb (of_nat j) \<or>
    slot_at cb (of_nat j) + unat (slot_stride cb) \<le> slot_at cb (of_nat i)"
proof -
  from assms(1) obtain k where k: "unat (capacity cb) = 2 ^ k" "k < 32" by (rule cfg_okE)
  have "(2 :: nat) ^ k dvd 2 ^ 64" using k(2) by (intro le_imp_power_dvd) simp
  then have "unat (of_nat n :: u64) mod 2 ^ k = n mod 2 ^ k" for n
    by (simp add: unat_of_nat mod_mod_cancel)
  then show ?thesis using assms(2) slots_disjoint_index [OF k, of "of_nat i" "of_nat j" "slot_stride cb"]
    by (simp add: slot_at_def k)
qed

section \<open>Producer steps\<close>

lemma agree_gen:
  assumes "agree_outside m m' a n" and "a + n \<le> slot \<or> slot + n \<le> a" and "8 \<le> n"
  shows "load32 m' (gen_ptr slot) = load32 m (gen_ptr slot)"
  using assms by (auto simp: load32_def slot_fields agree_outside_def intro!: arg_cong [where f = le32_of] read_bytes_cong)

lemma inv_cfg:
  assumes "seqlock_inv \<sigma>"
  shows "cfg_ok (lcb \<sigma>)" and "0 < lcap \<sigma>" and "unat (max_msg_size (lcb \<sigma>)) + 8 \<le> unat (slot_stride (lcb \<sigma>))"
proof -
  show cfg: "cfg_ok (lcb \<sigma>)" using assms by (simp add: seqlock_inv_def lcfg_def)
  then show "0 < lcap \<sigma>" by (auto elim: cfg_okE)
  from cfg show "unat (max_msg_size (lcb \<sigma>)) + 8 \<le> unat (slot_stride (lcb \<sigma>))" by (simp add: cfg_ok_def)
qed

lemma inv_pos:
  assumes "seqlock_inv \<sigma>"
  obtains r w where "lpos \<sigma> r w" and "lcpc_inv \<sigma> r (lcpc \<sigma>)"
  using assms by (auto simp: seqlock_inv_def)

lemma o_slot_next:
  assumes "seqlock_inv \<sigma>" and "lppc \<sigma> \<noteq> OPublish"
  shows "o_slot (lprod \<sigma>) = lslot \<sigma> (committed \<sigma>)"
  using assms by (auto simp: seqlock_inv_def lpos_def lcfg_def published_def o_slot_def slot_at_def)

lemma kept_len:
  assumes "seqlock_inv \<sigma>" and "i < committed \<sigma>" and "slot_msg (mem (lseg \<sigma>)) (lslot \<sigma> i) = lsent \<sigma> ! i"
  shows "slot_len (mem (lseg \<sigma>)) (lslot \<sigma> i) + 8 \<le> unat (slot_stride (lcb \<sigma>))"
proof -
  have "slot_len (mem (lseg \<sigma>)) (lslot \<sigma> i) = length (lsent \<sigma> ! i)" using assms(3) by (simp flip: length_slot_msg)
  moreover have "length (lsent \<sigma> ! i) \<le> unat (max_msg_size (lcb \<sigma>))"
    using assms(1,2) by (simp add: seqlock_inv_def ldata_def)
  ultimately show ?thesis using inv_cfg(3) [OF assms(1)] by simp
qed

text \<open>Writing inside the producer's slot leaves the other slots alone.\<close>

lemma others_kept:
  assumes inv: "seqlock_inv \<sigma>"
    and agree: "agree_outside (mem (lseg \<sigma>)) m' (lslot \<sigma> (committed \<sigma>)) (unat (slot_stride (lcb \<sigma>)))"
    and i: "committed \<sigma> mod lcap \<sigma> \<noteq> i mod lcap \<sigma>"
  shows "load32 m' (gen_ptr (lslot \<sigma> i)) = gen_of \<sigma> (lslot \<sigma> i)"
    and "i < committed \<sigma> \<Longrightarrow> slot_msg (mem (lseg \<sigma>)) (lslot \<sigma> i) = lsent \<sigma> ! i \<Longrightarrow> slot_msg m' (lslot \<sigma> i) = lsent \<sigma> ! i"
proof -
  note apart = lslot_apart [OF inv_cfg(1) [OF inv] i]
  show "load32 m' (gen_ptr (lslot \<sigma> i)) = gen_of \<sigma> (lslot \<sigma> i)"
    unfolding gen_of_def by (rule agree_gen [OF agree apart]) (use inv_cfg(3) [OF inv] in simp)
  show "slot_msg m' (lslot \<sigma> i) = lsent \<sigma> ! i"
    if "i < committed \<sigma>" "slot_msg (mem (lseg \<sigma>)) (lslot \<sigma> i) = lsent \<sigma> ! i"
    using agree_slot(2) [OF agree apart kept_len [OF inv that]] that(2) by simp
qed

lemma distinct_slots:
  fixes i w cap :: nat assumes "i < w" and "w < i + cap"
  shows "w mod cap \<noteq> i mod cap"
proof
  assume "w mod cap = i mod cap"
  then have "cap dvd w - i" using assms(1) by (metis less_imp_le_nat mod_eq_dvd_iff_nat)
  then show False using assms by (auto dest: dvd_imp_le)
qed

lemma published_busy: "busy pc \<Longrightarrow> published (\<sigma>\<lparr>lppc := pc\<rparr>) = committed \<sigma>"
  by (auto simp: published_def busy_def)

lemma busy_step_inv:
  assumes inv: "seqlock_inv \<sigma>" and pre: "busy (lppc \<sigma>) \<or> lppc \<sigma> = OMark m" and pc: "busy pc"
    and agree: "agree_outside (mem (lseg \<sigma>)) m' (lslot \<sigma> (committed \<sigma>)) (unat (slot_stride (lcb \<sigma>)))"
    and gen: "load32 m' (gen_ptr (lslot \<sigma> (committed \<sigma>))) = of_nat (2 * writes (lcap \<sigma>) (committed \<sigma>) (committed \<sigma>) + 1)"
    and new: "lppc_inv ((lset_mem m' \<sigma>)\<lparr>lppc := pc\<rparr>) pc"
  shows "seqlock_inv ((lset_mem m' \<sigma>)\<lparr>lppc := pc\<rparr>)"
proof -
  let ?\<tau> = "(lset_mem m' \<sigma>)\<lparr>lppc := pc\<rparr>"
  note cfg = inv_cfg(1) [OF inv]
  have nopub: "lppc \<sigma> \<noteq> OPublish" "pc \<noteq> OPublish" using pre pc by (auto simp: busy_def)
  obtain r w where pos: "lpos \<sigma> r w" "lcpc_inv \<sigma> r (lcpc \<sigma>)" using inv by (rule inv_pos)
  have "lpos ?\<tau> r w" using pos(1) nopub by (simp add: lpos_def published_def lossy_consumer_def)
  moreover have "untouched \<sigma> r x" if "untouched ?\<tau> r x" for r x
    using that pc by (auto simp: untouched_def writing_at_def)
  then have "lcpc_inv ?\<tau> r (lcpc \<sigma>)" using pos(2) by (cases "lcpc \<sigma>") (auto simp: whole_def)
  moreover have "ldata ?\<tau>"
    using inv others_kept(2) [OF inv agree distinct_slots] pc
    by (auto simp: seqlock_inv_def ldata_def)
  moreover have "lgens ?\<tau>"
    unfolding lgens_def
  proof (intro allI)
    fix i
    show "gen_of ?\<tau> (lslot ?\<tau> i) = of_nat (2 * writes (lcap ?\<tau>) i (committed ?\<tau>) + of_bool (writing_at ?\<tau> i))"
    proof (cases "committed \<sigma> mod lcap \<sigma> = i mod lcap \<sigma>")
      case True
      then show ?thesis using gen pc lslot_cong [OF cfg True] writes_cong [OF True]
        by (simp add: gen_of_def writing_at_def)
    next
      case False
      then show ?thesis using inv others_kept(1) [OF inv agree False] pc
        by (simp add: gen_of_def writing_at_def seqlock_inv_def lgens_def)
    qed
  qed
  moreover have "lrcvd_inv ?\<tau>" using inv by (auto simp: seqlock_inv_def lrcvd_inv_def whole_def)
  moreover have "lcfg ?\<tau>" using inv by (simp add: seqlock_inv_def lcfg_def)
  ultimately show ?thesis using new by (auto simp: seqlock_inv_def)
qed

lemma o_mark_inv:
  assumes inv: "seqlock_inv \<sigma>" and pc: "lppc \<sigma> = OMark m" and g: "g = gen_of \<sigma> (o_slot (lprod \<sigma>))"
  shows "seqlock_inv ((lset_mem (store32 (mem (lseg \<sigma>)) (gen_ptr (o_slot (lprod \<sigma>))) (g + 1)) \<sigma>)\<lparr>lppc := OSize m g\<rparr>)"
proof (rule busy_step_inv [OF inv])
  have slot: "o_slot (lprod \<sigma>) = lslot \<sigma> (committed \<sigma>)" using o_slot_next [OF inv] pc by simp
  have "\<not> writing_at \<sigma> (committed \<sigma>)" using pc by (simp add: writing_at_def busy_def)
  then have g': "g = of_nat (2 * writes (lcap \<sigma>) (committed \<sigma>) (committed \<sigma>))"
    using inv by (simp add: seqlock_inv_def lgens_def g slot)
  let ?m = "store32 (mem (lseg \<sigma>)) (gen_ptr (o_slot (lprod \<sigma>))) (g + 1)"
  show "busy (lppc \<sigma>) \<or> lppc \<sigma> = OMark m" by (simp add: pc)
  show "busy (OSize m g)" by (simp add: busy_def)
  show "agree_outside (mem (lseg \<sigma>)) ?m (lslot \<sigma> (committed \<sigma>)) (unat (slot_stride (lcb \<sigma>)))"
    using inv_cfg(3) [OF inv] by (auto simp: agree_outside_def store32_def write_bytes_def slot_fields slot)
  show "load32 ?m (gen_ptr (lslot \<sigma> (committed \<sigma>))) = of_nat (2 * writes (lcap \<sigma>) (committed \<sigma>) (committed \<sigma>) + 1)"
    by (simp add: slot mem_simps g')
  show "lppc_inv ((lset_mem ?m \<sigma>)\<lparr>lppc := OSize m g\<rparr>) (OSize m g)"
    using inv pc g' by (simp add: seqlock_inv_def)
qed

lemma busy_gen:
  assumes "seqlock_inv \<sigma>" and "busy (lppc \<sigma>)"
  shows "gen_of \<sigma> (lslot \<sigma> (committed \<sigma>)) = of_nat (2 * writes (lcap \<sigma>) (committed \<sigma>) (committed \<sigma>) + 1)"
  using assms by (simp add: seqlock_inv_def lgens_def writing_at_def)

lemma o_size_inv:
  assumes inv: "seqlock_inv \<sigma>" and pc: "lppc \<sigma> = OSize m g"
  shows "seqlock_inv ((lset_mem (store32 (mem (lseg \<sigma>)) (size_ptr (o_slot (lprod \<sigma>))) (of_nat (length m))) \<sigma>)
    \<lparr>lppc := OCopy m 0 g\<rparr>)"
proof (rule busy_step_inv [OF inv])
  have slot: "o_slot (lprod \<sigma>) = lslot \<sigma> (committed \<sigma>)" using o_slot_next [OF inv] pc by simp
  have len: "length m \<le> unat (max_msg_size (lcb \<sigma>))" using inv pc by (simp add: seqlock_inv_def)
  let ?m = "store32 (mem (lseg \<sigma>)) (size_ptr (o_slot (lprod \<sigma>))) (of_nat (length m))"
  show "busy (lppc \<sigma>) \<or> lppc \<sigma> = OMark m" "busy (OCopy m 0 g)" by (simp_all add: pc busy_def)
  show "agree_outside (mem (lseg \<sigma>)) ?m (lslot \<sigma> (committed \<sigma>)) (unat (slot_stride (lcb \<sigma>)))"
    using inv_cfg(3) [OF inv] by (auto simp: agree_outside_def store32_def write_bytes_def slot_fields slot)
  show "load32 ?m (gen_ptr (lslot \<sigma> (committed \<sigma>))) = of_nat (2 * writes (lcap \<sigma>) (committed \<sigma>) (committed \<sigma>) + 1)"
    using busy_gen [OF inv] pc by (simp add: slot gen_of_def slot_fields mem_simps busy_def)
  show "lppc_inv ((lset_mem ?m \<sigma>)\<lparr>lppc := OCopy m 0 g\<rparr>) (OCopy m 0 g)"
    using inv pc len u32_length(1) [OF len] by (simp add: seqlock_inv_def slot slot_len_def mem_simps)
qed

lemma o_byte_inv:
  assumes inv: "seqlock_inv \<sigma>" and pc: "lppc \<sigma> = OCopy m i g" and i: "i < length m"
  shows "seqlock_inv ((lset_mem ((mem (lseg \<sigma>))(payload_ptr (o_slot (lprod \<sigma>)) + i := m ! i)) \<sigma>)
    \<lparr>lppc := OCopy m (Suc i) g\<rparr>)"
proof (rule busy_step_inv [OF inv])
  let ?s = "lslot \<sigma> (committed \<sigma>)"
  let ?m = "(mem (lseg \<sigma>))(payload_ptr (o_slot (lprod \<sigma>)) + i := m ! i)"
  have slot: "o_slot (lprod \<sigma>) = ?s" using o_slot_next [OF inv] pc by simp
  have I: "length m \<le> unat (max_msg_size (lcb \<sigma>))" "slot_len (mem (lseg \<sigma>)) ?s = length m"
    "read_bytes (mem (lseg \<sigma>)) (payload_ptr ?s) i = take i m"
    "g = of_nat (2 * writes (lcap \<sigma>) (committed \<sigma>) (committed \<sigma>))"
    using inv pc by (simp_all add: seqlock_inv_def)
  show "busy (lppc \<sigma>) \<or> lppc \<sigma> = OMark m" "busy (OCopy m (Suc i) g)" by (simp_all add: pc busy_def)
  show "agree_outside (mem (lseg \<sigma>)) ?m ?s (unat (slot_stride (lcb \<sigma>)))"
    using inv_cfg(3) [OF inv] I(1) i by (auto simp: agree_outside_def slot_fields slot)
  have head: "read_bytes ?m a 4 = read_bytes (mem (lseg \<sigma>)) a 4" if "a + 4 \<le> payload_ptr ?s" for a
    using that by (intro read_bytes_cong) (auto simp: slot)
  show "load32 ?m (gen_ptr ?s) = of_nat (2 * writes (lcap \<sigma>) (committed \<sigma>) (committed \<sigma>) + 1)"
    using busy_gen [OF inv] pc head [of "gen_ptr ?s"] by (simp add: gen_of_def load32_def slot_fields busy_def)
  have "read_bytes ?m (payload_ptr ?s) (Suc i) = read_bytes (mem (lseg \<sigma>)) (payload_ptr ?s) i @ [m ! i]"
    unfolding read_bytes_Suc by (auto simp: slot intro!: read_bytes_cong)
  moreover have "slot_len ?m ?s = slot_len (mem (lseg \<sigma>)) ?s"
    using head [of "size_ptr ?s"] by (simp add: slot_len_def load32_def slot_fields)
  ultimately show "lppc_inv ((lset_mem ?m \<sigma>)\<lparr>lppc := OCopy m (Suc i) g\<rparr>) (OCopy m (Suc i) g)"
    using I i by (simp add: take_Suc_conv_app_nth)
qed

lemma o_begin_inv:
  assumes inv: "seqlock_inv \<sigma>" and pc: "lppc \<sigma> = OIdle" and m: "length (m :: bytes) < 2 ^ 32" "\<not> o_max_msg (lprod \<sigma>) < of_nat (length m)"
  shows "seqlock_inv (\<sigma>\<lparr>lppc := OMark m\<rparr>)"
proof -
  let ?\<tau> = "\<sigma>\<lparr>lppc := OMark m\<rparr>"
  have len: "length m \<le> unat (max_msg_size (lcb \<sigma>))"
    using inv m by (simp add: seqlock_inv_def lcfg_def not_less word_le_nat_alt unat_of_nat)
  obtain r w where pos: "lpos \<sigma> r w" "lcpc_inv \<sigma> r (lcpc \<sigma>)" using inv by (rule inv_pos)
  have quiet: "\<not> writing_at \<sigma> i" "\<not> writing_at ?\<tau> i" for i using pc by (simp_all add: writing_at_def busy_def)
  have "lpos ?\<tau> r w" using pos(1) pc by (simp add: lpos_def published_def)
  moreover have "lcpc_inv ?\<tau> r (lcpc \<sigma>)"
    using pos(2) by (cases "lcpc \<sigma>") (auto simp: whole_def untouched_def quiet)
  moreover have "lgens ?\<tau>" using inv by (simp add: seqlock_inv_def lgens_def gen_of_def quiet)
  moreover have "ldata ?\<tau>" using inv pc by (auto simp: seqlock_inv_def ldata_def busy_def)
  moreover have "lrcvd_inv ?\<tau>" using inv by (auto simp: seqlock_inv_def lrcvd_inv_def whole_def)
  moreover have "lcfg ?\<tau>" using inv by (simp add: seqlock_inv_def lcfg_def)
  ultimately show ?thesis using len by (auto simp: seqlock_inv_def)
qed

lemma newest_below: "r < w \<Longrightarrow> 0 < cap \<Longrightarrow> newest cap r w < w"
  by (rule newest_bounds)

lemma o_commit_inv:
  assumes inv: "seqlock_inv \<sigma>" and pc: "lppc \<sigma> = OCopy m (length m) g"
  defines "\<tau> \<equiv> (lset_mem (store32 (mem (lseg \<sigma>)) (gen_ptr (o_slot (lprod \<sigma>))) (g + 2)) \<sigma>)\<lparr>lppc := OPublish, lsent := lsent \<sigma> @ [m]\<rparr>"
  shows "seqlock_inv \<tau>"
proof -
  let ?W = "committed \<sigma>" let ?s = "lslot \<sigma> ?W" let ?m = "store32 (mem (lseg \<sigma>)) (gen_ptr ?s) (g + 2)"
  have slot: "o_slot (lprod \<sigma>) = ?s" using o_slot_next [OF inv] pc by simp
  note cfg = inv_cfg(1) [OF inv] and cap = inv_cfg(2) [OF inv]
  have I: "length m \<le> unat (max_msg_size (lcb \<sigma>))" "slot_msg (mem (lseg \<sigma>)) ?s = m" "g = of_nat (2 * writes (lcap \<sigma>) ?W ?W)"
    using inv pc by (simp_all add: seqlock_inv_def slot_msg_def)
  have busy: "busy (lppc \<sigma>)" by (simp add: pc busy_def)
  have \<tau>: "\<tau> = (lset_mem ?m \<sigma>)\<lparr>lppc := OPublish, lsent := lsent \<sigma> @ [m]\<rparr>" by (simp add: \<tau>_def slot)
  have quiet: "\<not> writing_at \<tau> i" for i by (simp add: \<tau> writing_at_def busy_def)
  have agree: "agree_outside (mem (lseg \<sigma>)) ?m ?s (unat (slot_stride (lcb \<sigma>)))"
    using inv_cfg(3) [OF inv] by (auto simp: agree_outside_def store32_def write_bytes_def slot_fields)
  obtain r w where pos: "lpos \<sigma> r w" "lcpc_inv \<sigma> r (lcpc \<sigma>)" using inv by (rule inv_pos)
  have lp: "lpos \<tau> r w" using pos(1) pc by (simp add: \<tau> lpos_def published_def lossy_consumer_def)
  have "untouched \<sigma> r x \<and> x \<le> ?W" if "untouched \<tau> r x" "x \<le> ?W" for r x
    using that writes_mono [OF that(2), of "lcap \<sigma>" r]
    by (auto simp: untouched_def quiet) (auto simp: \<tau> writes_Suc writing_at_def split: if_splits)
  moreover have older: "(lsent \<sigma> @ [m]) ! newest (lcap \<sigma>) r x = in_slot \<sigma> r x" if "r < x" "x \<le> ?W" for r x
    using newest_below [OF that(1) cap] that(2) by (simp add: nth_append)
  ultimately have "lcpc_inv \<tau> r (lcpc \<sigma>)"
    using pos(2) by (cases "lcpc \<sigma>") (auto simp: \<tau> whole_def)
  moreover have "ldata \<tau>"
  proof -
    have new: "slot_msg ?m ?s = m" using I(2) by simp
    have "slot_msg ?m (lslot \<sigma> i) = (lsent \<sigma> @ [m]) ! i" if "i < Suc ?W" "Suc ?W \<le> i + lcap \<sigma>" for i
    proof (cases "i = ?W")
      case True
      then show ?thesis using new by simp
    next
      case False
      then have i: "i < ?W" "?W < i + lcap \<sigma>" using that by auto
      then show ?thesis
        using inv others_kept(2) [OF inv agree distinct_slots [OF i]] by (simp add: seqlock_inv_def ldata_def nth_append)
    qed
    then show ?thesis using inv I(1) by (auto simp: seqlock_inv_def ldata_def \<tau>)
  qed
  moreover have "lgens \<tau>"
    unfolding lgens_def
  proof (intro allI)
    fix i
    show "gen_of \<tau> (lslot \<tau> i) = of_nat (2 * writes (lcap \<tau>) i (committed \<tau>) + of_bool (writing_at \<tau> i))"
    proof (cases "?W mod lcap \<sigma> = i mod lcap \<sigma>")
      case True
      then show ?thesis using lslot_cong [OF cfg True] writes_cong [OF True]
        by (simp add: quiet) (simp add: \<tau> gen_of_def mem_simps I(3) writes_Suc)
    next
      case False
      then have "\<not> writing_at \<sigma> i" by (simp add: writing_at_def)
      then show ?thesis using inv others_kept(1) [OF inv agree False] False
        by (simp add: quiet) (simp add: \<tau> gen_of_def seqlock_inv_def lgens_def writes_Suc)
    qed
  qed
  moreover have "lrcvd_inv \<tau>"
    using inv older by (fastforce simp: seqlock_inv_def lrcvd_inv_def whole_def \<tau>)
  moreover have "lcfg \<tau>" using inv by (simp add: seqlock_inv_def lcfg_def \<tau>)
  moreover have "lppc_inv \<tau> (lppc \<tau>)" "lcpc \<tau> = lcpc \<sigma>" by (simp_all add: \<tau>)
  ultimately show ?thesis using lp unfolding seqlock_inv_def by metis
qed

lemma o_publish_inv:
  assumes inv: "seqlock_inv \<sigma>" and pc: "lppc \<sigma> = OPublish"
  shows "seqlock_inv (\<sigma>\<lparr>lseg := (lseg \<sigma>)\<lparr>ctrl := (lcb \<sigma>)\<lparr>write_pos := o_write_pos (lprod \<sigma>) + 1\<rparr>\<rparr>,
          lprod := (lprod \<sigma>)\<lparr>o_write_pos := o_write_pos (lprod \<sigma>) + 1\<rparr>, lppc := OIdle\<rparr>)" (is "seqlock_inv ?\<tau>")
proof -
  obtain r w where pos: "lpos \<sigma> r w" "lcpc_inv \<sigma> r (lcpc \<sigma>)" using inv by (rule inv_pos)
  have "of_nat (published \<sigma>) + 1 = (of_nat (committed \<sigma>) :: u64)"
    using pos(1) pc by (cases "committed \<sigma>") (simp_all add: lpos_def published_def)
  moreover have quiet: "\<not> writing_at \<sigma> i" "\<not> writing_at ?\<tau> i" for i using pc by (simp_all add: writing_at_def busy_def)
  ultimately have "lpos ?\<tau> r w" using pos(1) pc by (auto simp: lpos_def published_def lossy_consumer_def)
  moreover have "lcpc_inv ?\<tau> r (lcpc \<sigma>)"
    using pos(2) by (cases "lcpc \<sigma>") (auto simp: whole_def untouched_def quiet)
  moreover have "lgens ?\<tau>" using inv by (simp add: seqlock_inv_def lgens_def gen_of_def quiet)
  moreover have "ldata ?\<tau>" using inv pc by (auto simp: seqlock_inv_def ldata_def busy_def)
  moreover have "lrcvd_inv ?\<tau>" using inv by (auto simp: seqlock_inv_def lrcvd_inv_def whole_def)
  moreover have "lcfg ?\<tau>" using inv by (simp add: seqlock_inv_def lcfg_def)
  ultimately show ?thesis by (auto simp: seqlock_inv_def)
qed

section \<open>Consumer steps\<close>

lemma c_slot_pos: "lpos \<sigma> r w \<Longrightarrow> c_slot (lcons \<sigma>) = lslot \<sigma> r"
  by (simp add: lpos_def lossy_consumer_def c_slot_def slot_at_def)

text \<open>A consumer step leaves the memory and the producer as they are.\<close>

lemma lcons_step_inv:
  assumes inv: "seqlock_inv \<sigma>" and same: "lcb \<tau> = (lcb \<sigma>)\<lparr>read_pos := x\<rparr>" "mem (lseg \<tau>) = mem (lseg \<sigma>)"
      "lprod \<tau> = lprod \<sigma>" "lppc \<tau> = lppc \<sigma>" "lsent \<tau> = lsent \<sigma>" "lbuf \<tau> = lbuf \<sigma>"
    and pos: "lossy_consumer r w (lcons \<tau>) (lseg \<sigma>)" "w \<le> published \<sigma>" "active (lcpc \<tau>) \<longrightarrow> r < w"
    and pc: "lcpc_inv \<sigma> r (lcpc \<tau>)" and rc: "lrcvd \<tau> = lrcvd \<sigma> \<or> lrcvd_inv \<tau>"
  shows "seqlock_inv \<tau>"
proof -
  have wr: "writing_at \<tau> = writing_at \<sigma>" "published \<tau> = published \<sigma>" "untouched \<tau> = untouched \<sigma>" "whole \<tau> = whole \<sigma>" "gen_of \<tau> = gen_of \<sigma>"
    using same by (auto intro!: ext simp: writing_at_def published_def untouched_def whole_def gen_of_def)
  obtain r' w' where old: "lpos \<sigma> r' w'" using inv by (rule inv_pos)
  have "lossy_consumer r w (lcons \<tau>) (lseg \<tau>)" using pos(1) same by (simp add: lossy_consumer_def)
  then have "lpos \<tau> r w" using old pos same wr by (simp add: lpos_def)
  moreover have "lcpc_inv \<tau> r (lcpc \<tau>)" using pc same wr by (cases "lcpc \<tau>") auto
  moreover have "lgens \<tau>" using inv same wr by (simp add: seqlock_inv_def lgens_def)
  moreover have "ldata \<tau>" using inv same by (auto simp: seqlock_inv_def ldata_def)
  moreover have "lrcvd_inv \<tau>" using inv rc same wr by (auto simp: seqlock_inv_def lrcvd_inv_def)
  moreover have "lcfg \<tau>" using inv same by (simp add: seqlock_inv_def lcfg_def)
  moreover have "lppc_inv \<tau> (lppc \<sigma>)" using inv same by (cases "lppc \<sigma>") (auto simp: seqlock_inv_def)
  ultimately show ?thesis using same(4) by (auto simp: seqlock_inv_def)
qed

lemma lcpc_step_inv:
  assumes inv: "seqlock_inv \<sigma>" and pos: "lpos \<sigma> r w" and act: "active pc \<longrightarrow> r < w" and pc: "lcpc_inv \<sigma> r pc"
  shows "seqlock_inv (\<sigma>\<lparr>lcpc := pc\<rparr>)"
  by (rule lcons_step_inv [OF inv, where x = "read_pos (lcb \<sigma>)" and r = r and w = w])
    (use pos act pc in \<open>auto simp: lpos_def\<close>)

lemma published_le: "published \<sigma> \<le> committed \<sigma>"
  by (simp add: published_def)

text \<open>A load of the write position sees a published value that is not older than the last one.\<close>

lemma loaded_pos:
  assumes "lpos \<sigma> r w" and "committed \<sigma> < 2 ^ 64"
    and "unat (v - c_write_cache (lcons \<sigma>)) \<le> unat (write_pos (lcb \<sigma>) - c_write_cache (lcons \<sigma>))"
  obtains w' where "w \<le> w'" "w' \<le> published \<sigma>" "v = of_nat w'"
proof -
  have le: "published \<sigma> \<le> committed \<sigma>" "w \<le> published \<sigma>" using assms(1) by (simp_all add: published_def lpos_def)
  then have "published \<sigma> - w < 2 ^ 64" using assms(2) by simp
  then show thesis using assms(1,3) le that
    by (auto simp: lpos_def lossy_consumer_def elim: counter_between [of w "published \<sigma>"])
qed

lemma l_load_inv:
  assumes inv: "seqlock_inv \<sigma>" and pc: "lcpc \<sigma> = LLoad" and len: "committed \<sigma> < 2 ^ 64"
    and v: "unat (v - c_write_cache (lcons \<sigma>)) \<le> unat (write_pos (lcb \<sigma>) - c_write_cache (lcons \<sigma>))"
  shows "seqlock_inv (\<sigma>\<lparr>lcons := (lcons \<sigma>)\<lparr>c_write_cache := v\<rparr>, lcpc := if c_read_pos (lcons \<sigma>) = v then LIdle else LLap\<rparr>)"
    (is "seqlock_inv ?\<tau>")
proof -
  obtain r w where pos: "lpos \<sigma> r w" "lcpc_inv \<sigma> r (lcpc \<sigma>)" using inv by (rule inv_pos)
  obtain w' where w': "w \<le> w'" "w' \<le> published \<sigma>" "v = of_nat w'" using loaded_pos [OF pos(1) len v] .
  have c: "lossy_consumer r w' (lcons ?\<tau>) (lseg \<sigma>)" using pos(1) w' by (simp add: lpos_def lossy_consumer_def)
  have "active (lcpc ?\<tau>) \<longrightarrow> r < w'" using c w'(3) by (auto simp: active_def lossy_consumer_def le_less)
  then show ?thesis
    by (intro lcons_step_inv [OF inv _ _ _ _ _ _ c w'(2), where x = "read_pos (lcb \<sigma>)"]) auto
qed

lemma cap_words:
  assumes "lossy_consumer r w c s" and "w < 2 ^ 64"
  shows "ucast (c_capacity c) < c_write_cache c - c_read_pos c \<longleftrightarrow> unat (capacity (ctrl s)) < w - r"
    and "ucast (c_capacity c) < c_write_cache c \<longleftrightarrow> unat (capacity (ctrl s)) < w"
    and "unat (capacity (ctrl s)) \<le> w \<Longrightarrow> c_write_cache c - ucast (c_capacity c) = of_nat (w - unat (capacity (ctrl s)))"
proof -
  have c: "c_capacity c = capacity (ctrl s)" "c_write_cache c = of_nat w" "c_read_pos c = of_nat r" "r \<le> w"
    using assms(1) by (simp_all add: lossy_consumer_def)
  show "ucast (c_capacity c) < c_write_cache c - c_read_pos c \<longleftrightarrow> unat (capacity (ctrl s)) < w - r"
    using lossy_lap(1) [OF c(4) assms(2)] by (simp add: c)
  show "ucast (c_capacity c) < c_write_cache c \<longleftrightarrow> unat (capacity (ctrl s)) < w"
    using lossy_lap(1) [of 0 w "capacity (ctrl s)"] assms(2) by (simp add: c)
  show "c_write_cache c - ucast (c_capacity c) = of_nat (w - unat (capacity (ctrl s)))" if "unat (capacity (ctrl s)) \<le> w"
    using that by (simp add: c of_nat_diff)
qed

lemma l_lapped_inv:
  assumes inv: "seqlock_inv \<sigma>" and len: "committed \<sigma> < 2 ^ 64"
    and lap: "ucast (c_capacity (lcons \<sigma>)) < c_write_cache (lcons \<sigma>) - c_read_pos (lcons \<sigma>)"
  shows "seqlock_inv ((lset_read (c_write_cache (lcons \<sigma>) - ucast (c_capacity (lcons \<sigma>))) \<sigma>)\<lparr>lcpc := LIdle\<rparr>)"
    (is "seqlock_inv ?\<tau>")
proof -
  obtain r w where pos: "lpos \<sigma> r w" "lcpc_inv \<sigma> r (lcpc \<sigma>)" using inv by (rule inv_pos)
  have c: "lossy_consumer r w (lcons \<sigma>) (lseg \<sigma>)" "w \<le> published \<sigma>" "w < 2 ^ 64"
    using pos(1) len published_le [of \<sigma>] by (simp_all add: lpos_def)
  have "unat (capacity (lcb \<sigma>)) < w - r" using cap_words(1) [OF c(1,3)] lap by simp
  then have at: "lossy_consumer (w - lcap \<sigma>) w (lcons ?\<tau>) (lseg \<sigma>)"
    using cap_words(3) [OF c(1,3)] c(1) by (simp add: lossy_consumer_def)
  show ?thesis
    by (rule lcons_step_inv [OF inv _ _ _ _ _ _ at c(2), where x = "c_write_cache (lcons \<sigma>) - ucast (c_capacity (lcons \<sigma>))"])
      (auto simp: active_def)
qed

lemma l_reload_inv:
  assumes inv: "seqlock_inv \<sigma>" and len: "committed \<sigma> < 2 ^ 64"
    and v: "unat (v - c_write_cache (lcons \<sigma>)) \<le> unat (write_pos (lcb \<sigma>) - c_write_cache (lcons \<sigma>))"
    and r: "r' = (if ucast (c_capacity (lcons \<sigma>)) < v then v - ucast (c_capacity (lcons \<sigma>)) else v)"
  shows "seqlock_inv ((lset_read r' (\<sigma>\<lparr>lcons := (lcons \<sigma>)\<lparr>c_write_cache := v\<rparr>\<rparr>))\<lparr>lcpc := LIdle\<rparr>)"
    (is "seqlock_inv ?\<tau>")
proof -
  obtain r w where pos: "lpos \<sigma> r w" "lcpc_inv \<sigma> r (lcpc \<sigma>)" using inv by (rule inv_pos)
  obtain w' where w': "w \<le> w'" "w' \<le> published \<sigma>" "v = of_nat w'" using loaded_pos [OF pos(1) len v] .
  let ?c = "(lcons \<sigma>)\<lparr>c_write_cache := v\<rparr>"
  have c: "lossy_consumer r w' ?c (lseg \<sigma>)" using pos(1) w' by (simp add: lpos_def lossy_consumer_def)
  have lt: "w' < 2 ^ 64" using w'(2) len published_le [of \<sigma>] by simp
  have at: "lossy_consumer (if lcap \<sigma> < w' then w' - lcap \<sigma> else w') w' (lcons ?\<tau>) (lseg \<sigma>)"
    using cap_words(2,3) [OF c lt] c w'(3) r by (simp add: lossy_consumer_def)
  show ?thesis by (rule lcons_step_inv [OF inv _ _ _ _ _ _ at w'(2), where x = r']) (auto simp: active_def lset_read_def)
qed

lemma even_word:
  assumes "(of_nat (2 * a + of_bool b) :: u32) AND 1 = 0"
  shows "\<not> b"
proof -
  have "even (of_nat (2 * a + of_bool b) :: u32)" using assms by (simp only: and_one_eq even_iff_mod_2_eq_zero)
  then show ?thesis by (cases b) simp_all
qed

lemma l_even_inv:
  assumes inv: "seqlock_inv \<sigma>" and pc: "lcpc \<sigma> = LGen" and even: "gen_of \<sigma> (c_slot (lcons \<sigma>)) AND 1 = 0"
  shows "seqlock_inv (\<sigma>\<lparr>lcpc := LSize (gen_of \<sigma> (c_slot (lcons \<sigma>))) (committed \<sigma>)\<rparr>)"
proof -
  obtain r w where pos: "lpos \<sigma> r w" "lcpc_inv \<sigma> r (lcpc \<sigma>)" using inv by (rule inv_pos)
  have g: "gen_of \<sigma> (c_slot (lcons \<sigma>)) = of_nat (2 * writes (lcap \<sigma>) r (committed \<sigma>) + of_bool (writing_at \<sigma> r))"
    using inv by (simp add: c_slot_pos [OF pos(1)] seqlock_inv_def lgens_def)
  then have "\<not> writing_at \<sigma> r" using even even_word by metis
  moreover have "r < w" "w \<le> committed \<sigma>" using pos(1) pc published_le [of \<sigma>] by (simp_all add: lpos_def active_def)
  ultimately show ?thesis using g by (intro lcpc_step_inv [OF inv pos(1)]) auto
qed

text \<open>What the consumer reads from an untouched slot.\<close>

lemma untouched_slot:
  assumes inv: "seqlock_inv \<sigma>" and "untouched \<sigma> r x" and "r < x" and "x \<le> committed \<sigma>"
  shows "slot_msg (mem (lseg \<sigma>)) (lslot \<sigma> r) = in_slot \<sigma> r x"
proof -
  let ?n = "newest (lcap \<sigma>) r x" and ?W = "committed \<sigma>"
  note cap = inv_cfg(2) [OF inv]
  have n: "?n < x" "?n mod lcap \<sigma> = r mod lcap \<sigma>" using newest_bounds [OF assms(3) cap] by simp_all
  have le: "?W \<le> ?n + lcap \<sigma>" using newest_unchanged(2) [OF assms(3) cap assms(4)] assms(2) by (simp add: untouched_def)
  have "?W \<noteq> ?n + lcap \<sigma>" if "busy (lppc \<sigma>)"
    using that assms(2) n(2) by (auto simp: untouched_def writing_at_def)
  then have "busy (lppc \<sigma>) \<longrightarrow> ?W < ?n + lcap \<sigma>" using le by (metis le_neq_implies_less)
  moreover have "?n < ?W" using n(1) assms(4) by simp
  ultimately have "slot_msg (mem (lseg \<sigma>)) (lslot \<sigma> ?n) = in_slot \<sigma> r x"
    using inv le by (simp add: seqlock_inv_def ldata_def)
  then show ?thesis using lslot_cong [OF inv_cfg(1) [OF inv] n(2)] by simp
qed

lemma l_size_inv:
  assumes inv: "seqlock_inv \<sigma>" and pc: "lcpc \<sigma> = LSize g x"
  shows "seqlock_inv (\<sigma>\<lparr>lcpc := LCopy g x (load32 (mem (lseg \<sigma>)) (size_ptr (c_slot (lcons \<sigma>)))) []\<rparr>)"
proof -
  obtain r w where pos: "lpos \<sigma> r w" "lcpc_inv \<sigma> r (lcpc \<sigma>)" using inv by (rule inv_pos)
  have "unat (load32 (mem (lseg \<sigma>)) (size_ptr (c_slot (lcons \<sigma>)))) = length (in_slot \<sigma> r x)" if "untouched \<sigma> r x"
    using untouched_slot [OF inv that] pos pc by (simp add: c_slot_pos [OF pos(1)] flip: slot_len_def length_slot_msg)
  then show ?thesis using pos pc by (intro lcpc_step_inv [OF inv pos(1)]) (auto simp: lpos_def active_def)
qed

lemma l_byte_inv:
  assumes inv: "seqlock_inv \<sigma>" and pc: "lcpc \<sigma> = LCopy g x sz acc" and lt: "length acc < lcopy_len sz \<sigma>"
  shows "seqlock_inv (\<sigma>\<lparr>lcpc := LCopy g x sz (acc @ [mem (lseg \<sigma>) (payload_ptr (c_slot (lcons \<sigma>)) + length acc)])\<rparr>)"
proof -
  obtain r w where pos: "lpos \<sigma> r w" "lcpc_inv \<sigma> r (lcpc \<sigma>)" using inv by (rule inv_pos)
  let ?m = "in_slot \<sigma> r x" and ?b = "mem (lseg \<sigma>) (payload_ptr (c_slot (lcons \<sigma>)) + length acc)"
  have copied: "unat sz = length ?m \<and> acc @ [?b] = take (length (acc @ [?b])) ?m" if u: "untouched \<sigma> r x"
  proof -
    have I: "unat sz = length ?m" "acc = take (length acc) ?m" using pos(2) pc u by simp_all
    have short: "length acc < length ?m" using lt I(1) by (auto simp: lcopy_len_def word_less_nat_alt split: if_splits)
    have msg: "slot_msg (mem (lseg \<sigma>)) (c_slot (lcons \<sigma>)) = ?m"
      using untouched_slot [OF inv u] pos(2) pc by (simp add: c_slot_pos [OF pos(1)])
    then have "slot_len (mem (lseg \<sigma>)) (c_slot (lcons \<sigma>)) = length ?m" using length_slot_msg by metis
    then have "slot_msg (mem (lseg \<sigma>)) (c_slot (lcons \<sigma>)) ! length acc = ?b" using short by (simp add: slot_msg_def read_bytes_def)
    then have "?m ! length acc = ?b" by (simp only: msg)
    then have "acc @ [?b] = take (Suc (length acc)) ?m" using I(2) short by (simp add: take_Suc_conv_app_nth)
    then show ?thesis using I(1) by (metis length_append_singleton)
  qed
  have "lcpc_inv \<sigma> r (LCopy g x sz (acc @ [?b]))" using pos(2) pc copied by (simp only: lcpc_inv.simps) blast
  moreover have "r < w" using pos(1) pc by (simp add: lpos_def active_def)
  ultimately show ?thesis using lcpc_step_inv [OF inv pos(1)] by metis
qed

text \<open>Equal generations mean an untouched slot, unless the counter went once around.\<close>

lemma same_generation:
  assumes inv: "seqlock_inv \<sigma>" and g: "gen_of \<sigma> (lslot \<sigma> r) = of_nat (2 * writes (lcap \<sigma>) r x)"
    and x: "x \<le> committed \<sigma>" "committed \<sigma> < x + 2 ^ 31"
  shows "untouched \<sigma> r x"
proof -
  let ?a = "writes (lcap \<sigma>) r x" and ?b = "writes (lcap \<sigma>) r (committed \<sigma>)" and ?o = "of_bool (writing_at \<sigma> r) :: nat"
  have ab: "?a \<le> ?b" "?b \<le> ?a + (committed \<sigma> - x)"
    using writes_add [of "lcap \<sigma>" r x "committed \<sigma> - x"] x(1) by simp_all
  define d where "d = 2 * (?b - ?a) + ?o"
  have "(of_nat (2 * ?b + ?o) :: u32) = of_nat (2 * ?a)" using inv g by (simp add: seqlock_inv_def lgens_def)
  then have "(of_nat d :: u32) = 0" using ab(1) by (simp add: d_def of_nat_diff algebra_simps)
  then have "d mod 2 ^ 32 = 0" using unat_of_nat [of d, where 'a = 32] by simp
  moreover have "?b - ?a < 2 ^ 31" "?o \<le> 1" using ab x by (auto simp: of_bool_def)
  then have "d < 2 ^ 32" unfolding d_def by (auto simp: of_bool_def)
  ultimately have "2 * (?b - ?a) + ?o = 0" by (simp add: d_def)
  then show ?thesis using ab(1) by (simp add: untouched_def)
qed

lemma l_same_inv:
  assumes inv: "seqlock_inv \<sigma>" and pc: "lcpc \<sigma> = LCopy g x sz acc" and len: "length acc = lcopy_len sz \<sigma>"
    and g: "gen_of \<sigma> (c_slot (lcons \<sigma>)) = g"
  shows "seqlock_inv (\<sigma>\<lparr>lcpc := LStore x (committed \<sigma>) sz acc\<rparr>)"
proof -
  obtain r w where pos: "lpos \<sigma> r w" "lcpc_inv \<sigma> r (lcpc \<sigma>)" using inv by (rule inv_pos)
  have x: "r < x" "x \<le> committed \<sigma>" "g = of_nat (2 * writes (lcap \<sigma>) r x)" using pos(2) pc by simp_all
  have "whole \<sigma> r x sz acc" if "committed \<sigma> < x + 2 ^ 31"
  proof -
    have "untouched \<sigma> r x" using same_generation [OF inv _ x(2) that] g x(3) by (simp add: c_slot_pos [OF pos(1)])
    then have I: "unat sz = length (in_slot \<sigma> r x)" "acc = take (length acc) (in_slot \<sigma> r x)" using pos(2) pc by simp_all
    have "length acc = min (length (in_slot \<sigma> r x)) (unat (lbuf \<sigma>))"
      using len I(1) by (auto simp: lcopy_len_def word_less_nat_alt min_def)
    then have "acc = take (unat (lbuf \<sigma>)) (in_slot \<sigma> r x)" using I(2) by (metis min.commute take_all_iff take_take nle_le)
    moreover have "sz = of_nat (length (in_slot \<sigma> r x))" using I(1) by (metis of_nat_unat ucast_id)
    ultimately show ?thesis by (simp add: whole_def)
  qed
  then show ?thesis using pos pc x by (intro lcpc_step_inv [OF inv pos(1)]) (auto simp: lpos_def active_def)
qed

lemma l_store_inv:
  assumes inv: "seqlock_inv \<sigma>" and len: "committed \<sigma> < 2 ^ 64" and pc: "lcpc \<sigma> = LStore x y sz acc"
  shows "seqlock_inv ((lset_read (c_read_pos (lcons \<sigma>) + 1) \<sigma>)
          \<lparr>lcpc := LIdle, lrcvd := lrcvd \<sigma> @ [(unat (c_read_pos (lcons \<sigma>)), x, y, sz, acc)]\<rparr>)"
    (is "seqlock_inv ?\<tau>")
proof -
  obtain r w where pos: "lpos \<sigma> r w" "lcpc_inv \<sigma> r (lcpc \<sigma>)" using inv by (rule inv_pos)
  have rw: "r < w" "w \<le> published \<sigma>" using pos(1) pc by (simp_all add: lpos_def active_def)
  then have "r < 2 ^ 64" using len published_le [of \<sigma>] by simp
  moreover have rp: "c_read_pos (lcons \<sigma>) = of_nat r" using pos(1) by (simp add: lpos_def lossy_consumer_def)
  ultimately have r: "unat (c_read_pos (lcons \<sigma>)) = r" by (simp add: unat_of_nat)
  have whole: "whole ?\<tau> = whole \<sigma>" by (intro ext) (simp add: whole_def)
  have "lrcvd_inv ?\<tau>"
    using inv pos(2) pc whole by (auto simp: lrcvd_inv_def r seqlock_inv_def)
  moreover have "lossy_consumer (Suc r) w (lcons ?\<tau>) (lseg \<sigma>)"
    using pos(1) rw rp by (simp add: lpos_def lossy_consumer_def)
  ultimately show ?thesis
    using rw by (intro lcons_step_inv [OF inv, where x = "c_read_pos (lcons \<sigma>) + 1" and r = "Suc r" and w = w]) (auto simp: active_def)
qed

section \<open>Reachable states\<close>

lemma lossy_step_inv:
  assumes "lossy_step \<sigma> \<tau>" and inv: "seqlock_inv \<sigma>" and len: "committed \<sigma> < 2 ^ 64"
  shows "seqlock_inv \<tau>"
proof -
  obtain r w where pos: "lpos \<sigma> r w" "lcpc_inv \<sigma> r (lcpc \<sigma>)" using inv by (rule inv_pos)
  have rw: "r \<le> w" "c_read_pos (lcons \<sigma>) = of_nat r" "c_write_cache (lcons \<sigma>) = of_nat w"
    using pos(1) by (simp_all add: lpos_def lossy_consumer_def)
  note simple = lcpc_step_inv [OF inv pos(1)]
  show ?thesis
    using assms(1)
  proof (cases rule: lossy_step.cases)
    case l_fast
    then have "r \<noteq> w" using rw by auto
    then show ?thesis using l_fast rw by (auto intro!: simple)
  next
    case l_slow
    then show ?thesis by (auto intro!: simple simp: active_def)
  next
    case l_near
    then show ?thesis using pos(1) by (auto intro!: simple simp: active_def lpos_def)
  next
    case l_odd
    then show ?thesis by (auto intro!: simple simp: active_def)
  next
    case l_differs
    then show ?thesis by (auto intro!: simple simp: active_def)
  next
    case (l_load v)
    then show ?thesis using l_load_inv [OF inv _ len, of v] by simp
  qed (use inv len in \<open>auto intro: o_begin_inv o_mark_inv o_size_inv o_byte_inv o_commit_inv o_publish_inv
       l_lapped_inv l_even_inv l_size_inv l_byte_inv l_same_inv l_reload_inv l_store_inv\<close>)
qed

lemma committed_mono: "lossy_step \<sigma> \<tau> \<Longrightarrow> committed \<sigma> \<le> committed \<tau>"
  by (cases rule: lossy_step.cases) (auto simp: lset_mem_def lset_read_def)

interpretation seqlock: preserved lossy_step "\<lambda>\<sigma>. committed \<sigma> < 2 ^ 64 \<longrightarrow> seqlock_inv \<sigma>"
  by unfold_locales (meson committed_mono le_less_trans lossy_step_inv)

lemma lossy_init_inv:
  assumes "fst (create cap max_msg opts env) = Inr s" and "unat max_msg \<le> 2 ^ 32 - 72"
  shows "seqlock_inv (lossy_init s pid_p pid_c n)" and "lcap (lossy_init s pid_p pid_c n) = unat cap"
    and "lbuf (lossy_init s pid_p pid_c n) = n"
proof -
  obtain p s1 where p: "new_OverwriteProducer pid_p s = (p, s1)" by fastforce
  obtain c s2 where c: "new_Consumer pid_c s1 = (c, s2)" by fastforce
  have init: "lossy_init s pid_p pid_c n
      = \<lparr> lseg = s2, lprod = p, lppc = OIdle, lcons = c, lcpc = LIdle, lbuf = n, lsent = [], lrcvd = [] \<rparr>"
    by (simp add: lossy_init_def p c)
  have fresh: "lossy_sys [] (p, c, s2)" "capacity (ctrl s2) = cap" using fresh_lossy [OF assms p c] by simp_all
  then have i: "lossy_inv [] p s2" by (simp add: lossy_sys_def)
  have s: "s = init_segment cap max_msg (make_session_id env) (compute_shm_size cap max_msg)"
    using assms(1) by (auto simp: create_def Let_def split: if_splits)
  have m: "mem s2 = (\<lambda>_. 0)" "c_read_pos c = 0" "c_write_cache c = 0"
    using p c by (auto simp: new_OverwriteProducer_def new_Consumer_def s init_segment_def)
  have zero: "load32 (\<lambda>_. 0) a = 0" for a by (simp add: load32_def read_bytes_def le32_of_def numeral_eq_Suc)
  have "lossy_consumer 0 0 c s2" using fresh m by (auto simp: lossy_sys_def lossy_consumer_def)
  then show "seqlock_inv (lossy_init s pid_p pid_c n)"
    using i unfolding init
    by (auto simp: seqlock_inv_def lcfg_def lossy_inv_def lpos_def published_def active_def ldata_def lgens_def gen_of_def
        writing_at_def busy_def lrcvd_inv_def m zero)
  show "lcap (lossy_init s pid_p pid_c n) = unat cap" "lbuf (lossy_init s pid_p pid_c n) = n"
    by (simp_all add: init fresh)
qed

lemma lossy_frame: "lossy_step \<sigma> \<tau> \<Longrightarrow> lcap \<tau> = lcap \<sigma> \<and> lbuf \<tau> = lbuf \<sigma>"
  by (cases rule: lossy_step.cases) (auto simp: lset_mem_def lset_read_def)

lemma lossy_frame_run: "lossy_step\<^sup>*\<^sup>* \<sigma> \<tau> \<Longrightarrow> lcap \<tau> = lcap \<sigma> \<and> lbuf \<tau> = lbuf \<sigma>"
  by (induction rule: rtranclp_induct) (auto dest: lossy_frame)

end
