(* ===== verification/Spsc_Seqlock_Props.thy ===== *)
theory Spsc_Seqlock_Props
  imports Spsc_Seqlock
begin

text \<open>
  The steps of the lossy ring against the sequential calls of \<open>Spsc_Lossy\<close>, and the property of every
  interleaving.
\<close>

section \<open>Calls that are not interrupted\<close>

text \<open>Run without interference the steps of one call compose to \<open>ow_push\<close> and \<open>try_pop_lossy\<close>.\<close>

lemma o_copy_steps:
  assumes "lppc \<sigma> = OCopy m i g" and "i \<le> length m"
  shows "lossy_step\<^sup>*\<^sup>* \<sigma> ((lset_mem (write_bytes (mem (lseg \<sigma>)) (payload_ptr (o_slot (lprod \<sigma>)) + i) (drop i m)) \<sigma>)
    \<lparr>lppc := OCopy m (length m) g\<rparr>)"
  using assms
proof (induction "length m - i" arbitrary: i \<sigma>)
  case 0
  then have "(lset_mem (write_bytes (mem (lseg \<sigma>)) (payload_ptr (o_slot (lprod \<sigma>)) + i) (drop i m)) \<sigma>)
      \<lparr>lppc := OCopy m (length m) g\<rparr> = \<sigma>" by (cases \<sigma>) (simp add: lset_mem_def)
  then show ?case by simp
next
  case (Suc k)
  let ?a = "payload_ptr (o_slot (lprod \<sigma>))"
  let ?\<tau> = "(lset_mem ((mem (lseg \<sigma>))(?a + i := m ! i)) \<sigma>)\<lparr>lppc := OCopy m (Suc i) g\<rparr>"
  have i: "i < length m" using Suc.hyps(2) by simp
  have "write_bytes ((mem (lseg \<sigma>))(?a + i := m ! i)) (?a + Suc i) (drop (Suc i) m)
      = write_bytes (mem (lseg \<sigma>)) (?a + i) (drop i m)"
    using i by (auto simp: write_bytes_def fun_eq_iff nth_Cons' simp flip: Cons_nth_drop_Suc)
  moreover have "lossy_step\<^sup>*\<^sup>* ?\<tau> ((lset_mem (write_bytes (mem (lseg ?\<tau>)) (payload_ptr (o_slot (lprod ?\<tau>)) + Suc i)
      (drop (Suc i) m)) ?\<tau>)\<lparr>lppc := OCopy m (length m) g\<rparr>)"
    using Suc.hyps i by (intro Suc.hyps(1)) auto
  moreover have "lossy_step \<sigma> ?\<tau>" by (rule lossy_step.o_byte [OF Suc.prems(1) i])
  ultimately show ?case by (simp add: lset_mem_def converse_rtranclp_into_rtranclp)
qed

lemma ow_push_steps:
  assumes pc: "lppc \<sigma> = OIdle" and len: "length m < 2 ^ 32"
    and push: "ow_push m (of_nat (length m)) (lprod \<sigma>) (lseg \<sigma>) = (True, p', s')"
  shows "lossy_step\<^sup>*\<^sup>* \<sigma> (\<sigma>\<lparr>lseg := s', lprod := p', lsent := lsent \<sigma> @ [m]\<rparr>)"
proof -
  let ?s = "o_slot (lprod \<sigma>)" let ?g = "gen_of \<sigma> ?s"
  let ?m1 = "store32 (mem (lseg \<sigma>)) (gen_ptr ?s) (?g + 1)"
  let ?m2 = "store32 ?m1 (size_ptr ?s) (of_nat (length m))"
  let ?m3 = "write_bytes ?m2 (payload_ptr ?s) m"
  let ?m4 = "store32 ?m3 (gen_ptr ?s) (?g + 2)"
  have ok: "\<not> o_max_msg (lprod \<sigma>) < of_nat (length m)" using push by (auto simp: ow_push_def split: if_splits)
  define \<sigma>1 where "\<sigma>1 = \<sigma>\<lparr>lppc := OMark m\<rparr>"
  define \<sigma>2 where "\<sigma>2 = (lset_mem ?m1 \<sigma>)\<lparr>lppc := OSize m ?g\<rparr>"
  define \<sigma>3 where "\<sigma>3 = (lset_mem ?m2 \<sigma>)\<lparr>lppc := OCopy m 0 ?g\<rparr>"
  define \<sigma>4 where "\<sigma>4 = (lset_mem ?m3 \<sigma>)\<lparr>lppc := OCopy m (length m) ?g\<rparr>"
  define \<sigma>5 where "\<sigma>5 = (lset_mem ?m4 \<sigma>)\<lparr>lppc := OPublish, lsent := lsent \<sigma> @ [m]\<rparr>"
  define \<tau> where "\<tau> = \<sigma>\<lparr>lseg := s', lprod := p', lsent := lsent \<sigma> @ [m]\<rparr>"
  have "lossy_step\<^sup>*\<^sup>* \<sigma> \<sigma>1" using lossy_step.o_begin [OF pc len ok] by (simp add: \<sigma>1_def)
  also have "lossy_step \<sigma>1 \<sigma>2"
    using lossy_step.o_mark [of \<sigma>1 m ?g] by (simp add: \<sigma>1_def \<sigma>2_def gen_of_def lset_mem_def)
  also have "lossy_step \<sigma>2 \<sigma>3" using lossy_step.o_size [of \<sigma>2 m ?g] by (simp add: \<sigma>2_def \<sigma>3_def lset_mem_def)
  also have "lossy_step\<^sup>*\<^sup>* \<sigma>3 \<sigma>4" using o_copy_steps [of \<sigma>3 m 0 ?g] by (simp add: \<sigma>3_def \<sigma>4_def lset_mem_def)
  also have "lossy_step \<sigma>4 \<sigma>5" using lossy_step.o_commit [of \<sigma>4 m ?g] by (simp add: \<sigma>4_def \<sigma>5_def lset_mem_def)
  also have "lossy_step \<sigma>5 \<tau>"
    using lossy_step.o_publish [of \<sigma>5] push len ok pc
    by (cases \<sigma>) (auto simp: \<sigma>5_def \<tau>_def lset_mem_def ow_push_def Let_def fill_slot_def o_slot_def gen_of_def unat_of_nat)
  finally show ?thesis by (simp only: \<tau>_def)
qed

lemma lcopy_len_upd [simp]:
  "lcopy_len sz (\<sigma>\<lparr>lcpc := pc\<rparr>) = lcopy_len sz \<sigma>" "lcopy_len sz (\<sigma>\<lparr>lcons := c\<rparr>) = lcopy_len sz \<sigma>"
  by (simp_all add: lcopy_len_def)

lemma l_copy_steps:
  assumes "lcpc \<sigma> = LCopy g w sz acc" and "length acc \<le> lcopy_len sz \<sigma>"
  shows "lossy_step\<^sup>*\<^sup>* \<sigma> (\<sigma>\<lparr>lcpc := LCopy g w sz (acc @ read_bytes (mem (lseg \<sigma>))
    (payload_ptr (c_slot (lcons \<sigma>)) + length acc) (lcopy_len sz \<sigma> - length acc))\<rparr>)"
  using assms
proof (induction "lcopy_len sz \<sigma> - length acc" arbitrary: acc \<sigma>)
  case 0
  have same: "\<sigma>\<lparr>lcpc := LCopy g w sz acc\<rparr> = \<sigma>" using 0 by (cases \<sigma>) simp
  have "lcopy_len sz \<sigma> - length acc = 0" using 0 by simp
  then show ?case by (simp only: read_bytes_0 append_Nil2 same rtranclp.rtrancl_refl)
next
  case (Suc k)
  let ?a = "payload_ptr (c_slot (lcons \<sigma>)) + length acc" and ?m = "mem (lseg \<sigma>)"
  let ?\<tau> = "\<sigma>\<lparr>lcpc := LCopy g w sz (acc @ [?m ?a])\<rparr>"
  have lt: "length acc < lcopy_len sz \<sigma>" using Suc.hyps(2) by simp
  have "lossy_step\<^sup>*\<^sup>* ?\<tau> (?\<tau>\<lparr>lcpc := LCopy g w sz ((acc @ [?m ?a]) @ read_bytes (mem (lseg ?\<tau>))
    (payload_ptr (c_slot (lcons ?\<tau>)) + length (acc @ [?m ?a])) (lcopy_len sz ?\<tau> - length (acc @ [?m ?a])))\<rparr>)"
    using Suc.hyps(2) by (intro Suc.hyps(1)) auto
  moreover have "?m ?a # read_bytes ?m (Suc ?a) (lcopy_len sz \<sigma> - Suc (length acc))
      = read_bytes ?m ?a (lcopy_len sz \<sigma> - length acc)"
  proof -
    have "lcopy_len sz \<sigma> - length acc = Suc k" "lcopy_len sz \<sigma> - Suc (length acc) = k"
      using Suc.hyps(2) by simp_all
    then show ?thesis by (simp only: read_bytes_Cons)
  qed
  moreover have "lossy_step \<sigma> ?\<tau>" by (rule lossy_step.l_byte [OF Suc.prems(1) lt])
  ultimately show ?case by (simp add: converse_rtranclp_into_rtranclp)
qed

text \<open>The result a call adds: none when it found nothing or reported a loss.\<close>

definition popped_lossy :: "lsys \<Rightarrow> u32 \<Rightarrow> bool \<Rightarrow> bytes \<Rightarrow> Consumer \<Rightarrow> (nat \<times> nat \<times> nat \<times> u32 \<times> bytes) list" where
  "popped_lossy \<sigma> n lost out c =
     (if lost \<or> c_read_pos c = c_read_pos (lcons \<sigma>) then []
      else [(unat (c_read_pos (lcons \<sigma>)), committed \<sigma>, committed \<sigma>, n, take (lcopy_len n \<sigma>) out)])"

lemma lap_steps:
  assumes pc: "lcpc \<sigma> = LLap" and near: "\<not> ucast (c_capacity (lcons \<sigma>)) < c_write_cache (lcons \<sigma>) - c_read_pos (lcons \<sigma>)"
    and even: "gen_of \<sigma> (c_slot (lcons \<sigma>)) AND 1 = 0"
    and pop: "pop_slot buf (lbuf \<sigma>) (lcons \<sigma>) (lseg \<sigma>) = (n, out, c', s')"
  shows "lossy_step\<^sup>*\<^sup>* \<sigma> (\<sigma>\<lparr>lseg := s', lcons := c', lcpc := LIdle, lrcvd := lrcvd \<sigma> @ popped_lossy \<sigma> n False out c'\<rparr>)"
proof -
  let ?g = "gen_of \<sigma> (c_slot (lcons \<sigma>))" and ?W = "committed \<sigma>"
  let ?bytes = "read_bytes (mem (lseg \<sigma>)) (payload_ptr (c_slot (lcons \<sigma>))) (lcopy_len n \<sigma>)"
  have n: "n = load32 (mem (lseg \<sigma>)) (size_ptr (c_slot (lcons \<sigma>)))" and out: "take (lcopy_len n \<sigma>) out = ?bytes"
    using pop by (auto simp: pop_slot_def Let_def copy_out_def lcopy_len_def)
  define \<sigma>1 where "\<sigma>1 = \<sigma>\<lparr>lcpc := LGen\<rparr>"
  define \<sigma>2 where "\<sigma>2 = \<sigma>\<lparr>lcpc := LSize ?g ?W\<rparr>"
  define \<sigma>3 where "\<sigma>3 = \<sigma>\<lparr>lcpc := LCopy ?g ?W n []\<rparr>"
  define \<sigma>4 where "\<sigma>4 = \<sigma>\<lparr>lcpc := LCopy ?g ?W n ?bytes\<rparr>"
  define \<sigma>5 where "\<sigma>5 = \<sigma>\<lparr>lcpc := LStore ?W ?W n ?bytes\<rparr>"
  define \<tau> where "\<tau> = \<sigma>\<lparr>lseg := s', lcons := c', lcpc := LIdle, lrcvd := lrcvd \<sigma> @ popped_lossy \<sigma> n False out c'\<rparr>"
  have "lossy_step\<^sup>*\<^sup>* \<sigma> \<sigma>1" using lossy_step.l_near [OF pc near] by (simp add: \<sigma>1_def)
  also have "lossy_step \<sigma>1 \<sigma>2"
    using lossy_step.l_even [of \<sigma>1 ?g] even by (simp add: \<sigma>1_def \<sigma>2_def gen_of_def)
  also have "lossy_step \<sigma>2 \<sigma>3" using lossy_step.l_size [of \<sigma>2 ?g ?W] n by (simp add: \<sigma>2_def \<sigma>3_def)
  also have "lossy_step\<^sup>*\<^sup>* \<sigma>3 \<sigma>4" using l_copy_steps [of \<sigma>3 ?g ?W n "[]"] by (simp add: \<sigma>3_def \<sigma>4_def)
  also have "lossy_step \<sigma>4 \<sigma>5"
    using lossy_step.l_same [of \<sigma>4 ?g ?W n ?bytes] by (simp add: \<sigma>4_def \<sigma>5_def gen_of_def)
  also have "lossy_step \<sigma>5 \<tau>"
    using lossy_step.l_store [of \<sigma>5 ?W ?W n ?bytes] pop
    by (auto simp: \<sigma>5_def \<tau>_def popped_lossy_def out lset_read_def pop_slot_def Let_def)
  finally show ?thesis by (simp only: \<tau>_def)
qed

definition refreshed :: "Consumer \<Rightarrow> segment \<Rightarrow> Consumer" where
  "refreshed c s = (if c_read_pos c = c_write_cache c then c\<lparr>c_write_cache := write_pos (ctrl s)\<rparr> else c)"

lemma refreshed_pos [simp]: "c_read_pos (refreshed c s) = c_read_pos c"
  by (simp add: refreshed_def)

lemma try_pop_lossy_refreshed:
  "try_pop_lossy buf n undisturbed c s =
     (let c = refreshed c s; r = c_write_cache c - ucast (c_capacity c) in
      if c_read_pos c = c_write_cache c then (0, False, buf, c, s)
      else if ucast (c_capacity c) < c_write_cache c - c_read_pos c
      then (0, True, buf, c\<lparr>c_read_pos := r\<rparr>, s\<lparr>ctrl := (ctrl s)\<lparr>read_pos := r\<rparr>\<rparr>)
      else if load32 (mem s) (gen_ptr (c_slot c)) AND 1 \<noteq> 0 then (0, False, buf, c, s)
      else case pop_slot buf n c s of (k, out, c', s') \<Rightarrow> (k, False, out, c', s'))"
  unfolding try_pop_lossy_def refreshed_def [symmetric]
  by (simp add: Let_def undisturbed_def pop_slot_def)

lemma refresh_steps:
  assumes pc: "lcpc \<sigma> = LIdle"
  shows "lossy_step\<^sup>*\<^sup>* \<sigma> (\<sigma>\<lparr>lcons := refreshed (lcons \<sigma>) (lseg \<sigma>),
    lcpc := if c_read_pos (lcons \<sigma>) = c_write_cache (refreshed (lcons \<sigma>) (lseg \<sigma>)) then LIdle else LLap\<rparr>)"
proof (cases "c_read_pos (lcons \<sigma>) = c_write_cache (lcons \<sigma>)")
  case False
  then have "lossy_step \<sigma> (\<sigma>\<lparr>lcpc := LLap\<rparr>)" by (rule lossy_step.l_fast [OF pc])
  moreover have "\<sigma>\<lparr>lcons := lcons \<sigma>, lcpc := LLap\<rparr> = \<sigma>\<lparr>lcpc := LLap\<rparr>" by (cases \<sigma>) simp
  ultimately show ?thesis using False by (simp add: refreshed_def)
next
  case True
  have "lossy_step \<sigma> (\<sigma>\<lparr>lcpc := LLoad\<rparr>)" by (rule lossy_step.l_slow [OF pc True])
  moreover have "lossy_step (\<sigma>\<lparr>lcpc := LLoad\<rparr>) (\<sigma>\<lparr>lcons := (lcons \<sigma>)\<lparr>c_write_cache := write_pos (lcb \<sigma>)\<rparr>,
      lcpc := if c_read_pos (lcons \<sigma>) = write_pos (lcb \<sigma>) then LIdle else LLap\<rparr>)"
    using lossy_step.l_load [of "\<sigma>\<lparr>lcpc := LLoad\<rparr>" "write_pos (lcb \<sigma>)"] by simp
  ultimately show ?thesis using True by (simp add: refreshed_def converse_rtranclp_into_rtranclp)
qed

lemma lossy_pop_steps:
  assumes pc: "lcpc \<sigma> = LIdle"
    and pop: "try_pop_lossy buf (lbuf \<sigma>) undisturbed (lcons \<sigma>) (lseg \<sigma>) = (n, lost, out, c', s')"
  shows "lossy_step\<^sup>*\<^sup>* \<sigma> (\<sigma>\<lparr>lseg := s', lcons := c', lrcvd := lrcvd \<sigma> @ popped_lossy \<sigma> n lost out c'\<rparr>)"
proof -
  let ?c = "refreshed (lcons \<sigma>) (lseg \<sigma>)"
  define \<tau> where "\<tau> = \<sigma>\<lparr>lcons := ?c, lcpc := if c_read_pos ?c = c_write_cache ?c then LIdle else LLap\<rparr>"
  define \<rho> where "\<rho> = \<sigma>\<lparr>lseg := s', lcons := c', lrcvd := lrcvd \<sigma> @ popped_lossy \<sigma> n lost out c'\<rparr>"
  have \<tau>: "lossy_step\<^sup>*\<^sup>* \<sigma> \<tau>" using refresh_steps [OF pc] by (simp add: \<tau>_def)
  note eq = try_pop_lossy_refreshed [of buf "lbuf \<sigma>" "lcons \<sigma>" "lseg \<sigma>", unfolded pop Let_def]
  consider (empty) "c_read_pos ?c = c_write_cache ?c"
    | (lap) "c_read_pos ?c \<noteq> c_write_cache ?c" "ucast (c_capacity ?c) < c_write_cache ?c - c_read_pos ?c"
    | (odd) "c_read_pos ?c \<noteq> c_write_cache ?c" "\<not> ucast (c_capacity ?c) < c_write_cache ?c - c_read_pos ?c"
        "gen_of \<sigma> (c_slot ?c) AND 1 \<noteq> 0"
    | (found) "c_read_pos ?c \<noteq> c_write_cache ?c" "\<not> ucast (c_capacity ?c) < c_write_cache ?c - c_read_pos ?c"
        "gen_of \<sigma> (c_slot ?c) AND 1 = 0" by blast
  then have "lossy_step\<^sup>*\<^sup>* \<tau> \<rho>"
  proof cases
    case empty
    then have "\<tau> = \<rho>" using eq pc by (cases \<sigma>) (simp add: \<tau>_def \<rho>_def popped_lossy_def)
    then show ?thesis by simp
  next
    case lap
    have "lossy_step \<tau> \<rho>"
      using lossy_step.l_lapped [of \<tau>] lap eq pc by (cases \<sigma>) (simp add: \<tau>_def \<rho>_def popped_lossy_def lset_read_def)
    then show ?thesis by simp
  next
    case odd
    have "lossy_step\<^sup>*\<^sup>* \<tau> (\<tau>\<lparr>lcpc := LGen\<rparr>)" using lossy_step.l_near [of \<tau>] odd by (simp add: \<tau>_def)
    also have "lossy_step (\<tau>\<lparr>lcpc := LGen\<rparr>) (\<tau>\<lparr>lcpc := LIdle\<rparr>)"
      using lossy_step.l_odd [of "\<tau>\<lparr>lcpc := LGen\<rparr>"] odd(3) by (simp add: \<tau>_def gen_of_def)
    also have "\<tau>\<lparr>lcpc := LIdle\<rparr> = \<rho>" using eq odd pc by (cases \<sigma>) (simp add: \<tau>_def \<rho>_def popped_lossy_def gen_of_def)
    finally show ?thesis .
  next
    case found
    then have ps: "pop_slot buf (lbuf \<sigma>) ?c (lseg \<sigma>) = (n, out, c', s')" "\<not> lost"
      using eq by (auto simp: gen_of_def split: prod.splits)
    have "popped_lossy \<tau> n False out c' = popped_lossy \<sigma> n lost out c'"
      using ps(2) by (simp add: popped_lossy_def \<tau>_def lcopy_len_def)
    then have "\<tau>\<lparr>lseg := s', lcons := c', lcpc := LIdle, lrcvd := lrcvd \<tau> @ popped_lossy \<tau> n False out c'\<rparr> = \<rho>"
      using pc by (cases \<sigma>) (simp add: \<tau>_def \<rho>_def)
    then show ?thesis
      using lap_steps [of \<tau> buf n out c' s'] ps(1) found by (simp add: \<tau>_def gen_of_def)
  qed
  with \<tau> have "lossy_step\<^sup>*\<^sup>* \<sigma> \<rho>" by (rule rtranclp_trans)
  then show ?thesis by (simp only: \<rho>_def)
qed

section \<open>Properties\<close>

text \<open>
  C4. No torn message. However the steps of an overwriting producer and a lossy consumer interleave, a message
  that a pop returns is one whole pushed message: the newest that was committed to the consumer's slot
  when its generation was first read, with its full length and its bytes as far as the caller's buffer
  goes. It is the message at the consumer's position or a later one. Required is that fewer than \<open>2 ^ 31\<close> messages are
  committed between the two readings of the generation, which is when the 32-bit counter comes round.
\<close>

theorem lossy_read_whole:
  assumes "fst (create cap max_msg opts env) = Inr s" and "unat max_msg \<le> 2 ^ 32 - 72"
    and run: "lossy_step\<^sup>*\<^sup>* (lossy_init s pid_p pid_c n) \<sigma>" and len: "length (lsent \<sigma>) < 2 ^ 64"
    and got: "(r, w, w', sz, out) \<in> set (lrcvd \<sigma>)" and window: "w' < w + 2 ^ 31" and i: "i = newest (unat cap) r w"
  shows "r \<le> i \<and> i < w \<and> w \<le> i + unat cap \<and> i < length (lsent \<sigma>) \<and>
    sz = of_nat (length (lsent \<sigma> ! i)) \<and> out = take (unat n) (lsent \<sigma> ! i)"
proof -
  note init = lossy_init_inv [OF assms(1,2), of pid_p pid_c n]
  have fr: "lcap \<sigma> = unat cap" "lbuf \<sigma> = n" using lossy_frame_run [OF run] init(2,3) by simp_all
  have inv: "seqlock_inv \<sigma>" using seqlock.along_run [OF run] init(1) len by blast
  have rw: "r < w" "w \<le> w'" "w' \<le> length (lsent \<sigma>)" "whole \<sigma> r w sz out"
    using inv got window by (auto simp: seqlock_inv_def lrcvd_inv_def)
  have "0 < unat cap" using inv_cfg(2) [OF inv] by (simp add: fr)
  then show ?thesis using newest_bounds(1,2) [OF rw(1), of "unat cap"] rw
    by (auto simp: i whole_def fr newest_def)
qed

definition seqlock_start :: lsys where "seqlock_start = lossy_init sample_segment 1 2 8"

theorem lossy_read_whole_witness:
  "\<exists>\<sigma>. lossy_step\<^sup>*\<^sup>* (lossy_init sample_segment 1 2 8) \<sigma> \<and> lsent \<sigma> = [[65]] \<and> lrcvd \<sigma> = [(0, 1, 1, 1, [65])]"
proof -
  let ?\<sigma> = seqlock_start
  obtain ok p' s1 where push: "ow_push [65] (of_nat (length [65 :: u8])) (lprod ?\<sigma>) (lseg ?\<sigma>) = (ok, p', s1)"
    by (metis prod_cases3)
  obtain k lost out c' s2 where pop: "try_pop_lossy [] 8 undisturbed (lcons ?\<sigma>) s1 = (k, lost, out, c', s2)" by (metis prod_cases5)
  have f: "lppc ?\<sigma> = OIdle" "lcpc ?\<sigma> = LIdle" "lbuf ?\<sigma> = 8" "lsent ?\<sigma> = []" "lrcvd ?\<sigma> = []" "c_read_pos (lcons ?\<sigma>) = 0"
    by code_simp+
  have "case ow_push [65] (of_nat (length [65 :: u8])) (lprod ?\<sigma>) (lseg ?\<sigma>) of (ok, p, s) \<Rightarrow>
      ok \<and> (case try_pop_lossy [] 8 undisturbed (lcons ?\<sigma>) s of (k, lost, out, c, _) \<Rightarrow> k = 1 \<and> \<not> lost \<and> c_read_pos c = 1)" by code_simp
  then have v: "ok" "k = 1" "\<not> lost" "c_read_pos c' = 1" using push pop by simp_all
  let ?\<sigma>1 = "?\<sigma>\<lparr>lseg := s1, lprod := p', lsent := [[65]]\<rparr>"
  let ?\<sigma>2 = "?\<sigma>1\<lparr>lseg := s2, lcons := c', lrcvd := popped_lossy ?\<sigma>1 k lost out c'\<rparr>"
  have "lossy_step\<^sup>*\<^sup>* ?\<sigma> ?\<sigma>1" using ow_push_steps [of ?\<sigma> "[65]" p' s1] f push v(1) by simp
  also have "lossy_step\<^sup>*\<^sup>* ?\<sigma>1 ?\<sigma>2" using lossy_pop_steps [of ?\<sigma>1 "[]" k lost out c' s2] f pop by simp
  finally have run: "lossy_step\<^sup>*\<^sup>* (lossy_init sample_segment 1 2 8) ?\<sigma>2" by (simp add: seqlock_start_def)
  have rc: "lrcvd ?\<sigma>2 = [(0, 1, 1, 1, take (lcopy_len 1 ?\<sigma>1) out)]" using f v by (simp add: popped_lossy_def)
  moreover from this have "take (lcopy_len 1 ?\<sigma>1) out = [65]"
    using lossy_read_whole [OF sample_create _ run, of 0 1 1 1 "take (lcopy_len 1 ?\<sigma>1) out"] by (simp add: newest_def)
  ultimately show ?thesis using run by (intro exI [of _ ?\<sigma>2]) simp
qed

end
