(* ===== verification/Spsc_Wait_Free.thy ===== *)
theory Spsc_Wait_Free
  imports Spsc_Seqlock_Props
begin

text \<open>
  The rings are lock-free in a strong sense: no call waits for the other side. Each call is a thread in the sense of
  the locale \<open>progress\<close>: from every program point a step of its own is possible, and it is at its end after a
  bounded number of them, whatever the other side does meanwhile.
\<close>

section \<open>The bus\<close>

fun push_left :: "prod_pc \<Rightarrow> nat" where
  "push_left PIdle = 0"
| "push_left (PLoad m) = length m + 3"
| "push_left (PSize m) = length m + 2"
| "push_left (PCopy m i) = length m - i + 1"

fun pop_left :: "u32 \<Rightarrow> cons_pc \<Rightarrow> nat" where
  "pop_left n CIdle = 0"
| "pop_left n CLoad = unat n + 3"
| "pop_left n CSize = unat n + 2"
| "pop_left n (CCopy sz acc) = unat n - length acc + 1"

lemma pop_room: "conc_inv \<sigma> \<Longrightarrow> cpc \<sigma> = CCopy sz acc \<Longrightarrow> length acc \<le> copy_len sz \<sigma>"
  by (simp add: conc_inv_def)

lemma push_enabled:
  assumes "conc_inv \<sigma>" and "0 < push_left (ppc \<sigma>)"
  shows "\<exists>\<tau>. bus_step \<sigma> \<tau> \<and> ppc \<tau> \<noteq> ppc \<sigma>"
proof (cases "ppc \<sigma>")
  case (PLoad m)
  show ?thesis by (rule exI, rule conjI, rule bus_step.p_load [OF PLoad order_refl refl]) (simp add: PLoad)
next
  case (PSize m)
  show ?thesis by (rule exI, rule conjI, rule bus_step.p_size [OF PSize]) (simp add: PSize)
next
  case (PCopy m i)
  then consider "i < length m" | "i = length m" using assms(1) by (force simp: conc_inv_def)
  then show ?thesis
  proof cases
    case 1
    show ?thesis by (rule exI, rule conjI, rule bus_step.p_byte [OF PCopy 1]) (simp add: PCopy)
  next
    case 2
    show ?thesis by (rule exI, rule conjI, rule bus_step.p_publish [OF PCopy [unfolded 2]]) (simp add: PCopy)
  qed
qed (use assms(2) in simp)

lemma pop_enabled:
  assumes "conc_inv \<sigma>" and "0 < pop_left n (cpc \<sigma>)"
  shows "\<exists>\<tau>. bus_step \<sigma> \<tau> \<and> cpc \<tau> \<noteq> cpc \<sigma>"
proof (cases "cpc \<sigma>")
  case CLoad
  show ?thesis by (rule exI, rule conjI, rule bus_step.c_load [OF CLoad order_refl refl]) (simp add: CLoad)
next
  case CSize
  show ?thesis by (rule exI, rule conjI, rule bus_step.c_size [OF CSize]) (simp add: CSize)
next
  case (CCopy sz acc)
  then consider "length acc < copy_len sz \<sigma>" | "length acc = copy_len sz \<sigma>" using pop_room [OF assms(1)] by force
  then show ?thesis
  proof cases
    case 1
    show ?thesis by (rule exI, rule conjI, rule bus_step.c_byte [OF CCopy 1]) (simp add: CCopy)
  next
    case 2
    show ?thesis by (rule exI, rule conjI, rule bus_step.c_publish [OF CCopy 2]) (simp add: CCopy)
  qed
qed (use assms(2) in simp)

interpretation push: progress bus_step conc_inv ppc "\<lambda>\<sigma>. push_left (ppc \<sigma>)"
proof unfold_locales
  show "conc_inv \<tau>" if "conc_inv \<sigma>" "bus_step \<sigma> \<tau>" for \<sigma> \<tau> using that bus_step_inv by blast
  show "push_left (ppc \<tau>) < push_left (ppc \<sigma>)"
    if "conc_inv \<sigma>" "0 < push_left (ppc \<sigma>)" "bus_step \<sigma> \<tau>" "ppc \<tau> \<noteq> ppc \<sigma>" for \<sigma> \<tau>
    using that(3,2,4) by cases (auto split: if_splits)
qed (use push_enabled in auto)

interpretation pop: progress bus_step "\<lambda>\<sigma>. conc_inv \<sigma> \<and> buf_sz \<sigma> = n" cpc "\<lambda>\<sigma>. pop_left n (cpc \<sigma>)"
proof unfold_locales
  show "conc_inv \<tau> \<and> buf_sz \<tau> = n" if "conc_inv \<sigma> \<and> buf_sz \<sigma> = n" "bus_step \<sigma> \<tau>" for \<sigma> \<tau>
    using that bus_step_inv step_frame by auto
  show "pop_left n (cpc \<tau>) < pop_left n (cpc \<sigma>)"
    if "conc_inv \<sigma> \<and> buf_sz \<sigma> = n" "0 < pop_left n (cpc \<sigma>)" "bus_step \<sigma> \<tau>" "cpc \<tau> \<noteq> cpc \<sigma>" for \<sigma> \<tau>
    using that(3,1,2,4) copy_len_le(2) [of _ \<sigma>] by cases (auto split: if_splits intro: diff_less_mono2 less_le_trans)
qed (use pop_enabled in auto)

section \<open>The overwriting ring\<close>

fun ow_left :: "ow_pc \<Rightarrow> nat" where
  "ow_left OIdle = 0" | "ow_left (OMark m) = length m + 4" | "ow_left (OSize m g) = length m + 3"
| "ow_left (OCopy m i g) = length m - i + 2" | "ow_left OPublish = 1"

fun lossy_left :: "u32 \<Rightarrow> lc_pc \<Rightarrow> nat" where
  "lossy_left n LIdle = 0" | "lossy_left n LLoad = unat n + 6" | "lossy_left n LLap = unat n + 5" | "lossy_left n LGen = unat n + 4"
| "lossy_left n (LSize g w) = unat n + 3" | "lossy_left n (LCopy g w sz acc) = unat n - length acc + 2"
| "lossy_left n (LStore w w' sz acc) = 1" | "lossy_left n LReload = 1"

text \<open>All that is needed of a state is that the copies have not run past their ends.\<close>

definition copies_ok :: "lsys \<Rightarrow> bool" where
  "copies_ok \<sigma> \<longleftrightarrow> (case lppc \<sigma> of OCopy m i g \<Rightarrow> i \<le> length m | _ \<Rightarrow> True) \<and>
     (case lcpc \<sigma> of LCopy g w sz acc \<Rightarrow> length acc \<le> lcopy_len sz \<sigma> | _ \<Rightarrow> True)"

lemma lossy_buf: "lossy_step \<sigma> \<tau> \<Longrightarrow> lbuf \<tau> = lbuf \<sigma>"
  by (cases rule: lossy_step.cases) (auto simp: lset_mem_def lset_read_def)

lemma lcopy_len_le: "lcopy_len sz \<sigma> \<le> unat (lbuf \<sigma>)"
  by (auto simp: lcopy_len_def word_less_nat_alt)

lemma lcopy_len_cong: "lbuf \<tau> = lbuf \<sigma> \<Longrightarrow> lcopy_len sz \<tau> = lcopy_len sz \<sigma>"
  by (simp add: lcopy_len_def)

lemma copies_ok_step:
  assumes "copies_ok \<sigma>" and "lossy_step \<sigma> \<tau>"
  shows "copies_ok \<tau>"
  using assms(2,1) lcopy_len_cong [OF lossy_buf [OF assms(2)]]
  by cases (auto simp: copies_ok_def lset_mem_def lset_read_def split: ow_pc.splits lc_pc.splits)

lemma ow_enabled:
  assumes "copies_ok \<sigma>" and "0 < ow_left (lppc \<sigma>)"
  shows "\<exists>\<tau>. lossy_step \<sigma> \<tau> \<and> lppc \<tau> \<noteq> lppc \<sigma>"
proof (cases "lppc \<sigma>")
  case (OMark m)
  show ?thesis by (rule exI, rule conjI, rule lossy_step.o_mark [OF OMark refl]) (simp add: OMark)
next
  case (OSize m g)
  show ?thesis by (rule exI, rule conjI, rule lossy_step.o_size [OF OSize]) (simp add: OSize)
next
  case (OCopy m i g)
  then consider "i < length m" | "i = length m" using assms(1) by (force simp: copies_ok_def)
  then show ?thesis
  proof cases
    case 1
    show ?thesis by (rule exI, rule conjI, rule lossy_step.o_byte [OF OCopy 1]) (simp add: OCopy)
  next
    case 2
    show ?thesis by (rule exI, rule conjI, rule lossy_step.o_commit [OF OCopy [unfolded 2]]) (simp add: OCopy)
  qed
next
  case OPublish
  show ?thesis by (rule exI, rule conjI, rule lossy_step.o_publish [OF OPublish]) (simp add: OPublish)
qed (use assms(2) in simp)

lemma lossy_enabled:
  assumes "copies_ok \<sigma>" and "0 < lossy_left n (lcpc \<sigma>)"
  shows "\<exists>\<tau>. lossy_step \<sigma> \<tau> \<and> lcpc \<tau> \<noteq> lcpc \<sigma>"
proof (cases "lcpc \<sigma>")
  case LLoad
  show ?thesis by (rule exI, rule conjI, rule lossy_step.l_load [OF LLoad order_refl]) (simp add: LLoad)
next
  case LLap
  show ?thesis
  proof (cases "ucast (c_capacity (lcons \<sigma>)) < c_write_cache (lcons \<sigma>) - c_read_pos (lcons \<sigma>)")
    case True
    show ?thesis by (rule exI, rule conjI, rule lossy_step.l_lapped [OF LLap True]) (simp add: LLap)
  next
    case False
    show ?thesis by (rule exI, rule conjI, rule lossy_step.l_near [OF LLap False]) (simp add: LLap)
  qed
next
  case LGen
  show ?thesis
  proof (cases "gen_of \<sigma> (c_slot (lcons \<sigma>)) AND 1 = 0")
    case True
    show ?thesis by (rule exI, rule conjI, rule lossy_step.l_even [OF LGen refl True]) (simp add: LGen)
  next
    case False
    show ?thesis by (rule exI, rule conjI, rule lossy_step.l_odd [OF LGen False]) (simp add: LGen)
  qed
next
  case (LSize g w)
  show ?thesis by (rule exI, rule conjI, rule lossy_step.l_size [OF LSize]) (simp add: LSize)
next
  case (LCopy g w sz acc)
  then consider "length acc < lcopy_len sz \<sigma>" | "length acc = lcopy_len sz \<sigma>" using assms(1) by (force simp: copies_ok_def)
  then show ?thesis
  proof cases
    case 1
    show ?thesis by (rule exI, rule conjI, rule lossy_step.l_byte [OF LCopy 1]) (simp add: LCopy)
  next
    case len: 2
    show ?thesis
    proof (cases "gen_of \<sigma> (c_slot (lcons \<sigma>)) = g")
      case True
      show ?thesis by (rule exI, rule conjI, rule lossy_step.l_same [OF LCopy len True]) (simp add: LCopy)
    next
      case False
      show ?thesis by (rule exI, rule conjI, rule lossy_step.l_differs [OF LCopy len False]) (simp add: LCopy)
    qed
  qed
next
  case (LStore w w' sz acc)
  show ?thesis by (rule exI, rule conjI, rule lossy_step.l_store [OF LStore]) (simp add: LStore)
next
  case LReload
  show ?thesis by (rule exI, rule conjI, rule lossy_step.l_reload [OF LReload order_refl refl]) (simp add: LReload)
qed (use assms(2) in simp)

interpretation ow: progress lossy_step copies_ok lppc "\<lambda>\<sigma>. ow_left (lppc \<sigma>)"
proof unfold_locales
  show "ow_left (lppc \<tau>) < ow_left (lppc \<sigma>)"
    if "copies_ok \<sigma>" "0 < ow_left (lppc \<sigma>)" "lossy_step \<sigma> \<tau>" "lppc \<tau> \<noteq> lppc \<sigma>" for \<sigma> \<tau>
    using that(3,2,4) by cases (auto simp: lset_mem_def lset_read_def)
qed (use ow_enabled copies_ok_step in auto)

interpretation lossy: progress lossy_step "\<lambda>\<sigma>. copies_ok \<sigma> \<and> lbuf \<sigma> = n" lcpc "\<lambda>\<sigma>. lossy_left n (lcpc \<sigma>)"
proof unfold_locales
  show "lossy_left n (lcpc \<tau>) < lossy_left n (lcpc \<sigma>)"
    if "copies_ok \<sigma> \<and> lbuf \<sigma> = n" "0 < lossy_left n (lcpc \<sigma>)" "lossy_step \<sigma> \<tau>" "lcpc \<tau> \<noteq> lcpc \<sigma>" for \<sigma> \<tau>
    using that(3,1,2,4) lcopy_len_le [of _ \<sigma>]
    by cases (auto simp: lset_mem_def lset_read_def split: if_splits intro: diff_less_mono2 less_le_trans)
qed (use lossy_enabled copies_ok_step lossy_buf in auto)

lemma lossy_calls_bounded:
  assumes "copies_ok (f 0)" and run: "\<forall>i<k. lossy_step (f i) (f (Suc i))"
  shows "lppc (f 0) = OMark m \<Longrightarrow> \<forall>i<k. lppc (f i) \<noteq> OIdle \<Longrightarrow> card {i. i < k \<and> lppc (f (Suc i)) \<noteq> lppc (f i)} \<le> length m + 4"
    and "\<forall>i<k. lcpc (f i) \<noteq> LIdle \<Longrightarrow> card {i. i < k \<and> lcpc (f (Suc i)) \<noteq> lcpc (f i)} \<le> unat (lbuf (f 0)) + 6"
proof -
  let ?n = "lbuf (f 0)"
  have pos: "0 < ow_left a \<longleftrightarrow> a \<noteq> OIdle" "0 < lossy_left n b \<longleftrightarrow> b \<noteq> LIdle" "lossy_left n b \<le> unat n + 6" for a b n
    by - ((cases a; simp), (cases b; simp), (cases b; simp))
  show "card {i. i < k \<and> lppc (f (Suc i)) \<noteq> lppc (f i)} \<le> length m + 4" if "lppc (f 0) = OMark m" "\<forall>i<k. lppc (f i) \<noteq> OIdle"
    by (rule ow.call_bound [OF run assms(1)]) (use that pos in simp_all)
  show "card {i. i < k \<and> lcpc (f (Suc i)) \<noteq> lcpc (f i)} \<le> unat ?n + 6" if "\<forall>i<k. lcpc (f i) \<noteq> LIdle"
    by (rule lossy.call_bound [OF run, of ?n]) (use that pos assms(1) in simp_all)
qed

section \<open>Properties\<close>

lemma left_pos [simp]: "0 < push_left p \<longleftrightarrow> p \<noteq> PIdle" "0 < pop_left n c \<longleftrightarrow> c \<noteq> CIdle"
  by - ((cases p; simp), (cases c; simp))

lemma max_msg_frame: "reachable \<sigma>0 \<sigma> \<Longrightarrow> max_msg_size (ctrl (seg \<sigma>)) = max_msg_size (ctrl (seg \<sigma>0))"
proof (induction rule: reachable.induct)
  case (step \<sigma> \<tau>)
  from step.hyps(2) step.IH show ?case by cases auto
qed simp

lemma push_left_bound: "conc_inv \<sigma> \<Longrightarrow> push_left (ppc \<sigma>) \<le> unat (max_msg_size (ctrl (seg \<sigma>))) + 3"
  by (cases "ppc \<sigma>") (auto simp: conc_inv_def)

lemma pop_left_bound: "pop_left n c \<le> unat n + 3"
  by (cases c) auto

text \<open>
  C5. The calls of the bus are wait-free. Take any run of the two sides, in any interleaving. While a call of
  \<open>try_push\<close> is in progress the producer can always make a step of its own, and it makes at most as many as the longest
  message has bytes, and three more, before the call has returned; the same holds of \<open>try_pop\<close> with the size
  of the caller's buffer. Neither depends on what the other side does, or on whether it runs at all.
\<close>

theorem bus_wait_free:
  assumes "fst (create cap max_msg opts env) = Inr s" and "unat max_msg \<le> 2 ^ 32 - 72"
    and "reachable (start s pid_p pid_c n) (f 0)" and run: "\<forall>i<k. bus_step (f i) (f (Suc i))"
  shows "((\<forall>i<k. ppc (f i) \<noteq> PIdle) \<longrightarrow> card {i. i < k \<and> ppc (f (Suc i)) \<noteq> ppc (f i)} \<le> unat max_msg + 3) \<and>
    ((\<forall>i<k. cpc (f i) \<noteq> CIdle) \<longrightarrow> card {i. i < k \<and> cpc (f (Suc i)) \<noteq> cpc (f i)} \<le> unat n + 3) \<and>
    (ppc (f k) \<noteq> PIdle \<longrightarrow> (\<exists>\<tau>. bus_step (f k) \<tau> \<and> ppc \<tau> \<noteq> ppc (f k))) \<and>
    (cpc (f k) \<noteq> CIdle \<longrightarrow> (\<exists>\<tau>. bus_step (f k) \<tau> \<and> cpc \<tau> \<noteq> cpc (f k)))"
proof -
  note inv0 = reachable_inv [OF assms(3) start_inv [OF assms(1,2)]]
  have "max_msg_size (ctrl (seg (f 0))) = max_msg" "buf_sz (f 0) = n"
    using max_msg_frame [OF assms(3)] reachable_frame [OF assms(3)] created_segment [OF assms(1)]
    by (auto simp: start_def new_Producer_def new_Consumer_def init_segment_def)
  then have b: "push_left (ppc (f 0)) \<le> unat max_msg + 3" and inv0': "conc_inv (f 0) \<and> buf_sz (f 0) = n"
    using push_left_bound [OF inv0] inv0 by simp_all
  have inv: "conc_inv (f k)" using push.along_path [OF run inv0 order_refl] .
  show ?thesis
  proof (intro conjI impI)
    show "card {i. i < k \<and> ppc (f (Suc i)) \<noteq> ppc (f i)} \<le> unat max_msg + 3" if "\<forall>i<k. ppc (f i) \<noteq> PIdle"
      by (rule push.call_bound [OF run inv0 _ b]) (use that in simp)
    show "card {i. i < k \<and> cpc (f (Suc i)) \<noteq> cpc (f i)} \<le> unat n + 3" if "\<forall>i<k. cpc (f i) \<noteq> CIdle"
      by (rule pop.call_bound [OF run inv0' _ pop_left_bound]) (use that in simp)
  qed (use push_enabled [OF inv] pop_enabled [OF inv, of n] in simp_all)
qed

definition push_run :: "nat \<Rightarrow> sys" where
  "push_run i = (if i = 0 then sample_both else
     (set_mem (store32 (mem (seg sample_both)) (size_ptr (p_slot (prod sample_both))) (of_nat (length [9 :: u8]))) sample_both)\<lparr>ppc := PCopy [9] 0\<rparr>)"

theorem bus_wait_free_witness:
  "(\<exists>\<tau>. bus_step (push_run 1) \<tau> \<and> ppc \<tau> \<noteq> PCopy [9] 0) \<and> card {i. i < (1 :: nat) \<and> ppc (push_run (Suc i)) \<noteq> ppc (push_run i)} \<le> 8 + 3"
proof -
  have p: "ppc sample_both = PSize [9]" by (simp add: sample_both_def)
  have s: "\<forall>i<1. bus_step (push_run i) (push_run (Suc i))" using bus_step.p_size [OF p] by (simp add: push_run_def)
  have r: "reachable (start sample_segment 1 2 8) (push_run 0)"
    using sample_both_reachable by (simp add: sample_start_def push_run_def)
  show ?thesis using bus_wait_free [OF sample_create _ r s] p by (simp add: push_run_def)
qed

end
