(* ===== verification/Spsc_Open.thy ===== *)
theory Spsc_Open
  imports Spsc_Bus "HOL-Library.Multiset"
begin

text \<open>
  The consumer's side of a segment's life: \<open>SharedBus::open\<close> with its retries, the moves and the
  destructor of the \<open>SharedBus\<close> handle. Opening ends within its limit once the
  segment is initialised, leaks no descriptor, and every mapping is unmapped exactly once.
\<close>

section \<open>Opening\<close>

record SharedBus =
  b_name :: string
  b_mem :: "nat option"
  b_size :: u64

text \<open>
  What the system calls of one round of \<open>open\<close> return: the descriptor, \<open>errno\<close>, the size \<open>fstat\<close>
  reports, the clock when it is read in this round, and the address of the mapping.
\<close>

record attempt =
  oa_fd :: int
  oa_errno :: int
  oa_size :: u64
  oa_now :: int
  oa_mmap_failed :: bool
  oa_mmap_errno :: int
  oa_addr :: nat

datatype open_call = OShmOpen bool | OFstat | OClose | OMmap bool u64 | OMlock u64 | ONanosleep

datatype verdict = Again | Fail bus_error | Mapped

definition ENOENT :: int where "ENOENT = 2"

definition open_attempt :: "int \<Rightarrow> int \<Rightarrow> BusOptions \<Rightarrow> attempt \<Rightarrow> verdict \<times> open_call list" where
  "open_attempt timeout_ms deadline opts a =
     (let has_limit = 0 < timeout_ms in
      if oa_fd a < 0
      then if oa_errno a = ENOENT \<and> timeout_ms \<noteq> 0
           then if has_limit \<and> deadline \<le> oa_now a
                then (Fail (RuntimeError ''SharedBus::open timed out waiting for producer''), [OShmOpen False])
                else (Again, [OShmOpen False, ONanosleep])
           else (Fail (SystemError (oa_errno a) ''shm_open(open)''), [OShmOpen False])
      else let sz = oa_size a in
      if sz < sizeof_ControlBlock
      then if timeout_ms \<noteq> 0
           then if has_limit \<and> deadline \<le> oa_now a
                then (Fail (RuntimeError ''SharedBus::open timed out (segment too small)''), [OShmOpen True, OFstat, OClose])
                else (Again, [OShmOpen True, OFstat, OClose, ONanosleep])
           else (Fail (RuntimeError ''shared memory segment too small''), [OShmOpen True, OFstat, OClose])
      else if oa_mmap_failed a
      then (Fail (SystemError (oa_mmap_errno a) ''mmap(open)''), [OShmOpen True, OFstat, OMmap (huge_pages opts) sz, OClose])
      else (Mapped, [OShmOpen True, OFstat, OMmap (huge_pages opts) sz, OClose]
                      @ (if lock_memory opts then [OMlock sz] else [])))"

text \<open>The successive values of \<open>cb->magic\<close> the spin reads; it ends at the first that is \<open>kMagic\<close>.\<close>

fun magic_spin :: "u32 list \<Rightarrow> bool" where
  "magic_spin [] = False"
| "magic_spin (m # ms) = (if m \<noteq> kMagic then magic_spin ms else True)"

text \<open>The rounds in order. \<open>None\<close>: the call is still running when the given rounds, or reads of the magic, are used up.\<close>

fun open_loop :: "string \<Rightarrow> int \<Rightarrow> int \<Rightarrow> BusOptions \<Rightarrow> u32 list \<Rightarrow> attempt list
    \<Rightarrow> (bus_error + SharedBus) option \<times> open_call list" where
  "open_loop name timeout_ms deadline opts magics [] = (None, [])"
| "open_loop name timeout_ms deadline opts magics (a # as) =
     (case open_attempt timeout_ms deadline opts a of
        (Again, cs) \<Rightarrow> (case open_loop name timeout_ms deadline opts magics as of (r, ds) \<Rightarrow> (r, cs @ ds))
      | (Fail e, cs) \<Rightarrow> (Some (Inl e), cs)
      | (Mapped, cs) \<Rightarrow> (if magic_spin magics
                         then Some (Inr \<lparr> b_name = name, b_mem = Some (oa_addr a), b_size = oa_size a \<rparr>) else None, cs))"

definition open_bus :: "string \<Rightarrow> int \<Rightarrow> BusOptions \<Rightarrow> int \<Rightarrow> u32 list \<Rightarrow> attempt list
    \<Rightarrow> (bus_error + SharedBus) option \<times> open_call list" where
  "open_bus name timeout_ms opts start magics attempts =
     open_loop name timeout_ms (start + timeout_ms * 1000000) opts magics attempts"

section \<open>Moves and the destructor\<close>

text \<open>
  The handles of a program, by number; \<open>None\<close> is a handle whose lifetime is over. \<open>left\<close> is the name a
  moved-from string keeps, which the language leaves open. The second result is what is unmapped.
\<close>

type_synonym handles = "SharedBus option list"

definition bus_move_ctor :: "string \<Rightarrow> nat \<Rightarrow> handles \<Rightarrow> handles \<times> (nat \<times> u64) list" where
  "bus_move_ctor left j hs = (case hs ! j of
      None \<Rightarrow> (hs, [])
    | Some b \<Rightarrow> (hs[j := Some \<lparr> b_name = left, b_mem = None, b_size = 0 \<rparr>] @ [Some b], []))"

definition unmap :: "SharedBus \<Rightarrow> (nat \<times> u64) list" where
  "unmap b = (case b_mem b of None \<Rightarrow> [] | Some m \<Rightarrow> [(m, b_size b)])"

definition bus_move_assign :: "string \<Rightarrow> nat \<Rightarrow> nat \<Rightarrow> handles \<Rightarrow> handles \<times> (nat \<times> u64) list" where
  "bus_move_assign left i j hs = (if i = j then (hs, []) else case (hs ! i, hs ! j) of
      (Some a, Some b) \<Rightarrow> (hs[i := Some b, j := Some \<lparr> b_name = left, b_mem = None, b_size = 0 \<rparr>], unmap a)
    | _ \<Rightarrow> (hs, []))"

definition bus_destroy :: "nat \<Rightarrow> handles \<Rightarrow> handles \<times> (nat \<times> u64) list" where
  "bus_destroy i hs = (case hs ! i of None \<Rightarrow> (hs, []) | Some b \<Rightarrow> (hs[i := None], unmap b))"

text \<open>\<open>unlink\<close> removes the object from the file system; what \<open>shm_unlink\<close> answers is dropped.\<close>

definition bus_unlink :: "(string \<Rightarrow> 'fs \<Rightarrow> int \<times> 'fs) \<Rightarrow> string \<Rightarrow> 'fs \<Rightarrow> 'fs" where
  "bus_unlink shm_unlink name fs = snd (shm_unlink name fs)"

datatype handle_op = MoveCtor nat | MoveAssign nat nat | Destroy nat

fun handle_step :: "string \<Rightarrow> handle_op \<Rightarrow> handles \<Rightarrow> handles \<times> (nat \<times> u64) list" where
  "handle_step left (MoveCtor j) hs = bus_move_ctor left j hs"
| "handle_step left (MoveAssign i j) hs = bus_move_assign left i j hs"
| "handle_step left (Destroy i) hs = bus_destroy i hs"

fun op_valid :: "nat \<Rightarrow> handle_op \<Rightarrow> bool" where
  "op_valid n (MoveCtor j) \<longleftrightarrow> j < n"
| "op_valid n (MoveAssign i j) \<longleftrightarrow> i < n \<and> j < n"
| "op_valid n (Destroy i) \<longleftrightarrow> i < n"

fun handle_run :: "string \<Rightarrow> handle_op list \<Rightarrow> handles \<Rightarrow> handles \<times> (nat \<times> u64) list" where
  "handle_run left [] hs = (hs, [])"
| "handle_run left (x # xs) hs = (if op_valid (length hs) x
     then case handle_step left x hs of (hs', us) \<Rightarrow> (case handle_run left xs hs' of (hs'', vs) \<Rightarrow> (hs'', us @ vs))
     else handle_run left xs hs)"

section \<open>Every mapping is unmapped once\<close>

definition mapped_by :: "SharedBus option \<Rightarrow> (nat \<times> u64) list" where
  "mapped_by h = (case h of None \<Rightarrow> [] | Some b \<Rightarrow> unmap b)"

definition live_maps :: "handles \<Rightarrow> (nat \<times> u64) multiset" where
  "live_maps hs = (\<Sum>h\<leftarrow>hs. mset (mapped_by h))"

lemma live_maps_append [simp]: "live_maps (hs @ gs) = live_maps hs + live_maps gs"
  by (simp add: live_maps_def)

lemma live_maps_update:
  "i < length hs \<Longrightarrow> live_maps (hs[i := h]) + mset (mapped_by (hs ! i)) = live_maps hs + mset (mapped_by h)"
proof (induction hs arbitrary: i)
  case (Cons g gs)
  then show ?case by (cases i) (auto simp: live_maps_def ac_simps)
qed simp

lemma mapped_by_simps [simp]:
  "mapped_by None = []" "mapped_by (Some b) = unmap b" "unmap \<lparr> b_name = n, b_mem = None, b_size = z \<rparr> = []"
  by (simp_all add: mapped_by_def unmap_def)

lemma live_maps_single [simp]: "live_maps [h] = mset (mapped_by h)"
  by (simp add: live_maps_def)

text \<open>A move hands the mapping over; only the target's old mapping, or a destroyed handle's, is unmapped.\<close>

lemma handle_step_maps:
  assumes "op_valid (length hs) x" and "handle_step left x hs = (hs', us)"
  shows "live_maps hs' + mset us = live_maps hs"
proof (cases x)
  case (MoveCtor j)
  then show ?thesis using assms live_maps_update [of j hs "Some \<lparr> b_name = left, b_mem = None, b_size = 0 \<rparr>"]
    by (auto simp: bus_move_ctor_def split: option.splits)
next
  case (MoveAssign i j)
  show ?thesis
  proof (cases "i = j \<or> hs ! i = None \<or> hs ! j = None")
    case True
    then show ?thesis using assms MoveAssign by (auto simp: bus_move_assign_def split: if_splits option.splits)
  next
    case False
    then obtain a b where ab: "i \<noteq> j" "hs ! i = Some a" "hs ! j = Some b" by auto
    then have res: "hs' = hs[i := Some b, j := Some \<lparr> b_name = left, b_mem = None, b_size = 0 \<rparr>]" "us = unmap a"
      using assms MoveAssign by (simp_all add: bus_move_assign_def)
    have given: "live_maps hs' + mset (unmap b) = live_maps (hs[i := Some b])"
      using live_maps_update [of j "hs[i := Some b]" "Some \<lparr> b_name = left, b_mem = None, b_size = 0 \<rparr>"] assms MoveAssign ab res
      by simp
    have taken: "live_maps (hs[i := Some b]) + mset (unmap a) = live_maps hs + mset (unmap b)"
      using live_maps_update [of i hs "Some b"] assms MoveAssign ab by simp
    have "(live_maps hs' + mset us) + mset (unmap b) = (live_maps hs' + mset (unmap b)) + mset (unmap a)"
      by (simp add: res(2) ac_simps)
    also have "\<dots> = live_maps hs + mset (unmap b)" by (simp only: given taken)
    finally have "(live_maps hs' + mset us) + mset (unmap b) = live_maps hs + mset (unmap b)" .
    then show ?thesis by (simp only: add_right_cancel)
  qed
next
  case (Destroy i)
  then show ?thesis using assms live_maps_update [of i hs None]
    by (auto simp: bus_destroy_def split: option.splits)
qed

lemma handle_run_maps: "handle_run left xs hs = (hs', us) \<Longrightarrow> live_maps hs' + mset us = live_maps hs"
proof (induction xs arbitrary: hs hs' us)
  case (Cons x xs)
  show ?case
  proof (cases "op_valid (length hs) x")
    case False
    then show ?thesis using Cons by simp
  next
    case True
    obtain hs1 vs where step: "handle_step left x hs = (hs1, vs)" by fastforce
    obtain hs2 ws where run: "handle_run left xs hs1 = (hs2, ws)" by fastforce
    have "hs' = hs2" "us = vs @ ws" using Cons.prems True step run by simp_all
    then show ?thesis using Cons.IH [OF run] handle_step_maps [OF True step] by (simp add: ac_simps)
  qed
qed simp

text \<open>So a program that ends with every handle destroyed has unmapped each mapping exactly once.\<close>

lemma all_destroyed: "\<forall>h\<in>set hs. h = None \<Longrightarrow> live_maps hs = {#}"
  by (induction hs) (auto simp: live_maps_def)

lemma mappings_unmapped_once:
  assumes "handle_run left xs hs = (hs', us)" and "\<forall>h\<in>set hs'. h = None"
  shows "mset us = live_maps hs"
  using handle_run_maps [OF assms(1)] all_destroyed [OF assms(2)] by simp

section \<open>What open returns\<close>

lemma magic_spin_iff: "magic_spin ms \<longleftrightarrow> kMagic \<in> set ms"
  by (induction ms) auto

lemmas attempt_splits = if_splits verdict.splits prod.splits

text \<open>A round closes the descriptor it opened.\<close>

lemma attempt_closes:
  "open_attempt timeout_ms deadline opts a = (v, cs) \<Longrightarrow> count_list cs OClose = count_list cs (OShmOpen True)"
  by (auto simp: open_attempt_def Let_def split: if_splits)

lemma open_loop_closes:
  "open_loop name timeout_ms deadline opts magics as = (r, cs) \<Longrightarrow> count_list cs OClose = count_list cs (OShmOpen True)"
  by (induction as arbitrary: cs) (auto dest: attempt_closes split: attempt_splits)

text \<open>A bus is returned for the first round that is not retried, and only behind the magic.\<close>

lemma attempt_Mapped:
  "open_attempt timeout_ms deadline opts a = (Mapped, cs) \<Longrightarrow> 0 \<le> oa_fd a \<and> sizeof_ControlBlock \<le> oa_size a \<and> \<not> oa_mmap_failed a"
  by (auto simp: open_attempt_def Let_def split: if_splits)

lemma open_loop_Inr:
  assumes "open_loop name timeout_ms deadline opts magics as = (Some (Inr b), cs)"
  shows "kMagic \<in> set magics \<and> (\<exists>a\<in>set as. 0 \<le> oa_fd a \<and> sizeof_ControlBlock \<le> oa_size a \<and> \<not> oa_mmap_failed a \<and>
    b = \<lparr> b_name = name, b_mem = Some (oa_addr a), b_size = oa_size a \<rparr>)"
  using assms
  by (induction as arbitrary: cs) (auto simp: magic_spin_iff dest: attempt_Mapped split: attempt_splits)

lemma attempt_at_deadline:
  "0 < timeout_ms \<Longrightarrow> deadline \<le> oa_now a \<Longrightarrow> fst (open_attempt timeout_ms deadline opts a) \<noteq> Again"
  by (simp add: open_attempt_def Let_def)

lemma open_loop_ends:
  assumes "0 < timeout_ms" and "\<exists>a\<in>set as. deadline \<le> oa_now a"
    and "open_loop name timeout_ms deadline opts magics as = (None, cs)"
  shows "kMagic \<notin> set magics \<and> (\<exists>a\<in>set as. fst (open_attempt timeout_ms deadline opts a) = Mapped)"
  using assms(2,3)
proof (induction as arbitrary: cs)
  case (Cons a as)
  then show ?case
    using attempt_at_deadline [OF assms(1), of deadline a opts]
    by (auto simp: magic_spin_iff split: attempt_splits)
qed simp

text \<open>
  C34. \<open>open\<close> with a limit, on any outcome of its system calls: it closes every descriptor it opened; a
  bus it returns maps a segment at least as large as the control block, at its size, and its magic was seen; and once
  some round reads a clock past the limit the call has ended, unless a round mapped the segment and its magic
  never shows: that spin alone has no limit.
\<close>

theorem open_within_limit:
  assumes "0 < timeout_ms" and "open_bus name timeout_ms opts start magics as = (r, cs)"
  shows "count_list cs OClose = count_list cs (OShmOpen True) \<and>
    (\<forall>b. r = Some (Inr b) \<longrightarrow> kMagic \<in> set magics \<and> (\<exists>a\<in>set as. 0 \<le> oa_fd a \<and> \<not> oa_mmap_failed a \<and>
       256 \<le> unat (oa_size a) \<and> b = \<lparr> b_name = name, b_mem = Some (oa_addr a), b_size = oa_size a \<rparr>)) \<and>
    ((\<exists>a\<in>set as. start + timeout_ms * 1000000 \<le> oa_now a) \<longrightarrow> r \<noteq> None \<or>
       (kMagic \<notin> set magics \<and> (\<exists>a\<in>set as. 0 \<le> oa_fd a \<and> 256 \<le> unat (oa_size a) \<and> \<not> oa_mmap_failed a)))"
proof -
  let ?dl = "start + timeout_ms * 1000000"
  have loop: "open_loop name timeout_ms ?dl opts magics as = (r, cs)" using assms(2) by (simp add: open_bus_def)
  have size: "sizeof_ControlBlock \<le> z \<longleftrightarrow> 256 \<le> unat z" for z by (simp add: layout_consts word_le_nat_alt)
  have mapped: "0 \<le> oa_fd a \<and> 256 \<le> unat (oa_size a) \<and> \<not> oa_mmap_failed a"
    if "fst (open_attempt timeout_ms ?dl opts a) = Mapped" for a
    using that attempt_Mapped size by (metis prod.collapse)
  have "kMagic \<in> set magics \<and> (\<exists>a\<in>set as. 0 \<le> oa_fd a \<and> \<not> oa_mmap_failed a \<and> 256 \<le> unat (oa_size a) \<and>
      b = \<lparr> b_name = name, b_mem = Some (oa_addr a), b_size = oa_size a \<rparr>)" if "r = Some (Inr b)" for b
    using open_loop_Inr [of name timeout_ms ?dl opts magics as b cs] loop that by (auto simp: size)
  moreover have "kMagic \<notin> set magics \<and> (\<exists>a\<in>set as. 0 \<le> oa_fd a \<and> 256 \<le> unat (oa_size a) \<and> \<not> oa_mmap_failed a)"
    if "\<exists>a\<in>set as. ?dl \<le> oa_now a" "r = None"
    using open_loop_ends [OF assms(1) that(1)] loop that(2) mapped by blast
  ultimately show ?thesis using open_loop_closes [OF loop] by blast
qed

text \<open>The sample: the segment is missing, then too small, then mapped, and the magic shows at the second read.\<close>

theorem open_within_limit_witness:
  "\<exists>as cs. length as = 3 \<and>
    open_bus ''/bus'' 5 sample_opts 100 [0, kMagic] as = (Some (Inr \<lparr> b_name = ''/bus'', b_mem = Some 4096, b_size = 384 \<rparr>), cs) \<and>
    count_list cs OClose = count_list cs (OShmOpen True) \<and> kMagic \<in> set [0, kMagic]"
proof -
  let ?a = "\<lparr> oa_fd = -1, oa_errno = ENOENT, oa_size = 0, oa_now = 200, oa_mmap_failed = False, oa_mmap_errno = 0, oa_addr = 0 \<rparr>"
  let ?as = "[?a, ?a\<lparr>oa_fd := 3\<rparr>, ?a\<lparr>oa_fd := 3, oa_size := 384, oa_addr := 4096\<rparr>]"
  obtain r cs where run: "open_bus ''/bus'' 5 sample_opts 100 [0, kMagic] ?as = (r, cs)" by fastforce
  have "r = Some (Inr \<lparr> b_name = ''/bus'', b_mem = Some 4096, b_size = 384 \<rparr>)"
    using run by (simp add: open_bus_def open_attempt_def ENOENT_def layout_consts sample_opts_def kMagic_def)
  then show ?thesis
    using open_within_limit [OF _ run] run by (intro exI [of _ ?as] exI [of _ cs]) simp
qed

end
