(* ===== verification/Spsc_Notify.thy ===== *)
theory Spsc_Notify
  imports Spsc_Concurrent Transitions
begin

text \<open>
  \<open>Notifier\<close>, the wakeup over an \<open>eventfd\<close>, on every branch, and its use beside the bus: a producer
  that notifies after each push and a consumer that waits, drains the ring and waits again. The
  descriptor's counter belongs to the kernel; \<open>eventfd_law\<close> says what its calls promise.
\<close>

section \<open>The notifier\<close>

record Notifier =
  efd :: int

datatype notify_error = SystemError int string

definition EINTR_no :: int where "EINTR_no = 4"

text \<open>What \<open>eventfd(0, 0)\<close> returns and the \<open>errno\<close> it leaves decide the constructor.\<close>

definition new_Notifier :: "int \<Rightarrow> int \<Rightarrow> notify_error + Notifier" where
  "new_Notifier ret errno = (if ret < 0 then Inl (SystemError errno ''eventfd'') else Inr \<lparr> efd = ret \<rparr>)"

definition destroy_Notifier :: "(int \<Rightarrow> 's \<Rightarrow> 's) \<Rightarrow> Notifier \<Rightarrow> 's \<Rightarrow> 's" where
  "destroy_Notifier close n s = (if 0 \<le> efd n then close (efd n) s else s)"

text \<open>
  A system call takes the descriptor and the state and returns its result, with \<open>errno\<close> for a read or a poll, and
  the new state; \<open>None\<close> means that it blocks until another thread changes the state.
\<close>

type_synonym 's write_call = "int \<Rightarrow> u64 \<Rightarrow> 's \<Rightarrow> (int \<times> 's) option"
type_synonym 's read_call = "int \<Rightarrow> 's \<Rightarrow> (int \<times> int \<times> 's) option"
type_synonym 's poll_call = "int \<Rightarrow> int \<Rightarrow> 's \<Rightarrow> (int \<times> int \<times> 's) option"

definition notify :: "'s write_call \<Rightarrow> Notifier \<Rightarrow> 's \<Rightarrow> 's option" where
  "notify sys_write n s = (case sys_write (efd n) 1 s of None \<Rightarrow> None | Some (ret, s') \<Rightarrow> Some s')"

text \<open>The retries after \<open>EINTR\<close> have fuel.\<close>

fun wait :: "'s read_call \<Rightarrow> Notifier \<Rightarrow> nat \<Rightarrow> 's \<Rightarrow> 's option" where
  "wait sys_read n 0 s = None"
| "wait sys_read n (Suc fuel) s =
     (case sys_read (efd n) s of
        None \<Rightarrow> None
      | Some (ret, errno, s') \<Rightarrow> if ret < 0 \<and> errno = EINTR_no then wait sys_read n fuel s' else Some s')"

fun poll_loop :: "'s poll_call \<Rightarrow> Notifier \<Rightarrow> int \<Rightarrow> nat \<Rightarrow> 's \<Rightarrow> (int \<times> 's) option" where
  "poll_loop sys_poll n ms 0 s = None"
| "poll_loop sys_poll n ms (Suc fuel) s =
     (case sys_poll (efd n) ms s of
        None \<Rightarrow> None
      | Some (r, errno, s') \<Rightarrow> if r < 0 \<and> errno = EINTR_no then poll_loop sys_poll n ms fuel s' else Some (r, s'))"

definition wait_for_ms :: "'s poll_call \<Rightarrow> 's read_call \<Rightarrow> Notifier \<Rightarrow> int \<Rightarrow> nat \<Rightarrow> 's \<Rightarrow> (bool \<times> 's) option" where
  "wait_for_ms sys_poll sys_read n ms fuel s =
     (case poll_loop sys_poll n ms fuel s of
        None \<Rightarrow> None
      | Some (r, s1) \<Rightarrow>
          if r \<le> 0 then Some (False, s1)
          else case sys_read (efd n) s1 of None \<Rightarrow> None | Some (ret, errno, s2) \<Rightarrow> Some (True, s2))"

section \<open>What the kernel promises\<close>

text \<open>
  A write adds one, and may block only when the counter is at its maximum; a read takes a positive
  counter back to zero, and while it is zero can only block or be interrupted. A poll does not change
  the counter downwards, and reports the descriptor only when the counter is positive.
\<close>

definition eventfd_law :: "int \<Rightarrow> 's write_call \<Rightarrow> 's read_call \<Rightarrow> ('s \<Rightarrow> nat) \<Rightarrow> bool" where
  "eventfd_law fd sys_write sys_read count \<longleftrightarrow>
     (\<forall>s. count s < 2 ^ 64 - 2 \<longrightarrow> (\<exists>r s'. sys_write fd 1 s = Some (r, s') \<and> count s' = count s + 1)) \<and>
     (\<forall>s r s'. sys_write fd 1 s = Some (r, s') \<longrightarrow> 0 < count s') \<and>
     (\<forall>s. 0 < count s \<longrightarrow> (\<exists>err s'. sys_read fd s = Some (8, err, s') \<and> count s' = 0)) \<and>
     (\<forall>s r err s'. count s = 0 \<and> sys_read fd s = Some (r, err, s') \<longrightarrow> r < 0 \<and> err = EINTR_no \<and> count s' = 0)"

definition poll_law :: "int \<Rightarrow> 's poll_call \<Rightarrow> ('s \<Rightarrow> nat) \<Rightarrow> bool" where
  "poll_law fd sys_poll count \<longleftrightarrow>
     (\<forall>ms s r err s'. sys_poll fd ms s = Some (r, err, s') \<longrightarrow> count s \<le> count s' \<and> (0 < r \<longrightarrow> 0 < count s'))"

lemma eventfd_pending: "eventfd_law fd sys_write sys_read count \<Longrightarrow> sys_write fd 1 s = Some (r, s') \<Longrightarrow> 0 < count s'"
  unfolding eventfd_law_def by blast

lemma eventfd_ready: "eventfd_law fd sys_write sys_read count \<Longrightarrow> 0 < count s \<Longrightarrow> \<exists>err s'. sys_read fd s = Some (8, err, s') \<and> count s' = 0"
  unfolding eventfd_law_def by blast

lemma eventfd_zero:
  "eventfd_law fd sys_write sys_read count \<Longrightarrow> count s = 0 \<Longrightarrow> sys_read fd s = Some (r, err, s') \<Longrightarrow> r < 0 \<and> err = EINTR_no \<and> count s' = 0"
  unfolding eventfd_law_def by blast

lemma eventfd_readD:
  assumes law: "eventfd_law fd sys_write sys_read count" and r: "sys_read fd s = Some (r, err, s')"
  shows "count s' = 0" and "0 < count s \<Longrightarrow> r = 8" and "count s = 0 \<Longrightarrow> r < 0 \<and> err = EINTR_no"
proof -
  have pos: "r = 8 \<and> count s' = 0" if "0 < count s" using eventfd_ready [of fd sys_write sys_read count s] law that r by auto
  have zero: "r < 0 \<and> err = EINTR_no \<and> count s' = 0" if "count s = 0" by (rule eventfd_zero [of fd sys_write sys_read count s]) (use law that r in simp_all)
  show "count s' = 0" using pos zero by (cases "count s = 0") simp_all
  show "0 < count s \<Longrightarrow> r = 8" using pos by simp
  show "count s = 0 \<Longrightarrow> r < 0 \<and> err = EINTR_no" using zero by simp
qed

lemma notify_pending: "eventfd_law (efd n) sys_write sys_read count \<Longrightarrow> notify sys_write n s = Some s' \<Longrightarrow> 0 < count s'"
  by (auto simp: notify_def intro: eventfd_pending split: option.splits)

text \<open>A wait that returns has taken all pending notifications, and there was one.\<close>

lemma wait_takes_all:
  assumes law: "eventfd_law (efd n) sys_write sys_read count"
  shows "wait sys_read n fuel s = Some s' \<Longrightarrow> count s' = 0 \<and> 0 < count s"
proof (induction fuel arbitrary: s)
  case (Suc fuel)
  obtain r err s1 where r: "sys_read (efd n) s = Some (r, err, s1)" using Suc.prems by (auto split: option.splits)
  show ?case
  proof (cases "r < 0 \<and> err = EINTR_no")
    case True
    then have "wait sys_read n fuel s1 = Some s'" using Suc.prems r by simp
    with Suc.IH eventfd_readD(1) [OF law r] show ?thesis by force
  next
    case False
    then show ?thesis using Suc.prems r eventfd_readD [OF law r] by auto
  qed
qed simp

lemma wait_returns: "eventfd_law (efd n) sys_write sys_read count \<Longrightarrow> 0 < count s \<Longrightarrow> \<exists>s'. wait sys_read n (Suc fuel) s = Some s'"
proof -
  assume "eventfd_law (efd n) sys_write sys_read count" "0 < count s"
  then obtain err s' where "sys_read (efd n) s = Some (8, err, s')" using eventfd_ready by metis
  then show ?thesis by simp
qed

lemma poll_loop_count:
  assumes law: "poll_law (efd n) sys_poll count"
  shows "poll_loop sys_poll n ms fuel s = Some (r, s') \<Longrightarrow> count s \<le> count s' \<and> (0 < r \<longrightarrow> 0 < count s')"
proof (induction fuel arbitrary: s)
  case (Suc fuel)
  obtain r1 err s1 where p: "sys_poll (efd n) ms s = Some (r1, err, s1)" using Suc.prems by (auto split: option.splits)
  then have a: "count s \<le> count s1" "0 < r1 \<longrightarrow> 0 < count s1" using law unfolding poll_law_def by blast+
  show ?case
  proof (cases "r1 < 0 \<and> err = EINTR_no")
    case True
    then have "poll_loop sys_poll n ms fuel s1 = Some (r, s')" using Suc.prems p by simp
    from Suc.IH [OF this] a(1) show ?thesis by linarith
  next
    case False
    then have "r1 = r" "s1 = s'" using Suc.prems p by (simp_all split: if_splits)
    with a show ?thesis by simp
  qed
qed simp

lemma wait_for_ms_result:
  assumes ev: "eventfd_law (efd n) sys_write sys_read count" and po: "poll_law (efd n) sys_poll count"
    and w: "wait_for_ms sys_poll sys_read n ms fuel s = Some (b, s')"
  shows "if b then count s' = 0 else count s \<le> count s'"
proof -
  obtain r s1 where p: "poll_loop sys_poll n ms fuel s = Some (r, s1)" using w by (auto simp: wait_for_ms_def split: option.splits)
  show ?thesis
  proof (cases "r \<le> 0")
    case True
    then show ?thesis using w p poll_loop_count [OF po p] by (simp add: wait_for_ms_def)
  next
    case False
    then obtain ret err where "sys_read (efd n) s1 = Some (ret, err, s')" "b"
      using w p by (auto simp: wait_for_ms_def split: option.splits)
    then show ?thesis using eventfd_readD(1) [OF ev] by simp
  qed
qed

text \<open>Every interrupted poll starts over with the full timeout.\<close>

lemma poll_interrupted:
  "(\<forall>s. \<exists>s'. sys_poll (efd n) ms s = Some (-1, EINTR_no, s')) \<Longrightarrow> wait_for_ms sys_poll sys_read n ms fuel s = None"
proof -
  assume i: "\<forall>s. \<exists>s'. sys_poll (efd n) ms s = Some (-1, EINTR_no, s')"
  have "poll_loop sys_poll n ms fuel s = None"
  proof (induction fuel arbitrary: s)
    case (Suc fuel)
    from i obtain s1 where "sys_poll (efd n) ms s = Some (-1, EINTR_no, s1)" by blast
    with Suc show ?case by simp
  qed simp
  then show ?thesis by (simp add: wait_for_ms_def)
qed


section \<open>Beside the bus\<close>

text \<open>
  The producer pushes and then notifies; the consumer waits, pops until a pop returns zero, and
  waits again (or, with \<open>drain\<close> false, pops once for each wait). The bus keeps its steps and its
  delayed loads. What a notification brings across the system call is \<open>known\<close>, the number of messages
  published before the last one taken: a load after the wakeup is not older than that.
\<close>

datatype wait_st = Waiting | Popping

record 's nsys =
  bus :: sys
  evt :: 's
  owed :: bool
  wst :: wait_st
  known :: nat

definition told :: "('s, 'b) nsys_scheme \<Rightarrow> nat" where
  "told \<sigma> = length (sent (bus \<sigma>)) - of_bool (owed \<sigma>)"

definition after_pop :: "bool \<Rightarrow> sys \<Rightarrow> sys \<Rightarrow> wait_st" where
  "after_pop drain b b' =
     (if cpc b' \<noteq> CIdle then Popping
      else if drain \<and> rcvd b' \<noteq> rcvd b \<and> fst (last (rcvd b')) \<noteq> 0 then Popping
      else Waiting)"

inductive notify_step :: "'s write_call \<Rightarrow> 's read_call \<Rightarrow> Notifier \<Rightarrow> bool \<Rightarrow> 's nsys \<Rightarrow> 's nsys \<Rightarrow> bool"
  for sys_write sys_read n drain where
  n_push: "\<lbrakk> \<not> owed \<sigma>; bus_step (bus \<sigma>) b; cpc b = cpc (bus \<sigma>) \<rbrakk>
    \<Longrightarrow> notify_step sys_write sys_read n drain \<sigma> (\<sigma>\<lparr>bus := b, owed := sent b \<noteq> sent (bus \<sigma>)\<rparr>)"
| n_notify: "\<lbrakk> owed \<sigma>; notify sys_write n (evt \<sigma>) = Some e \<rbrakk>
    \<Longrightarrow> notify_step sys_write sys_read n drain \<sigma> (\<sigma>\<lparr>evt := e, owed := False\<rparr>)"
| n_wait: "\<lbrakk> wst \<sigma> = Waiting; wait sys_read n 1 (evt \<sigma>) = Some e \<rbrakk>
    \<Longrightarrow> notify_step sys_write sys_read n drain \<sigma> (\<sigma>\<lparr>evt := e, wst := Popping, known := told \<sigma>\<rparr>)"
| n_retry: "\<lbrakk> wst \<sigma> = Waiting; sys_read (efd n) (evt \<sigma>) = Some (r, EINTR_no, e); r < 0 \<rbrakk>
    \<Longrightarrow> notify_step sys_write sys_read n drain \<sigma> (\<sigma>\<lparr>evt := e\<rparr>)"
| n_pop: "\<lbrakk> wst \<sigma> = Popping; bus_step (bus \<sigma>) b; cpc b \<noteq> cpc (bus \<sigma>);
      cpc (bus \<sigma>) = CLoad \<Longrightarrow> unat (write_pos (ctrl (seg b)) - c_write_cache (cons b)) \<le> length (sent b) - known \<sigma> \<rbrakk>
    \<Longrightarrow> notify_step sys_write sys_read n drain \<sigma> (\<sigma>\<lparr>bus := b, wst := after_pop drain (bus \<sigma>) b\<rparr>)"

definition notify_start :: "sys \<Rightarrow> 's \<Rightarrow> 's nsys" where
  "notify_start b e = \<lparr> bus = b, evt = e, owed = False, wst = Waiting, known = 0 \<rparr>"

text \<open>
  A notification that is not pending was taken, so what it told of is \<open>known\<close>; and a consumer goes back to wait
  only when it has received all it knows of.
\<close>

definition notify_inv :: "('s \<Rightarrow> nat) \<Rightarrow> 's nsys \<Rightarrow> bool" where
  "notify_inv count \<sigma> \<longleftrightarrow> conc_inv (bus \<sigma>) \<and> known \<sigma> \<le> told \<sigma> \<and> (owed \<sigma> \<longrightarrow> sent (bus \<sigma>) \<noteq> []) \<and>
     (count (evt \<sigma>) = 0 \<longrightarrow> known \<sigma> = told \<sigma>) \<and>
     (wst \<sigma> = Waiting \<and> [] \<notin> set (sent (bus \<sigma>)) \<longrightarrow> known \<sigma> \<le> length (rcvd (bus \<sigma>)))"

lemma push_frame:
  assumes "bus_step b b'" and "cpc b' = cpc b"
  shows "rcvd b' = rcvd b \<and> (sent b' = sent b \<or> (\<exists>m. sent b' = sent b @ [m]))"
  using assms by (cases rule: bus_step.cases) (auto split: if_splits)

lemma pop_frame:
  assumes "bus_step b b'" and "cpc b' \<noteq> cpc b"
  shows "sent b' = sent b"
  using assms by (cases rule: bus_step.cases) auto

text \<open>A pop that ends without a message has seen every message known of; one that returns zero took an empty one.\<close>

lemma pop_end:
  assumes inv: "conc_inv b" and step: "bus_step b b'" and ne: "cpc b' \<noteq> cpc b" and idle: "cpc b' = CIdle"
    and fresh: "cpc b = CLoad \<Longrightarrow> unat (write_pos (ctrl (seg b')) - c_write_cache (cons b')) \<le> length (sent b') - k"
    and k: "k \<le> length (sent b)"
  shows "rcvd b' = rcvd b \<and> k \<le> length (rcvd b) \<or>
    (\<exists>x. rcvd b' = rcvd b @ [x] \<and> (fst x = 0 \<longrightarrow> [] \<in> set (sent b)))"
  using step
proof (cases rule: bus_step.cases)
  case (c_load v c')
  obtain rc wc where pos: "pos_inv b rc wc" using inv by (auto simp: conc_inv_def)
  then have p: "write_pos (ctrl (seg b)) = of_nat (length (sent b))" "c_read_pos (cons b) = of_nat (length (rcvd b))"
    "length (rcvd b) \<le> length (sent b)" "length (sent b) \<le> length (rcvd b) + unat (capacity (ctrl (seg b)))"
    by (auto simp: pos_inv_def Let_def)
  have v: "v = of_nat (length (rcvd b))" using c_load idle p(2) by (auto split: if_splits)
  have "unat (write_pos (ctrl (seg b)) - v) = length (sent b) - length (rcvd b)"
    unfolding p(1) v using p(3,4) unat_lt_32 [of "capacity (ctrl (seg b))"] by (intro unat_of_nat_diff) simp_all
  then have "length (sent b) - length (rcvd b) \<le> length (sent b) - k" using fresh c_load by simp
  then show ?thesis using k p(3) c_load(1) by simp
next
  case (c_publish sz acc)
  obtain rc wc where pos: "pos_inv b rc wc" using inv by (auto simp: conc_inv_def)
  then have r: "length (rcvd b) < length (sent b)" using c_publish(2) by (auto simp: pos_inv_def Let_def reading_def)
  have "unat sz = length (sent b ! length (rcvd b))" using inv c_publish(2) by (simp add: conc_inv_def)
  then have "sz = 0 \<longrightarrow> [] \<in> set (sent b)" using r by (metis length_0_conv nth_mem unat_0)
  then show ?thesis using c_publish(1) by simp
qed (use ne idle in auto)

lemma notify_step_inv:
  assumes law: "eventfd_law (efd n) sys_write sys_read count"
    and inv: "notify_inv count \<sigma>" and step: "notify_step sys_write sys_read n True \<sigma> \<tau>"
  shows "notify_inv count \<tau>"
  using step
proof (cases rule: notify_step.cases)
  case (n_push b)
  have "conc_inv b" using bus_step_inv [OF n_push(3)] inv by (simp add: notify_inv_def)
  then show ?thesis using inv push_frame [OF n_push(3,4)] n_push(1,2) by (auto simp: notify_inv_def told_def)
next
  case (n_notify e)
  then show ?thesis using inv notify_pending [OF law n_notify(3)] by (auto simp: notify_inv_def told_def)
next
  case (n_wait e)
  have "count e = 0" using wait_takes_all [OF law n_wait(3)] by simp
  then show ?thesis using inv n_wait(1) by (auto simp: notify_inv_def told_def)
next
  case (n_retry r e)
  have "count (evt \<sigma>) = 0 \<and> count e = 0" using eventfd_readD [OF law n_retry(3)] n_retry(4) by (cases "count (evt \<sigma>) = 0") auto
  then show ?thesis using inv n_retry(1) by (auto simp: notify_inv_def told_def)
next
  case (n_pop b)
  have c: "conc_inv b" using bus_step_inv [OF n_pop(3)] inv by (simp add: notify_inv_def)
  have s: "sent b = sent (bus \<sigma>)" using n_pop(3,4) by (rule pop_frame)
  have "known \<sigma> \<le> length (sent (bus \<sigma>))" using inv by (auto simp: notify_inv_def told_def)
  then have "known \<sigma> \<le> length (rcvd b)" if "after_pop True (bus \<sigma>) b = Waiting" "[] \<notin> set (sent b)"
    using pop_end [OF _ n_pop(3,4), of "known \<sigma>"] n_pop(5) inv that s
    by (auto simp: after_pop_def notify_inv_def split: if_splits)
  then show ?thesis using inv c s n_pop(1) by (auto simp: notify_inv_def told_def)
qed


interpretation notified: preserved "notify_step sys_write sys_read n True"
    "\<lambda>\<sigma>. eventfd_law (efd n) sys_write sys_read count \<and> notify_inv count \<sigma>"
  by unfold_locales (blast intro: notify_step_inv)

lemma notify_run_reachable:
  "(notify_step sys_write sys_read n drain)\<^sup>*\<^sup>* \<sigma> \<tau> \<Longrightarrow> reachable b0 (bus \<sigma>) \<Longrightarrow> reachable b0 (bus \<tau>)"
proof (induction rule: rtranclp_induct)
  case (step \<tau> \<tau>')
  from step.hyps(2) step.IH [OF step.prems] show ?case
    by (cases rule: notify_step.cases) (auto intro: reachable.step)
qed

lemma notify_start_inv:
  assumes "conc_inv b" and "sent b = []"
  shows "notify_inv count (notify_start b e)"
  using assms by (simp add: notify_inv_def notify_start_def told_def)

section \<open>Properties\<close>

text \<open>An eventfd as a counter, without interruptions.\<close>

definition nat_write :: "nat write_call" where
  "nat_write fd v s = (if s + unat v < 2 ^ 64 - 1 then Some (8, s + unat v) else None)"

definition nat_read :: "nat read_call" where
  "nat_read fd s = (if s = 0 then None else Some (8, 0, 0))"

lemma nat_eventfd: "eventfd_law fd nat_write nat_read id"
  by (auto simp: eventfd_law_def nat_write_def nat_read_def split: if_splits)

text \<open>
  C16. No wakeup is lost: a producer that notifies after each push and a consumer that drains the ring after
  each wait, interleaved in any way, with loads that may be as old as the last notification taken, never
  end with the consumer asleep on a message: when the consumer is blocked (its counter is zero) and the
  producer owes no notification, every message published has been received, whole and in order.
  Required is that no message is empty, since a drain stops at a pop that returns zero.
\<close>

theorem notify_no_lost_wakeup:
  assumes "fst (create cap max_msg opts env) = Inr s" and "unat max_msg \<le> 2 ^ 32 - 72"
    and "eventfd_law (efd n) sys_write sys_read count"
    and "(notify_step sys_write sys_read n True)\<^sup>*\<^sup>* (notify_start (start s pid_p pid_c k) e) \<sigma>"
    and "wst \<sigma> = Waiting" and "count (evt \<sigma>) = 0" and "\<not> owed \<sigma>" and "[] \<notin> set (sent (bus \<sigma>))"
  shows "rcvd (bus \<sigma>) = map (\<lambda>m. (of_nat (length m), take (unat k) m)) (sent (bus \<sigma>))"
proof -
  note b0 = start_inv [OF assms(1,2), of pid_p pid_c k]
  have "sent (start s pid_p pid_c k) = []" by (simp add: start_def split: prod.splits)
  then have inv: "notify_inv count \<sigma>"
  proof -
    have "eventfd_law (efd n) sys_write sys_read count \<and> notify_inv count \<sigma>"
      by (rule notified.along_run [OF assms(4)]) (use assms(3) notify_start_inv [OF b0] \<open>sent _ = []\<close> in simp)
    then show ?thesis ..
  qed
  then have "length (sent (bus \<sigma>)) \<le> length (rcvd (bus \<sigma>))" using assms(5-8) by (simp add: notify_inv_def told_def)
  moreover have "reachable (start s pid_p pid_c k) (bus \<sigma>)"
    using notify_run_reachable [OF assms(4)] by (simp add: notify_start_def reachable.init)
  from conjunct1 [OF reachable_frame [OF this]] have "buf_sz (bus \<sigma>) = k" by (simp add: start_def split: prod.splits)
  moreover have "conc_inv (bus \<sigma>)" using inv by (simp add: notify_inv_def)
  ultimately show ?thesis using conc_inv_result(1) [of "bus \<sigma>"] by simp
qed


text \<open>A run with one message of one byte and a consumer that asks for no bytes.\<close>

definition note_b0 :: sys where "note_b0 = start sample_segment 1 2 0"
definition note_b1 :: sys where "note_b1 = note_b0\<lparr>ppc := PSize [5]\<rparr>"
definition note_b2 :: sys where
  "note_b2 = (set_mem (store32 (mem (seg note_b1)) (size_ptr (p_slot (prod note_b1))) (of_nat (length [5 :: u8]))) note_b1)\<lparr>ppc := PCopy [5] 0\<rparr>"
definition note_b3 :: sys where
  "note_b3 = (set_mem ((mem (seg note_b2))(payload_ptr (p_slot (prod note_b2)) + 0 := [5] ! 0)) note_b2)\<lparr>ppc := PCopy [5] (Suc 0)\<rparr>"
definition note_b4 :: sys where
  "note_b4 = note_b3\<lparr>seg := (seg note_b3)\<lparr>ctrl := (ctrl (seg note_b3))\<lparr>write_pos := p_write_pos (prod note_b3) + 1\<rparr>\<rparr>,
     prod := (prod note_b3)\<lparr>p_write_pos := p_write_pos (prod note_b3) + 1\<rparr>, ppc := PIdle, sent := sent note_b3 @ [[5]]\<rparr>"
definition note_b5 :: sys where "note_b5 = note_b4\<lparr>cpc := CLoad\<rparr>"
definition note_b6 :: sys where "note_b6 = note_b5\<lparr>cons := (cons note_b5)\<lparr>c_write_cache := 1\<rparr>, cpc := CSize\<rparr>"
definition note_b7 :: sys where
  "note_b7 = note_b6\<lparr>cpc := CCopy (load32 (mem (seg note_b6)) (size_ptr (c_slot (cons note_b6)))) []\<rparr>"
definition note_b8 :: sys where
  "note_b8 = note_b7\<lparr>seg := (seg note_b7)\<lparr>ctrl := (ctrl (seg note_b7))\<lparr>read_pos := c_read_pos (cons note_b7) + 1\<rparr>\<rparr>,
     cons := (cons note_b7)\<lparr>c_read_pos := c_read_pos (cons note_b7) + 1\<rparr>, cpc := CIdle, rcvd := rcvd note_b7 @ [(1, [])]\<rparr>"
definition note_b9 :: sys where "note_b9 = note_b8\<lparr>cpc := CLoad\<rparr>"
definition note_b10 :: sys where "note_b10 = note_b9\<lparr>cons := (cons note_b9)\<lparr>c_write_cache := 1\<rparr>, cpc := CIdle\<rparr>"

lemma note_push_steps:
  "bus_step note_b0 note_b1" "bus_step note_b1 note_b2" "bus_step note_b2 note_b3" "bus_step note_b3 note_b4"
proof -
  have f: "ppc note_b0 = PIdle" "\<not> p_max_msg (prod note_b0) < of_nat (length [5 :: u8])" "\<not> p_full (prod note_b0)" by code_simp+
  show "bus_step note_b0 note_b1" unfolding note_b1_def by (rule bus_step.p_fast [OF f(1) _ f(2,3)]) simp
  show "bus_step note_b1 note_b2" unfolding note_b2_def by (rule bus_step.p_size) (simp add: note_b1_def)
  show "bus_step note_b2 note_b3" unfolding note_b3_def by (rule bus_step.p_byte) (simp_all add: note_b2_def)
  show "bus_step note_b3 note_b4" unfolding note_b4_def by (rule bus_step.p_publish) (simp add: note_b3_def)
qed

lemma note_b4_fields:
  "cpc note_b4 = CIdle" "c_read_pos (cons note_b4) = 0" "c_write_cache (cons note_b4) = 0" "write_pos (ctrl (seg note_b4)) = 1"
  "rcvd note_b4 = []" "sent note_b4 = [[5]]" "buf_sz note_b4 = 0" "load32 (mem (seg note_b4)) (size_ptr (c_slot (cons note_b4))) = 1"
proof -
  have 0: "cpc note_b0 = CIdle" "c_read_pos (cons note_b0) = 0" "c_write_cache (cons note_b0) = 0" "p_write_pos (prod note_b0) = 0"
    "rcvd note_b0 = []" "sent note_b0 = []" "buf_sz note_b0 = 0" "c_slot (cons note_b0) = p_slot (prod note_b0)" by code_simp+
  note defs = note_b4_def note_b3_def note_b2_def note_b1_def set_mem_def
  show "cpc note_b4 = CIdle" "c_read_pos (cons note_b4) = 0" "c_write_cache (cons note_b4) = 0" "write_pos (ctrl (seg note_b4)) = 1"
    "rcvd note_b4 = []" "sent note_b4 = [[5]]" "buf_sz note_b4 = 0" by (simp_all add: defs 0)
  have "m(a := v) = write_bytes m a [v]" for m a and v :: u8 by (auto simp: write_bytes_def fun_eq_iff)
  then show "load32 (mem (seg note_b4)) (size_ptr (c_slot (cons note_b4))) = 1"
    by (simp add: defs 0 mem_simps slot_fields del: fun_upd_apply)
qed

lemma note_pop_steps:
  "bus_step note_b4 note_b5" "bus_step note_b5 note_b6" "bus_step note_b6 note_b7" "bus_step note_b7 note_b8"
  "bus_step note_b8 note_b9" "bus_step note_b9 note_b10"
proof -
  note 4 = note_b4_fields
  note defs = note_b5_def note_b6_def note_b7_def note_b8_def note_b9_def
  have 6: "load32 (mem (seg note_b6)) (size_ptr (c_slot (cons note_b6))) = 1" using 4(8) by (simp add: defs c_slot_def)
  show "bus_step note_b4 note_b5" unfolding note_b5_def by (rule bus_step.c_slow) (simp_all add: 4)
  show "bus_step note_b5 note_b6"
    using bus_step.c_load [of note_b5 1 "(cons note_b5)\<lparr>c_write_cache := 1\<rparr>"] 4 by (simp add: note_b6_def note_b5_def)
  show "bus_step note_b6 note_b7" unfolding note_b7_def by (rule bus_step.c_size) (simp add: note_b6_def)
  have 7: "cpc note_b7 = CCopy 1 []" using 6 by (simp add: note_b7_def)
  show "bus_step note_b7 note_b8" unfolding note_b8_def
    by (rule bus_step.c_publish [OF 7]) (simp add: copy_len_def note_b7_def note_b6_def note_b5_def 4)
  show "bus_step note_b8 note_b9" unfolding note_b9_def by (rule bus_step.c_slow) (simp_all add: defs 4)
  show "bus_step note_b9 note_b10"
    using bus_step.c_load [of note_b9 1 "(cons note_b9)\<lparr>c_write_cache := 1\<rparr>"] by (simp add: note_b10_def defs 4)
qed

theorem notify_no_lost_wakeup_witness:
  "\<exists>\<sigma>. (notify_step nat_write nat_read \<lparr> efd = 3 \<rparr> True)\<^sup>*\<^sup>* (notify_start (start sample_segment 1 2 0) 0) \<sigma> \<and>
     sent (bus \<sigma>) = [[5]] \<and> rcvd (bus \<sigma>) = [(1, [])] \<and> wst \<sigma> = Waiting \<and> evt \<sigma> = 0"
proof -
  let ?step = "notify_step nat_write nat_read \<lparr> efd = 3 \<rparr> True"
  let ?N = "\<lambda>b e d w k. \<lparr> bus = b, evt = e :: nat, owed = d, wst = w, known = k \<rparr>"
  note defs = note_b4_def note_b3_def note_b2_def note_b1_def set_mem_def
  have 0: "sent note_b0 = []" "cpc note_b0 = CIdle" by code_simp+
  have push: "?step (?N b e False w k) (?N b' e (sent b' \<noteq> sent b) w k)" if "bus_step b b'" "cpc b' = cpc b" for b b' e w k
    using n_push [of "?N b e False w k" b' nat_write nat_read "\<lparr> efd = 3 \<rparr>" True] that by simp
  have pop: "?step (?N b e False Popping 1) (?N b' e False (after_pop True b b') 1)"
    if "bus_step b b'" "cpc b' \<noteq> cpc b" "cpc b = CLoad \<Longrightarrow> write_pos (ctrl (seg b')) = c_write_cache (cons b')" for b b' e
    using n_pop [of "?N b e False Popping 1" b' nat_write nat_read "\<lparr> efd = 3 \<rparr>" True] that by simp
  have "?step (?N note_b0 0 False Waiting 0) (?N note_b1 0 False Waiting 0)" using push [OF note_push_steps(1)] by (simp add: note_b1_def)
  moreover have "?step (?N note_b1 0 False Waiting 0) (?N note_b2 0 False Waiting 0)" using push [OF note_push_steps(2)] by (simp add: note_b2_def set_mem_def)
  moreover have "?step (?N note_b2 0 False Waiting 0) (?N note_b3 0 False Waiting 0)" using push [OF note_push_steps(3)] by (simp add: note_b3_def set_mem_def)
  moreover have "?step (?N note_b3 0 False Waiting 0) (?N note_b4 0 True Waiting 0)" using push [OF note_push_steps(4)] by (simp add: note_b4_def)
  moreover have "?step (?N note_b4 0 True Waiting 0) (?N note_b4 1 False Waiting 0)"
    using n_notify [of "?N note_b4 0 True Waiting 0" nat_write "\<lparr> efd = 3 \<rparr>" 1 nat_read True] by (simp add: notify_def nat_write_def)
  moreover have "?step (?N note_b4 1 False Waiting 0) (?N note_b4 0 False Popping 1)"
    using n_wait [of "?N note_b4 1 False Waiting 0" nat_read "\<lparr> efd = 3 \<rparr>" 0 nat_write True] note_b4_fields(6) by (simp add: nat_read_def told_def)
  moreover have "?step (?N note_b4 0 False Popping 1) (?N note_b5 0 False Popping 1)"
    using pop [OF note_pop_steps(1)] note_b4_fields by (simp add: note_b5_def after_pop_def)
  moreover have "?step (?N note_b5 0 False Popping 1) (?N note_b6 0 False Popping 1)"
    using pop [OF note_pop_steps(2)] note_b4_fields by (simp add: note_b6_def note_b5_def after_pop_def)
  moreover have "?step (?N note_b6 0 False Popping 1) (?N note_b7 0 False Popping 1)"
    using pop [OF note_pop_steps(3)] by (simp add: note_b7_def note_b6_def after_pop_def)
  moreover have "?step (?N note_b7 0 False Popping 1) (?N note_b8 0 False Popping 1)"
    using pop [OF note_pop_steps(4)] by (simp add: note_b8_def note_b7_def after_pop_def)
  moreover have "?step (?N note_b8 0 False Popping 1) (?N note_b9 0 False Popping 1)"
    using pop [OF note_pop_steps(5)] by (simp add: note_b9_def note_b8_def after_pop_def)
  moreover have "?step (?N note_b9 0 False Popping 1) (?N note_b10 0 False Waiting 1)"
    using pop [OF note_pop_steps(6)] note_b4_fields
    by (simp add: note_b10_def note_b9_def note_b8_def note_b7_def note_b6_def note_b5_def after_pop_def)
  ultimately have run: "?step\<^sup>*\<^sup>* (?N note_b0 0 False Waiting 0) (?N note_b10 0 False Waiting 1)"
    by (meson rtranclp.rtrancl_into_rtrancl rtranclp.rtrancl_refl)
  then have run': "?step\<^sup>*\<^sup>* (notify_start (start sample_segment 1 2 0) 0) (?N note_b10 0 False Waiting 1)"
    by (simp add: notify_start_def note_b0_def)
  have "sent note_b10 = [[5]]"
    using note_b4_fields by (simp add: note_b10_def note_b9_def note_b8_def note_b7_def note_b6_def note_b5_def)
  with notify_no_lost_wakeup [OF sample_create _ nat_eventfd run'] run' show ?thesis
    by (intro exI [of _ "?N note_b10 0 False Waiting 1"]) simp
qed

end
