(* ===== verification/Pool_Freelist.thy ===== *)
theory Pool_Freelist
  imports Fifo
begin

text \<open>
  The arithmetic helpers and the free list of \<open>memory_pool.hpp\<close>: \<open>align_up\<close>, \<open>next_pow2\<close> and
  \<open>SPSCFreeList\<close>, a ring of pointers that is shown to be a bounded queue.
\<close>

section \<open>Rounding\<close>

definition pool_kCacheLine :: u64 where "pool_kCacheLine = 64"

definition align_up :: "u64 \<Rightarrow> u64 \<Rightarrow> u64" where
  "align_up n a = (n + a - 1) AND NOT (a - 1)"

definition next_pow2 :: "u64 \<Rightarrow> u64" where
  "next_pow2 n =
     (if n \<le> 1 then 1
      else let n = n - 1;
               n = n OR drop_bit 1 n;
               n = n OR drop_bit 2 n;
               n = n OR drop_bit 4 n;
               n = n OR drop_bit 8 n;
               n = n OR drop_bit 16 n;
               n = n OR drop_bit 32 n
           in n + 1)"

lemma align_up_correct:
  assumes "unat a = 2 ^ k" and "unat n + 2 ^ k \<le> 2 ^ 64"
  shows "unat n \<le> unat (align_up n a)" and "unat (align_up n a) < unat n + 2 ^ k"
    and "2 ^ k dvd unat (align_up n a)"
proof -
  have nz: "a \<noteq> 0" using assms(1) by auto
  have "unat (n + (a - 1)) = unat n + (2 ^ k - 1)"
    using assms by (subst unat_add_lem [THEN iffD1]) (auto simp: unat_pred [OF nz])
  then have r: "unat (n + a - 1) = unat n + (2 ^ k - 1)" by (simp add: add_diff_eq)
  let ?r = "unat n + (2 ^ k - 1)"
  have al: "unat (align_up n a) = ?r - ?r mod 2 ^ k"
    by (simp add: align_up_def unat_and_not_pred_pow2 [OF assms(1)] r)
  have lt: "?r mod 2 ^ k < 2 ^ k" and le: "?r mod 2 ^ k \<le> ?r" by simp_all
  have pos: "(0::nat) < 2 ^ k" by simp
  show "unat n \<le> unat (align_up n a)" unfolding al using lt by linarith
  show "unat (align_up n a) < unat n + 2 ^ k" unfolding al using pos le by linarith
  show "2 ^ k dvd unat (align_up n a)" unfolding al by (rule dvd_minus_mod)
qed

subsection \<open>The next power of two\<close>

text \<open>Each round of or-ing a shifted copy doubles the reach of every set bit to the right.\<close>

lemma smear_round:
  fixes x y :: u64
  assumes "\<And>i. bit y i \<longleftrightarrow> (\<exists>j<m. bit x (i + j))" and m': "m' = 2 * m"
  shows "bit (y OR drop_bit m y) i \<longleftrightarrow> (\<exists>j<m'. bit x (i + j))"
  unfolding m'
proof
  assume "bit (y OR drop_bit m y) i"
  then consider j where "j < m" "bit x (i + j)" | j where "j < m" "bit x (m + i + j)"
    by (auto simp: bit_simps assms)
  then show "\<exists>j<2 * m. bit x (i + j)"
  proof cases
    case (2 j)
    then show ?thesis by (intro exI [of _ "m + j"]) (simp add: ac_simps)
  qed force
next
  assume "\<exists>j<2 * m. bit x (i + j)"
  then obtain j where j: "j < 2 * m" "bit x (i + j)" by blast
  show "bit (y OR drop_bit m y) i"
  proof (cases "j < m")
    case True
    with j show ?thesis by (auto simp: bit_simps assms)
  next
    case False
    then have "bit x (m + i + (j - m))" "j - m < m" using j by (simp_all add: ac_simps)
    then show ?thesis by (auto simp: bit_simps assms)
  qed
qed

lemma bit_imp_le:
  fixes v :: nat
  assumes "bit v i"
  shows "2 ^ i \<le> v"
  using assms by (auto simp: bit_iff_odd intro: ccontr)

lemma top_bit:
  fixes v :: nat
  assumes "2 ^ l \<le> v" and "v < 2 ^ Suc l"
  shows "bit v l"
proof -
  have "v div 2 ^ l = 1" using assms by (intro div_nat_eqI) simp_all
  then show ?thesis by (simp add: bit_iff_odd)
qed

lemma smeared_mask:
  fixes x y :: u64
  assumes "\<And>i. bit y i \<longleftrightarrow> (\<exists>j<64. bit x (i + j))" and "2 ^ l \<le> unat x" and "unat x < 2 ^ Suc l"
  shows "y = mask (Suc l)"
proof (rule bit_word_eqI)
  have bx: "bit x k \<longleftrightarrow> bit (unat x) k" for k by (auto simp: bit_simps dest: bit_imp_le_length)
  fix i assume i: "i < LENGTH(64)"
  have "(2::nat) ^ l < 2 ^ 64" using le_less_trans [OF assms(2) unat_lt_64] by simp
  then have "l < 64" by (rule power_less_imp_less_exp [rotated]) simp
  have "bit y i \<longleftrightarrow> i \<le> l"
  proof
    assume "bit y i"
    then obtain j where "bit x (i + j)" by (auto simp: assms)
    then have "2 ^ (i + j) \<le> unat x" by (auto simp: bx intro: bit_imp_le)
    then have "(2::nat) ^ (i + j) < 2 ^ Suc l" using assms(3) by (rule le_less_trans)
    then have "i + j < Suc l" by (rule power_less_imp_less_exp [rotated]) simp
    then show "i \<le> l" by simp
  next
    assume "i \<le> l"
    moreover have "bit x l" using top_bit [OF assms(2,3)] by (simp add: bx)
    ultimately show "bit y i" using \<open>l < 64\<close> by (auto simp: assms intro!: exI [of _ "l - i"])
  qed
  then show "bit y i \<longleftrightarrow> bit (mask (Suc l) :: u64) i" using i by (auto simp: bit_simps)
qed

lemma next_pow2_eq:
  assumes "1 < n"
  obtains l where "2 ^ l < unat n" and "unat n \<le> 2 ^ Suc l" and "next_pow2 n = 2 ^ Suc l"
proof -
  let ?x = "n - 1"
  have n1: "1 < unat n" using assms by (simp add: word_less_nat_alt)
  then have x: "unat ?x = unat n - 1" by (intro unat_pred) auto
  obtain l where l: "2 ^ l \<le> unat ?x" "unat ?x < 2 ^ Suc l"
    using ex_power_ivl1 [of 2 "unat ?x"] n1 unfolding x by fastforce
  have r0: "bit ?x i \<longleftrightarrow> (\<exists>j<1. bit ?x (i + j))" for i by simp
  let ?y1 = "?x OR drop_bit 1 ?x" let ?y2 = "?y1 OR drop_bit 2 ?y1" let ?y3 = "?y2 OR drop_bit 4 ?y2"
  let ?y4 = "?y3 OR drop_bit 8 ?y3" let ?y5 = "?y4 OR drop_bit 16 ?y4" let ?y6 = "?y5 OR drop_bit 32 ?y5"
  have r1: "bit ?y1 i \<longleftrightarrow> (\<exists>j<2. bit ?x (i + j))" for i by (rule smear_round [OF r0]) simp
  have r2: "bit ?y2 i \<longleftrightarrow> (\<exists>j<4. bit ?x (i + j))" for i by (rule smear_round [OF r1]) simp
  have r3: "bit ?y3 i \<longleftrightarrow> (\<exists>j<8. bit ?x (i + j))" for i by (rule smear_round [OF r2]) simp
  have r4: "bit ?y4 i \<longleftrightarrow> (\<exists>j<16. bit ?x (i + j))" for i by (rule smear_round [OF r3]) simp
  have r5: "bit ?y5 i \<longleftrightarrow> (\<exists>j<32. bit ?x (i + j))" for i by (rule smear_round [OF r4]) simp
  have "bit ?y6 i \<longleftrightarrow> (\<exists>j<64. bit ?x (i + j))" for i by (rule smear_round [OF r5]) simp
  then have y: "?y6 = mask (Suc l)" using l by (rule smeared_mask)
  show ?thesis
  proof (rule that [of l])
    show "2 ^ l < unat n" "unat n \<le> 2 ^ Suc l" using l n1 by (simp_all add: x)
    show "next_pow2 n = 2 ^ Suc l"
      unfolding next_pow2_def Let_def y using assms by (simp add: mask_eq_exp_minus_1 not_le [THEN iffD2])
  qed
qed

text \<open>Up to \<open>2 ^ 63\<close> the result is the least power of two above the argument; beyond it wraps to 0.\<close>

lemma next_pow2_least:
  assumes "unat n \<le> 2 ^ 63"
  obtains k where "k < 64" and "unat (next_pow2 n) = 2 ^ k" and "unat n \<le> 2 ^ k"
    and "\<And>j. unat n \<le> 2 ^ j \<Longrightarrow> k \<le> j"
proof (cases "n \<le> 1")
  case True
  then have "unat n \<le> 1" by (simp add: word_le_nat_alt)
  then show ?thesis using that [of 0] True by (simp add: next_pow2_def)
next
  case False
  then obtain l where l: "2 ^ l < unat n" "unat n \<le> 2 ^ Suc l" "next_pow2 n = 2 ^ Suc l"
    using next_pow2_eq [of n] by (auto simp: not_le)
  have "(2::nat) ^ l < 2 ^ 63" using l(1) assms by (rule less_le_trans)
  then have "l < 63" by (rule power_less_imp_less_exp [rotated]) simp
  show ?thesis
  proof (rule that [of "Suc l"])
    show "Suc l < 64" using \<open>l < 63\<close> by simp
    then show "unat (next_pow2 n) = 2 ^ Suc l" unfolding l(3) by (intro unat_exp2) simp
    show "Suc l \<le> j" if "unat n \<le> 2 ^ j" for j
    proof -
      have "(2::nat) ^ l < 2 ^ j" using l(1) that by (rule less_le_trans)
      then have "l < j" by (rule power_less_imp_less_exp [rotated]) simp
      then show ?thesis by simp
    qed
  qed (rule l(2))
qed

section \<open>SPSCFreeList\<close>

text \<open>
  Pointers are 64-bit addresses, 0 is \<open>nullptr\<close>. The slot array is a list; an index out of its
  range would be undefined behaviour, which \<open>fl_index\<close> below rules out.
\<close>

record SPSCFreeList =
  fl_wp :: u64
  fl_rp :: u64
  fl_cap :: u64
  fl_mask :: u64
  fl_slots :: "u64 list"

datatype pool_error = Assertion string | BadAlloc | MmapError int | OutOfBounds

text \<open>
  Assertions are checked in builds without \<open>NDEBUG\<close>; the flag says which build. \<open>junk\<close> is what
  the uninitialised array happens to hold.
\<close>

definition assert_that :: "bool \<Rightarrow> bool \<Rightarrow> string \<Rightarrow> 'a \<Rightarrow> pool_error + 'a" where
  "assert_that ndebug b msg x = (if ndebug \<or> b then Inr x else Inl (Assertion msg))"

definition new_SPSCFreeList :: "bool \<Rightarrow> u64 list \<Rightarrow> u64 \<Rightarrow> pool_error + SPSCFreeList" where
  "new_SPSCFreeList ndebug junk capacity =
     assert_that ndebug (capacity AND (capacity - 1) = 0) ''capacity must be power of 2''
       \<lparr> fl_wp = 0, fl_rp = 0, fl_cap = capacity, fl_mask = capacity - 1, fl_slots = junk \<rparr>"

definition fl_push :: "u64 \<Rightarrow> SPSCFreeList \<Rightarrow> bool \<times> SPSCFreeList" where
  "fl_push ptr f =
     (let w = fl_wp f in
      if fl_cap f \<le> w - fl_rp f then (False, f)
      else (True, f\<lparr>fl_slots := (fl_slots f)[unat (w AND fl_mask f) := ptr], fl_wp := w + 1\<rparr>))"

definition fl_pop :: "SPSCFreeList \<Rightarrow> u64 \<times> SPSCFreeList" where
  "fl_pop f =
     (let r = fl_rp f in
      if r = fl_wp f then (0, f)
      else (fl_slots f ! unat (r AND fl_mask f), f\<lparr>fl_rp := r + 1\<rparr>))"

definition size_approx :: "SPSCFreeList \<Rightarrow> u64" where
  "size_approx f = fl_wp f - fl_rp f"

subsection \<open>The free list is a queue of pointers\<close>

definition fl_deq :: "SPSCFreeList \<Rightarrow> u64 option \<times> SPSCFreeList" where
  "fl_deq f = (case fl_pop f of (p, f') \<Rightarrow> (if p = 0 then None else Some p, f'))"

definition fl_queue :: "SPSCFreeList \<Rightarrow> u64 list" where
  "fl_queue f = map (\<lambda>i. fl_slots f ! unat ((fl_rp f + of_nat i) AND fl_mask f)) [0..<unat (size_approx f)]"

definition fl_bound :: "SPSCFreeList \<Rightarrow> nat" where "fl_bound f = unat (fl_cap f)"

definition fl_ok :: "SPSCFreeList \<Rightarrow> u64 \<Rightarrow> bool" where "fl_ok f p \<longleftrightarrow> p \<noteq> 0"

definition fl_cfg :: "SPSCFreeList \<Rightarrow> bool" where
  "fl_cfg f \<longleftrightarrow> pow2 (fl_cap f) \<and> fl_mask f = fl_cap f - 1 \<and> length (fl_slots f) = unat (fl_cap f)"

definition fl_invar :: "SPSCFreeList \<Rightarrow> bool" where
  "fl_invar f \<longleftrightarrow> fl_cfg f \<and> unat (size_approx f) \<le> unat (fl_cap f) \<and> 0 \<notin> set (fl_queue f)"

lemma fl_index:
  assumes "fl_cfg f"
  obtains k where "k < 64" and "unat (fl_cap f) = 2 ^ k"
    and "\<And>w. unat (w AND fl_mask f) = unat w mod 2 ^ k"
    and "\<And>w. unat (w AND fl_mask f) < length (fl_slots f)"
proof -
  from assms obtain k where k: "unat (fl_cap f) = 2 ^ k" "k < 64"
    by (auto simp: fl_cfg_def elim: pow2E)
  with assms show ?thesis
    by (intro that [of k]) (simp_all add: fl_cfg_def unat_and_pred_pow2)
qed

lemma length_fl_queue [simp]: "length (fl_queue f) = unat (size_approx f)"
  by (simp add: fl_queue_def)

lemma distance_push64: "unat (w - r :: u64) < 2 ^ 63 \<Longrightarrow> unat (w + 1 - r) = Suc (unat (w - r))"
  by (simp add: diff_add_eq [symmetric] unat_word_ariths)

lemma fl_push_step:
  assumes inv: "fl_invar f" and "p \<noteq> 0" and "fl_push p f = (b, f')"
  shows "b \<longleftrightarrow> unat (size_approx f) < unat (fl_cap f)"
    and "fl_queue f' = (if b then fl_queue f @ [p] else fl_queue f)"
    and "fl_invar f'" and "fl_cap f' = fl_cap f"
proof -
  have cfg: "fl_cfg f" using inv by (simp add: fl_invar_def)
  obtain k where k: "k < 64" "unat (fl_cap f) = 2 ^ k"
    and idx: "\<And>w. unat (w AND fl_mask f) = unat w mod 2 ^ k"
    and ran: "\<And>w. unat (w AND fl_mask f) < length (fl_slots f)" using fl_index [OF cfg] by metis
  show b: "b \<longleftrightarrow> unat (size_approx f) < unat (fl_cap f)"
    using assms(3) by (auto simp: fl_push_def Let_def size_approx_def word_le_nat_alt split: if_splits)
  show "fl_cap f' = fl_cap f" using assms(3) by (auto simp: fl_push_def Let_def split: if_splits)
  have full: "f' = f" if "\<not> b" using that assms(3) by (auto simp: fl_push_def Let_def split: if_splits)
  have new: "f' = f\<lparr>fl_slots := (fl_slots f)[unat (fl_wp f AND fl_mask f) := p], fl_wp := fl_wp f + 1\<rparr>" if "b"
    using that assms(3) by (auto simp: fl_push_def Let_def split: if_splits)
  define n where "n = unat (size_approx f)"
  have wp: "fl_wp f = fl_rp f + of_nat n" by (simp add: n_def size_approx_def)
  have size: "unat (size_approx f') = Suc n" if "b"
  proof -
    have "(2::nat) ^ k \<le> 2 ^ 63" using k(1) by (intro power_increasing) auto
    with b that k have "unat (fl_wp f - fl_rp f) < 2 ^ 63" by (simp add: size_approx_def)
    then show ?thesis using new [OF that] by (simp add: size_approx_def n_def distance_push64)
  qed
  have other: "unat ((fl_rp f + of_nat i) AND fl_mask f) \<noteq> unat (fl_wp f AND fl_mask f)" if "b" "i < n" for i
    using that b k ring_index_inj [of k i n "fl_rp f"] by (auto simp: idx wp n_def)
  show q: "fl_queue f' = (if b then fl_queue f @ [p] else fl_queue f)"
  proof (cases b)
    case True
    have "fl_queue f' = map (\<lambda>i. (fl_slots f)[unat (fl_wp f AND fl_mask f) := p] !
        unat ((fl_rp f + of_nat i) AND fl_mask f)) [0..<Suc n]"
      using size [OF True] by (simp add: fl_queue_def new [OF True] del: upt_Suc)
    also have "\<dots> = fl_queue f @ [p]"
      using other [OF True, symmetric] ran by (auto simp: fl_queue_def n_def [symmetric] simp flip: wp)
    finally show ?thesis using True by simp
  qed (simp add: full)
  show "fl_invar f'"
  proof (cases b)
    case True
    have "fl_cfg f'" using cfg by (simp add: new [OF True] fl_cfg_def)
    moreover have "unat (size_approx f') \<le> unat (fl_cap f')"
      using b True size [OF True] by (simp add: new [OF True] n_def)
    ultimately show ?thesis using inv q True assms(2) by (simp add: fl_invar_def)
  qed (use inv full in simp)
qed

lemma fl_pop_step:
  assumes inv: "fl_invar f" and "fl_deq f = (r, f')"
  shows "r = (case fl_queue f of [] \<Rightarrow> None | x # xs \<Rightarrow> Some x)"
    and "fl_queue f' = tl (fl_queue f)" and "fl_invar f'" and "fl_cap f' = fl_cap f"
proof -
  define n where "n = unat (size_approx f)"
  have empty: "n = 0 \<longleftrightarrow> fl_rp f = fl_wp f" by (auto simp: n_def size_approx_def unat_eq_0)
  let ?p = "fl_slots f ! unat (fl_rp f AND fl_mask f)"
  show "fl_cap f' = fl_cap f" using assms(2) by (auto simp: fl_deq_def fl_pop_def Let_def split: if_splits)
  have res: "r = (case fl_queue f of [] \<Rightarrow> None | x # xs \<Rightarrow> Some x) \<and> fl_queue f' = tl (fl_queue f) \<and> fl_invar f'"
  proof (cases n)
    case 0
    with empty assms(2) have "r = None" "f' = f" by (simp_all add: fl_deq_def fl_pop_def)
    with inv 0 show ?thesis by (simp add: fl_queue_def n_def [symmetric])
  next
    case (Suc m)
    then have f': "f' = f\<lparr>fl_rp := fl_rp f + 1\<rparr>" and r: "r = (if ?p = 0 then None else Some ?p)"
      using empty assms(2) by (auto simp: fl_deq_def fl_pop_def Let_def)
    have size: "unat (size_approx f') = m"
      using Suc empty distance_pop [of "fl_wp f" "fl_rp f"] by (simp add: f' size_approx_def n_def)
    have q: "fl_queue f = ?p # fl_queue f'"
      unfolding fl_queue_def size n_def [symmetric] Suc upt_conv_Cons [OF zero_less_Suc]
      by (simp add: f' map_Suc_upt [symmetric] o_def algebra_simps del: upt_Suc)
    have "fl_cfg f'" "unat (size_approx f') \<le> unat (fl_cap f')"
      using inv Suc size by (simp_all add: f' fl_invar_def fl_cfg_def n_def)
    with inv q r show ?thesis by (auto simp: fl_invar_def)
  qed
  then show "r = (case fl_queue f of [] \<Rightarrow> None | x # xs \<Rightarrow> Some x)"
    and "fl_queue f' = tl (fl_queue f)" and "fl_invar f'" by auto
qed

lemmas fl_push_laws = fl_push_step [OF _ _ surjective_pairing]
lemmas fl_pop_laws = fl_pop_step [OF _ surjective_pairing]

lemma fl_invar_size: "fl_invar f \<Longrightarrow> unat (size_approx f) \<le> unat (fl_cap f)"
  by (simp add: fl_invar_def)

interpretation freelist: bounded_fifo fl_push fl_deq fl_queue fl_bound fl_ok fl_invar
  by unfold_locales (simp_all add: fl_ok_def [abs_def] fl_bound_def fl_push_laws fl_pop_laws fl_invar_size)

end
