(* ===== verification/Memory_Pool.thy ===== *)
theory Memory_Pool
  imports Pool_Freelist "HOL-Library.Multiset"
begin

text \<open>
  \<open>MemoryPool\<close> of \<open>memory_pool.hpp\<close>, a fixed-size block allocator over one mapped region, and the
  contract of an allocator as a locale: what is free and what is held always make up the
  blocks of the pool. The contract is interpreted on the pool here and on the thread-local
  cache in \<open>Pool_Cache\<close>.
\<close>

section \<open>The pool\<close>

record PoolOptions =
  opt_huge_pages :: bool
  opt_lock_memory :: bool
  opt_numa_local :: bool

record PoolStats =
  allocs :: u64
  frees :: u64
  alloc_failures :: u64

definition outstanding :: "PoolStats \<Rightarrow> u64" where
  "outstanding st = allocs st - frees st"

record MemoryPool =
  block_size :: u64
  num_blocks :: u64
  opts :: PoolOptions
  freelist :: SPSCFreeList
  backing :: u64
  backing_size :: u64
  numa_backing :: bool
  stats :: PoolStats

text \<open>
  What the build and the system give a new pool: whether \<open>POOL_NUMA\<close> and \<open>NDEBUG\<close> are defined, the
  answers of \<open>numa_available\<close>, \<open>numa_alloc_local\<close> and \<open>mmap\<close> (\<open>None\<close> is \<open>MAP_FAILED\<close>).
\<close>

record pool_env =
  POOL_NUMA :: bool
  NDEBUG :: bool
  numa_available :: int
  numa_alloc_local :: "u64 \<Rightarrow> u64"
  pool_mmap :: "u64 \<Rightarrow> bool \<Rightarrow> u64 option"
  pool_errno :: int
  junk_slots :: "u64 \<Rightarrow> u64 list"

definition map_backing :: "pool_env \<Rightarrow> MemoryPool \<Rightarrow> pool_error + MemoryPool" where
  "map_backing env pl =
     (let pl = pl\<lparr>backing_size := block_size pl * num_blocks pl\<rparr> in
      if POOL_NUMA env \<and> opt_numa_local (opts pl) \<and> 0 \<le> numa_available env
      then let b = numa_alloc_local env (backing_size pl) in
           if b = 0 then Inl BadAlloc else Inr (pl\<lparr>backing := b, numa_backing := True\<rparr>)
      else case pool_mmap env (backing_size pl) (opt_huge_pages (opts pl)) of
             None \<Rightarrow> Inl (MmapError (pool_errno env))
           | Some b \<Rightarrow> Inr (pl\<lparr>backing := b\<rparr>))"

text \<open>The loop of \<open>populate_freelist\<close> from index \<open>i\<close> on, \<open>n\<close> rounds before its end.\<close>

fun populate_freelist :: "bool \<Rightarrow> nat \<Rightarrow> u64 \<Rightarrow> MemoryPool \<Rightarrow> pool_error + MemoryPool" where
  "populate_freelist ndebug 0 i pl = Inr pl"
| "populate_freelist ndebug (Suc n) i pl =
     (case fl_push (backing pl + i * block_size pl) (freelist pl) of (ok, f) \<Rightarrow>
        case assert_that ndebug ok ''ok'' (pl\<lparr>freelist := f\<rparr>) of
          Inl e \<Rightarrow> Inl e
        | Inr pl' \<Rightarrow> populate_freelist ndebug n (i + 1) pl')"

definition new_MemoryPool :: "pool_env \<Rightarrow> u64 \<Rightarrow> u64 \<Rightarrow> PoolOptions \<Rightarrow> pool_error + MemoryPool" where
  "new_MemoryPool env bsize nblocks po =
     (let cap = next_pow2 (max nblocks 2) in
      case new_SPSCFreeList (NDEBUG env) (junk_slots env cap) cap of
        Inl e \<Rightarrow> Inl e
      | Inr f \<Rightarrow>
          (case map_backing env \<lparr> block_size = align_up (max bsize pool_kCacheLine) pool_kCacheLine,
               num_blocks = next_pow2 (max nblocks 2), opts = po, freelist = f, backing = 0,
               backing_size = 0, numa_backing = False,
               stats = \<lparr> allocs = 0, frees = 0, alloc_failures = 0 \<rparr> \<rparr> of
             Inl e \<Rightarrow> Inl e
           | Inr pl \<Rightarrow> populate_freelist (NDEBUG env) (unat (num_blocks pl)) 0 pl))"

definition pool_alloc :: "MemoryPool \<Rightarrow> u64 \<times> MemoryPool" where
  "pool_alloc pl =
     (case fl_pop (freelist pl) of (p, f) \<Rightarrow>
        (p, pl\<lparr>freelist := f,
               stats := if p \<noteq> 0 then (stats pl)\<lparr>allocs := allocs (stats pl) + 1\<rparr>
                        else (stats pl)\<lparr>alloc_failures := alloc_failures (stats pl) + 1\<rparr>\<rparr>))"

definition owns :: "MemoryPool \<Rightarrow> u64 \<Rightarrow> bool" where
  "owns pl p \<longleftrightarrow> backing pl \<le> p \<and> p < backing pl + backing_size pl"

definition pool_free :: "bool \<Rightarrow> u64 \<Rightarrow> MemoryPool \<Rightarrow> pool_error + MemoryPool" where
  "pool_free ndebug p pl =
     (case assert_that ndebug (p \<noteq> 0) ''free(nullptr)'' () of
        Inl e \<Rightarrow> Inl e
      | Inr _ \<Rightarrow>
     (case assert_that ndebug (owns pl p) ''pointer not owned by this pool'' () of
        Inl e \<Rightarrow> Inl e
      | Inr _ \<Rightarrow>
     (case fl_push p (freelist pl) of (ok, f) \<Rightarrow>
     (case assert_that ndebug ok ''freelist overflow'' () of
        Inl e \<Rightarrow> Inl e
      | Inr _ \<Rightarrow>
          Inr (pl\<lparr>freelist := f, stats := (stats pl)\<lparr>frees := frees (stats pl) + 1\<rparr>\<rparr>)))))"

definition available :: "MemoryPool \<Rightarrow> u64" where
  "available pl = size_approx (freelist pl)"

text \<open>What the destructor gives back to the system, and by which call.\<close>

datatype pool_release = Numa_Free u64 u64 | Munmap u64 u64

definition destroy_MemoryPool :: "bool \<Rightarrow> MemoryPool \<Rightarrow> pool_release list" where
  "destroy_MemoryPool pool_numa pl =
     (if backing pl = 0 then []
      else if pool_numa \<and> numa_backing pl then [Numa_Free (backing pl) (backing_size pl)]
      else [Munmap (backing pl) (backing_size pl)])"

section \<open>The contract of an allocator\<close>

lemma in_rest_iff:
  assumes "B \<subseteq># A"
  shows "p \<in># A - B \<longleftrightarrow> add_mset p B \<subseteq># A"
proof -
  from assms obtain C where "A = B + C" by (auto simp: mset_subset_eq_exists_conv)
  moreover have "add_mset p B \<subseteq># B + C \<longleftrightarrow> {#p#} \<subseteq># C"
    using mset_subset_eq_mono_add_left_cancel [of B "{#p#}" C] by simp
  ultimately show ?thesis by (simp add: single_subset_iff)
qed

text \<open>
  \<open>blocks\<close> are all the blocks, \<open>free_blocks\<close> those not handed out. A client that frees only what
  it holds is never handed a block twice and never meets an error.
\<close>

datatype alloc_op = Alloc | Free nat

text \<open>
  A client with a list of held blocks: \<open>Alloc\<close> keeps the block it gets, \<open>Free i\<close> gives back the
  \<open>i\<close>-th held block (and does nothing out of range).
\<close>

fun client_run :: "('s \<Rightarrow> u64 \<times> 's) \<Rightarrow> (u64 \<Rightarrow> 's \<Rightarrow> pool_error + 's) \<Rightarrow> alloc_op list \<Rightarrow> u64 list \<Rightarrow> 's
    \<Rightarrow> pool_error + (u64 list \<times> 's)" where
  "client_run al fr [] held s = Inr (held, s)"
| "client_run al fr (Alloc # ops) held s =
     (case al s of (p, s') \<Rightarrow> client_run al fr ops (if p = 0 then held else p # held) s')"
| "client_run al fr (Free i # ops) held s =
     (if i < length held
      then case fr (held ! i) s of
             Inl e \<Rightarrow> Inl e
           | Inr s' \<Rightarrow> client_run al fr ops (take i held @ drop (Suc i) held) s'
      else client_run al fr ops held s)"

locale allocator =
  fixes alloc :: "'s \<Rightarrow> u64 \<times> 's"
    and release :: "u64 \<Rightarrow> 's \<Rightarrow> pool_error + 's"
    and blocks :: "'s \<Rightarrow> u64 list"
    and free_blocks :: "'s \<Rightarrow> u64 multiset"
    and invar :: "'s \<Rightarrow> bool"
  assumes blocks_distinct: "invar s \<Longrightarrow> distinct (blocks s)"
    and blocks_nonnull: "invar s \<Longrightarrow> 0 \<notin> set (blocks s)"
    and free_sub: "invar s \<Longrightarrow> free_blocks s \<subseteq># mset (blocks s)"
    and alloc_empty: "invar s \<Longrightarrow> fst (alloc s) = 0 \<longleftrightarrow> free_blocks s = {#}"
    and alloc_free: "invar s \<Longrightarrow> fst (alloc s) \<noteq> 0 \<Longrightarrow>
      add_mset (fst (alloc s)) (free_blocks (snd (alloc s))) = free_blocks s"
    and alloc_none: "invar s \<Longrightarrow> fst (alloc s) = 0 \<Longrightarrow> free_blocks (snd (alloc s)) = {#}"
    and alloc_invar: "invar s \<Longrightarrow> invar (snd (alloc s))"
    and alloc_blocks: "invar s \<Longrightarrow> blocks (snd (alloc s)) = blocks s"
    and release_held: "invar s \<Longrightarrow> p \<in># mset (blocks s) - free_blocks s \<Longrightarrow>
      \<exists>s'. release p s = Inr s' \<and> free_blocks s' = add_mset p (free_blocks s) \<and>
           invar s' \<and> blocks s' = blocks s"
begin

lemma mset_drop_nth:
  assumes "i < length xs"
  shows "add_mset (xs ! i) (mset (take i xs @ drop (Suc i) xs)) = mset xs"
proof -
  have "mset xs = mset (take i xs @ xs ! i # drop (Suc i) xs)" using id_take_nth_drop [OF assms] by simp
  then show ?thesis by simp
qed

lemma run_conserves:
  assumes "invar s" and "mset held + free_blocks s = mset (blocks s)"
  shows "\<exists>held' s'. client_run alloc release ops held s = Inr (held', s') \<and> invar s' \<and>
    mset held' + free_blocks s' = mset (blocks s') \<and> blocks s' = blocks s"
  using assms
proof (induction ops arbitrary: held s)
  case Nil
  then show ?case by simp
next
  case (Cons op ops)
  show ?case
  proof (cases op)
    case Alloc
    obtain p s1 where a: "alloc s = (p, s1)" by force
    let ?h = "if p = 0 then held else p # held"
    have "mset ?h + free_blocks s1 = mset (blocks s1)"
      using alloc_empty [OF Cons.prems(1)] alloc_free [OF Cons.prems(1)] alloc_none [OF Cons.prems(1)]
        alloc_blocks [OF Cons.prems(1)] Cons.prems(2) a by (auto simp flip: union_mset_add_mset_right)
    moreover have "invar s1" "blocks s1 = blocks s"
      using alloc_invar [OF Cons.prems(1)] alloc_blocks [OF Cons.prems(1)] a by simp_all
    ultimately show ?thesis using Cons.IH [of s1 ?h] a Alloc by auto
  next
    case (Free i)
    show ?thesis
    proof (cases "i < length held")
      case True
      let ?h = "take i held @ drop (Suc i) held"
      have p: "held ! i \<in># mset (blocks s) - free_blocks s"
        using True by (simp flip: Cons.prems(2))
      obtain s1 where s1: "release (held ! i) s = Inr s1"
        "free_blocks s1 = add_mset (held ! i) (free_blocks s)" "invar s1" "blocks s1 = blocks s"
        using release_held [OF Cons.prems(1) p] by blast
      have "mset ?h + free_blocks s1 = mset (blocks s1)"
        using mset_drop_nth [OF True] Cons.prems(2) unfolding s1(2,4)
        by (metis union_mset_add_mset_left union_mset_add_mset_right)
      then show ?thesis using Cons.IH [OF s1(3), of ?h] s1 Free True by auto
    next
      case False
      then show ?thesis using Cons.IH [OF Cons.prems] Free by simp
    qed
  qed
qed

lemma held_distinct:
  assumes "invar s" and "mset held + free_blocks s = mset (blocks s)"
  shows "distinct held" and "set held \<subseteq> set (blocks s)" and "0 \<notin> set held"
proof -
  have sub: "mset held \<subseteq># mset (blocks s)" by (simp flip: assms(2))
  then show "set held \<subseteq> set (blocks s)" by (metis set_mset_mono set_mset_mset)
  with blocks_nonnull [OF assms(1)] show "0 \<notin> set held" by blast
  obtain xs where "mset xs = free_blocks s" using ex_mset by blast
  with assms(2) have "mset (held @ xs) = mset (blocks s)" by simp
  with blocks_distinct [OF assms(1)] have "distinct (held @ xs)" using mset_eq_imp_distinct_iff by blast
  then show "distinct held" by simp
qed

end

section \<open>The pool keeps the contract\<close>

definition pool_blocks :: "MemoryPool \<Rightarrow> u64 list" where
  "pool_blocks pl = map (\<lambda>i. backing pl + of_nat i * block_size pl) [0..<unat (num_blocks pl)]"

text \<open>
  The region fits the address space, and its size did not wrap; the blocks are whole cache
  lines.
\<close>

definition pool_cfg :: "MemoryPool \<Rightarrow> bool" where
  "pool_cfg pl \<longleftrightarrow> 0 < unat (backing pl) \<and> 64 \<le> unat (block_size pl) \<and> 64 dvd unat (block_size pl) \<and>
     unat (block_size pl) * unat (num_blocks pl) = unat (backing_size pl) \<and>
     unat (backing pl) + unat (backing_size pl) < 2 ^ 64 \<and> fl_cap (freelist pl) = num_blocks pl"

definition pool_free_blocks :: "MemoryPool \<Rightarrow> u64 multiset" where
  "pool_free_blocks pl = mset (fl_queue (freelist pl))"

definition pool_invar :: "MemoryPool \<Rightarrow> bool" where
  "pool_invar pl \<longleftrightarrow> pool_cfg pl \<and> fl_invar (freelist pl) \<and> pool_free_blocks pl \<subseteq># mset (pool_blocks pl)"

lemma pool_cfgD:
  assumes "pool_cfg pl"
  shows "0 < unat (backing pl)" and "64 \<le> unat (block_size pl)" and "64 dvd unat (block_size pl)"
    and "unat (backing_size pl) = unat (num_blocks pl) * unat (block_size pl)"
    and "unat (backing pl) + unat (backing_size pl) < 2 ^ 64"
    and "fl_cap (freelist pl) = num_blocks pl"
  using assms unfolding pool_cfg_def mult.commute [of "unat (num_blocks pl)"] by auto

lemma block_addr:
  assumes "pool_cfg pl" and "i < unat (num_blocks pl)"
  shows "unat (backing pl + of_nat i * block_size pl) = unat (backing pl) + i * unat (block_size pl)"
    and "unat (backing pl) + i * unat (block_size pl) + unat (block_size pl)
      \<le> unat (backing pl) + unat (backing_size pl)"
proof -
  let ?b = "unat (block_size pl)"
  have "Suc i * ?b \<le> unat (num_blocks pl) * ?b" using assms(2) by (intro mult_right_mono) auto
  then have le: "i * ?b + ?b \<le> unat (backing_size pl)"
    by (simp add: pool_cfgD(4) [OF assms(1)] add.commute)
  then show "unat (backing pl) + i * ?b + ?b \<le> unat (backing pl) + unat (backing_size pl)" by simp
  have lt: "unat (backing pl) + i * ?b < 2 ^ 64" using pool_cfgD(5) [OF assms(1)] le by linarith
  have i64: "unat (of_nat i :: u64) = i"
    using assms(2) unat_lt_64 [of "num_blocks pl"] by (simp add: unat_of_nat_64)
  then show "unat (backing pl + of_nat i * block_size pl) = unat (backing pl) + i * ?b"
    using lt by (simp add: unat_word_ariths i64)
qed

lemma pool_blocks_mem:
  assumes "pool_cfg pl" and "p \<in> set (pool_blocks pl)"
  obtains i where "i < unat (num_blocks pl)" and "unat p = unat (backing pl) + i * unat (block_size pl)"
    and "p = backing pl + of_nat i * block_size pl"
  using assms block_addr [OF assms(1)] by (auto simp: pool_blocks_def)

lemma pool_blocks_distinct:
  assumes "pool_cfg pl"
  shows "distinct (pool_blocks pl)"
  unfolding pool_blocks_def distinct_map
proof (intro conjI inj_onI)
  fix i j assume "i \<in> set [0..<unat (num_blocks pl)]" "j \<in> set [0..<unat (num_blocks pl)]"
    and eq: "backing pl + of_nat i * block_size pl = backing pl + of_nat j * block_size pl"
  then have "unat (backing pl) + i * unat (block_size pl) = unat (backing pl) + j * unat (block_size pl)"
    using block_addr(1) [OF assms] by (metis atLeastLessThan_iff set_upt)
  then show "i = j" using pool_cfgD(2) [OF assms] by simp
qed simp

lemma pool_blocks_nonnull: "pool_cfg pl \<Longrightarrow> 0 \<notin> set (pool_blocks pl)"
proof
  assume cfg: "pool_cfg pl" and "0 \<in> set (pool_blocks pl)"
  then obtain i where "unat (0 :: u64) = unat (backing pl) + i * unat (block_size pl)"
    by (rule pool_blocks_mem)
  with pool_cfgD(1) [OF cfg] show False by simp
qed

lemma pool_blocks_owned:
  assumes cfg: "pool_cfg pl" and "p \<in> set (pool_blocks pl)"
  shows "owns pl p"
proof -
  obtain i where i: "i < unat (num_blocks pl)"
    and p: "unat p = unat (backing pl) + i * unat (block_size pl)"
    using pool_blocks_mem [OF assms] by metis
  have "unat (backing pl + backing_size pl) = unat (backing pl) + unat (backing_size pl)"
    using pool_cfgD(5) [OF cfg] by (intro unat_add_lem [THEN iffD1]) simp
  then show "owns pl p"
    using block_addr(2) [OF cfg i] pool_cfgD(2) [OF cfg]
    by (simp add: owns_def word_le_nat_alt word_less_nat_alt p)
qed

lemma pool_invar_cfg: "pool_invar pl \<Longrightarrow> pool_cfg pl"
  and pool_invar_sub: "pool_invar pl \<Longrightarrow> pool_free_blocks pl \<subseteq># mset (pool_blocks pl)"
  by (simp_all add: pool_invar_def)

lemma fl_pop_deq: "fl_pop f = (p, f') \<Longrightarrow> fl_deq f = (if p = 0 then None else Some p, f')"
  by (simp add: fl_deq_def)

lemma pool_alloc_step:
  assumes "pool_invar pl" and "pool_alloc pl = (p, pl')"
  shows "p = 0 \<longleftrightarrow> pool_free_blocks pl = {#}"
    and "p \<noteq> 0 \<Longrightarrow> add_mset p (pool_free_blocks pl') = pool_free_blocks pl"
    and "p = 0 \<Longrightarrow> pool_free_blocks pl' = {#}"
    and "pool_invar pl'" and "pool_blocks pl' = pool_blocks pl"
proof -
  obtain f where pop: "fl_pop (freelist pl) = (p, f)"
    and pl': "freelist pl' = f" "backing pl' = backing pl" "block_size pl' = block_size pl"
      "num_blocks pl' = num_blocks pl" "backing_size pl' = backing_size pl"
    using assms(2) by (auto simp: pool_alloc_def split: prod.splits)
  have inv: "fl_invar (freelist pl)" using assms(1) by (simp add: pool_invar_def)
  note step = fl_pop_step [OF inv fl_pop_deq [OF pop]]
  show blocks: "pool_blocks pl' = pool_blocks pl" by (simp add: pool_blocks_def pl')
  show e: "p = 0 \<longleftrightarrow> pool_free_blocks pl = {#}"
    using step(1) by (auto simp: pool_free_blocks_def split: list.splits if_splits)
  show ne: "add_mset p (pool_free_blocks pl') = pool_free_blocks pl" if "p \<noteq> 0"
    using that step(1,2) by (auto simp: pool_free_blocks_def pl' split: list.splits)
  show z: "pool_free_blocks pl' = {#}" if "p = 0"
    using that step(2) e by (simp add: pool_free_blocks_def pl')
  have "pool_free_blocks pl' \<subseteq># pool_free_blocks pl"
    using ne z by (cases "p = 0") (auto simp flip: ne)
  then have "pool_free_blocks pl' \<subseteq># mset (pool_blocks pl')"
    using assms(1) blocks by (auto simp: pool_invar_def)
  moreover have "pool_cfg pl'"
    using pool_invar_cfg [OF assms(1)] step(4) by (simp add: pool_cfg_def pl')
  ultimately show "pool_invar pl'" using step(3) by (simp add: pool_invar_def pl')
qed

lemma pool_free_step:
  assumes inv: "pool_invar pl" and p: "p \<in># mset (pool_blocks pl) - pool_free_blocks pl"
  shows "\<exists>pl'. pool_free ndebug p pl = Inr pl' \<and> pool_free_blocks pl' = add_mset p (pool_free_blocks pl) \<and>
    pool_invar pl' \<and> pool_blocks pl' = pool_blocks pl"
proof -
  have cfg: "pool_cfg pl" and f: "fl_invar (freelist pl)"
    and sub: "pool_free_blocks pl \<subseteq># mset (pool_blocks pl)" using inv by (simp_all add: pool_invar_def)
  have mem: "p \<in> set (pool_blocks pl)" using p by (metis in_diffD set_mset_mset)
  then have nz: "p \<noteq> 0" using pool_blocks_nonnull [OF cfg] by metis
  obtain ok f' where push: "fl_push p (freelist pl) = (ok, f')" by force
  note step = fl_push_step [OF f nz push]
  have add: "add_mset p (pool_free_blocks pl) \<subseteq># mset (pool_blocks pl)"
    using p by (simp only: in_rest_iff [OF sub])
  then have "size (add_mset p (pool_free_blocks pl)) \<le> size (mset (pool_blocks pl))" by (rule size_mset_mono)
  then have ok: ok
    using step(1) cfg by (simp add: pool_free_blocks_def pool_blocks_def pool_cfg_def)
  let ?pl = "pl\<lparr>freelist := f', stats := (stats pl)\<lparr>frees := frees (stats pl) + 1\<rparr>\<rparr>"
  have "pool_free ndebug p pl = Inr ?pl"
    using nz ok push pool_blocks_owned [OF cfg mem] by (simp add: pool_free_def assert_that_def)
  moreover have q: "pool_free_blocks ?pl = add_mset p (pool_free_blocks pl)"
    using step(2) ok by (simp add: pool_free_blocks_def)
  moreover have "pool_blocks ?pl = pool_blocks pl" by (simp add: pool_blocks_def)
  moreover have "pool_cfg ?pl" using cfg step(4) by (simp add: pool_cfg_def)
  ultimately show ?thesis using add step(3) by (auto simp: pool_invar_def)
qed

interpretation pool: allocator pool_alloc "pool_free ndebug" pool_blocks pool_free_blocks pool_invar
  for ndebug
proof (unfold_locales, goal_cases)
  case (9 s p)
  then show ?case by (rule pool_free_step)
qed (simp_all add: pool_alloc_step [OF _ surjective_pairing] pool_invar_cfg pool_blocks_distinct
    pool_blocks_nonnull pool_invar_sub)

section \<open>A new pool\<close>

lemma length_pool_blocks [simp]: "length (pool_blocks pl) = unat (num_blocks pl)"
  by (simp add: pool_blocks_def)

lemma pool_blocks_freelist [simp]: "pool_blocks (pl\<lparr>freelist := f\<rparr>) = pool_blocks pl"
  by (simp add: pool_blocks_def)

lemma populate_fills:
  assumes "pool_cfg pl" and "fl_invar (freelist pl)" and "fl_queue (freelist pl) = take i (pool_blocks pl)"
    and "i + n = unat (num_blocks pl)"
  shows "\<exists>f. populate_freelist ndebug n (of_nat i) pl = Inr (pl\<lparr>freelist := f\<rparr>) \<and> fl_invar f \<and>
    fl_queue f = pool_blocks pl \<and> fl_cap f = fl_cap (freelist pl)"
  using assms
proof (induction n arbitrary: i pl)
  case 0
  then have "fl_queue (freelist pl) = pool_blocks pl" by simp
  with 0 show ?case by (intro exI [of _ "freelist pl"]) simp
next
  case (Suc n)
  let ?p = "backing pl + of_nat i * block_size pl"
  have i: "i < unat (num_blocks pl)" using Suc.prems(4) by simp
  have mem: "?p \<in> set (pool_blocks pl)" using i by (auto simp: pool_blocks_def)
  then have nz: "?p \<noteq> 0" using pool_blocks_nonnull [OF Suc.prems(1)] by metis
  obtain ok f where push: "fl_push ?p (freelist pl) = (ok, f)" by force
  note step = fl_push_step [OF Suc.prems(2) nz push]
  have "unat (size_approx (freelist pl)) = i"
    using arg_cong [OF Suc.prems(3), of length] i by simp
  then have ok: ok using step(1) i pool_cfgD(6) [OF Suc.prems(1)] by simp
  let ?pl = "pl\<lparr>freelist := f\<rparr>"
  have "pool_blocks pl ! i = ?p" using i by (simp add: pool_blocks_def)
  then have "fl_queue (freelist ?pl) = take (Suc i) (pool_blocks ?pl)"
    using step(2) ok Suc.prems(3) i by (simp add: take_Suc_conv_app_nth)
  moreover have "pool_cfg ?pl" using Suc.prems(1) step(4) by (simp add: pool_cfg_def)
  ultimately obtain f' where "populate_freelist ndebug n (of_nat (Suc i)) ?pl = Inr (?pl\<lparr>freelist := f'\<rparr>)"
    "fl_invar f'" "fl_queue f' = pool_blocks ?pl" "fl_cap f' = fl_cap f"
    using Suc.IH [of ?pl "Suc i"] Suc.prems(4) step(3) by auto
  then show ?case
    using push ok step(4) by (intro exI [of _ f']) (simp add: assert_that_def add.commute)
qed

text \<open>
  What a new pool relies on: a mapping that the system returns is not null and lies inside the
  address space, and \<open>new void *[n]\<close> yields \<open>n\<close> slots.
\<close>

definition pool_env_ok :: "pool_env \<Rightarrow> bool" where
  "pool_env_ok env \<longleftrightarrow>
     (\<forall>sz huge b. pool_mmap env sz huge = Some b \<longrightarrow> b \<noteq> 0 \<and> unat b + unat sz < 2 ^ 64) \<and>
     (\<forall>sz. numa_alloc_local env sz \<noteq> 0 \<longrightarrow> unat (numa_alloc_local env sz) + unat sz < 2 ^ 64) \<and>
     (\<forall>n. length (junk_slots env n) = unat n)"

definition blocks_for :: "u64 \<Rightarrow> u64" where "blocks_for nblocks = next_pow2 (max nblocks 2)"

definition bytes_for :: "u64 \<Rightarrow> u64" where
  "bytes_for bsize = align_up (max bsize pool_kCacheLine) pool_kCacheLine"

lemma blocks_for_least:
  assumes "unat n \<le> 2 ^ 63"
  obtains k where "k < 64" and "unat (blocks_for n) = 2 ^ k" and "max (unat n) 2 \<le> 2 ^ k"
    and "\<And>j. max (unat n) 2 \<le> 2 ^ j \<Longrightarrow> k \<le> j"
proof -
  have "unat (max n 2) \<le> 2 ^ 63" using assms by (simp add: unat_max)
  then show ?thesis
    by (rule next_pow2_least) (rule that, simp_all add: blocks_for_def unat_max)
qed

lemma bytes_for_correct:
  assumes "unat n + 64 \<le> 2 ^ 64"
  shows "max (unat n) 64 \<le> unat (bytes_for n)" and "unat (bytes_for n) < max (unat n) 64 + 64"
    and "64 dvd unat (bytes_for n)"
proof -
  have "unat (max n pool_kCacheLine) = max (unat n) 64" by (simp add: unat_max pool_kCacheLine_def)
  with assms align_up_correct [of pool_kCacheLine 6 "max n pool_kCacheLine"]
  show "max (unat n) 64 \<le> unat (bytes_for n)" and "unat (bytes_for n) < max (unat n) 64 + 64"
    and "64 dvd unat (bytes_for n)"
    by (simp_all add: bytes_for_def pool_kCacheLine_def)
qed

text \<open>The system grants the memory: the NUMA branch is not taken, or succeeds, and so does \<open>mmap\<close>.\<close>

definition grants :: "pool_env \<Rightarrow> PoolOptions \<Rightarrow> u64 \<Rightarrow> bool" where
  "grants env po sz \<longleftrightarrow>
     (if POOL_NUMA env \<and> opt_numa_local po \<and> 0 \<le> numa_available env then numa_alloc_local env sz \<noteq> 0
      else pool_mmap env sz (opt_huge_pages po) \<noteq> None)"

lemma map_backing_grants:
  fixes pl :: MemoryPool
  defines "sz \<equiv> block_size pl * num_blocks pl"
  assumes "pool_env_ok env" and "grants env (opts pl) sz"
  shows "\<exists>b nu. map_backing env pl = Inr (pl\<lparr>backing_size := sz, backing := b, numa_backing := nu\<rparr>) \<and>
    b \<noteq> 0 \<and> unat b + unat sz < 2 ^ 64"
proof (cases "POOL_NUMA env \<and> opt_numa_local (opts pl) \<and> 0 \<le> numa_available env")
  case True
  then have "map_backing env pl =
      Inr (pl\<lparr>backing_size := sz, backing := numa_alloc_local env sz, numa_backing := True\<rparr>)"
    using assms(3) by (simp add: map_backing_def grants_def Let_def sz_def)
  moreover have "numa_alloc_local env sz \<noteq> 0" using True assms(3) by (simp add: grants_def)
  moreover from this have "unat (numa_alloc_local env sz) + unat sz < 2 ^ 64"
    using assms(2) by (simp add: pool_env_ok_def)
  ultimately show ?thesis by blast
next
  case False
  then obtain b where b: "pool_mmap env sz (opt_huge_pages (opts pl)) = Some b"
    using assms(3) unfolding grants_def by (metis option.exhaust)
  then have "map_backing env pl =
      Inr (pl\<lparr>backing_size := sz, backing := b, numa_backing := numa_backing pl\<rparr>)"
    using False by (cases pl) (auto simp: map_backing_def Let_def sz_def)
  moreover have "b \<noteq> 0 \<and> unat b + unat sz < 2 ^ 64"
    using b assms(2) unfolding pool_env_ok_def by blast
  ultimately show ?thesis by blast
qed

lemma new_pool:
  assumes "pool_env_ok env" and "unat nblocks \<le> 2 ^ 63" and "unat bsize + 64 \<le> 2 ^ 64"
    and "unat (bytes_for bsize) * unat (blocks_for nblocks) < 2 ^ 64"
    and "grants env po (bytes_for bsize * blocks_for nblocks)"
  obtains pl where "new_MemoryPool env bsize nblocks po = Inr pl" and "pool_invar pl"
    and "fl_queue (freelist pl) = pool_blocks pl" and "block_size pl = bytes_for bsize"
    and "num_blocks pl = blocks_for nblocks"
    and "stats pl = \<lparr> allocs = 0, frees = 0, alloc_failures = 0 \<rparr>"
proof -
  let ?c = "blocks_for nblocks"
  let ?f = "\<lparr> fl_wp = 0, fl_rp = 0, fl_cap = ?c, fl_mask = ?c - 1, fl_slots = junk_slots env ?c \<rparr>"
  let ?pl = "\<lparr> block_size = bytes_for bsize, num_blocks = ?c, opts = po, freelist = ?f, backing = 0,
       backing_size = 0, numa_backing = False, stats = \<lparr> allocs = 0, frees = 0, alloc_failures = 0 \<rparr> \<rparr>"
  obtain k where k: "unat ?c = 2 ^ k" using blocks_for_least [OF assms(2)] by metis
  then have p2: "pow2 ?c" by (auto simp: pow2_iff)
  have fl: "new_SPSCFreeList (NDEBUG env) (junk_slots env ?c) ?c = Inr ?f"
    using p2 by (simp add: new_SPSCFreeList_def assert_that_def pow2_def)
  have finv: "fl_invar ?f" and fq: "fl_queue ?f = []"
    using p2 assms(1) by (simp_all add: fl_invar_def fl_cfg_def fl_queue_def size_approx_def pool_env_ok_def)
  obtain b nu where mb: "map_backing env ?pl
      = Inr (?pl\<lparr>backing_size := bytes_for bsize * ?c, backing := b, numa_backing := nu\<rparr>)"
    and b: "b \<noteq> 0" "unat b + unat (bytes_for bsize * ?c) < 2 ^ 64"
    using map_backing_grants [OF assms(1), of ?pl] assms(5) by (auto simp only: MemoryPool.simps)
  let ?pl2 = "?pl\<lparr>backing_size := bytes_for bsize * ?c, backing := b, numa_backing := nu\<rparr>"
  have "unat (bytes_for bsize * ?c) = unat (bytes_for bsize) * unat ?c"
    using assms(4) by (simp add: unat_word_ariths)
  then have cfg: "pool_cfg ?pl2"
    using b bytes_for_correct [OF assms(3)] by (simp add: pool_cfg_def unat_gt_0)
  obtain f where f: "populate_freelist (NDEBUG env) (unat (num_blocks ?pl2)) (of_nat 0) ?pl2
      = Inr (?pl2\<lparr>freelist := f\<rparr>)"
    and "fl_invar f" "fl_queue f = pool_blocks ?pl2" "fl_cap f = fl_cap (freelist ?pl2)"
    using populate_fills [OF cfg, of 0] finv fq by auto
  moreover have "new_MemoryPool env bsize nblocks po = Inr (?pl2\<lparr>freelist := f\<rparr>)"
    using f by (simp add: new_MemoryPool_def Let_def flip: blocks_for_def bytes_for_def add: fl mb)
  moreover have "pool_cfg (?pl2\<lparr>freelist := f\<rparr>)" using cfg calculation(4) by (simp add: pool_cfg_def)
  ultimately show ?thesis
    by (intro that [of "?pl2\<lparr>freelist := f\<rparr>"]) (simp_all add: pool_invar_def pool_free_blocks_def pool_blocks_def)
qed

lemma new_pool_grants:
  "new_MemoryPool env bsize nblocks po = Inr pl \<Longrightarrow> grants env po (bytes_for bsize * blocks_for nblocks)"
  by (auto simp: new_MemoryPool_def map_backing_def grants_def Let_def blocks_for_def bytes_for_def
      split: sum.splits if_splits option.splits)

lemma populate_fields:
  "populate_freelist ndebug n i pl = Inr pl' \<Longrightarrow>
    block_size pl' = block_size pl \<and> num_blocks pl' = num_blocks pl \<and> backing_size pl' = backing_size pl"
  by (induction ndebug n i pl rule: populate_freelist.induct)
    (auto simp: assert_that_def split: prod.splits if_splits)

lemma new_pool_fields:
  assumes "new_MemoryPool env bsize nblocks po = Inr pl"
  shows "block_size pl = bytes_for bsize" and "num_blocks pl = blocks_for nblocks"
    and "backing_size pl = bytes_for bsize * blocks_for nblocks"
  using assms
  by (auto simp: new_MemoryPool_def map_backing_def Let_def blocks_for_def bytes_for_def
      split: sum.splits if_splits option.splits dest!: populate_fields)

lemma new_pool_inv:
  assumes "new_MemoryPool env bsize nblocks po = Inr pl" and "pool_env_ok env"
    and "unat nblocks \<le> 2 ^ 63" and "unat bsize + 64 \<le> 2 ^ 64"
    and "unat (bytes_for bsize) * unat (blocks_for nblocks) < 2 ^ 64"
  shows "pool_invar pl" and "fl_queue (freelist pl) = pool_blocks pl" and "block_size pl = bytes_for bsize"
    and "num_blocks pl = blocks_for nblocks" and "outstanding (stats pl) = 0"
  using new_pool [OF assms(2-5) new_pool_grants [OF assms(1)]] assms(1) by (force simp: outstanding_def)+

text \<open>The mapping of a pool, and that no operation changes it.\<close>

definition obtained :: "pool_env \<Rightarrow> PoolOptions \<Rightarrow> u64 \<Rightarrow> pool_release" where
  "obtained env po sz =
     (if POOL_NUMA env \<and> opt_numa_local po \<and> 0 \<le> numa_available env then Numa_Free (numa_alloc_local env sz) sz
      else Munmap (the (pool_mmap env sz (opt_huge_pages po))) sz)"

lemma populate_backing:
  "populate_freelist ndebug n i pl = Inr pl' \<Longrightarrow> backing pl' = backing pl \<and> numa_backing pl' = numa_backing pl"
  by (induction ndebug n i pl rule: populate_freelist.induct)
    (auto simp: assert_that_def split: prod.splits if_splits)

lemma client_run_backing:
  "client_run pool_alloc (pool_free ndebug) ops held pl = Inr (held', pl') \<Longrightarrow>
    backing pl' = backing pl \<and> backing_size pl' = backing_size pl \<and> numa_backing pl' = numa_backing pl"
proof (induction "pool_alloc :: MemoryPool \<Rightarrow> _" "pool_free ndebug" ops held pl rule: client_run.induct)
  case (2 ops held s)
  then show ?case by (fastforce simp: pool_alloc_def split: prod.splits)
next
  case (3 i ops held s)
  then show ?case
    by (auto simp: pool_free_def assert_that_def split: prod.splits sum.splits if_splits)
qed simp

lemma map_backing_obtained:
  assumes "pool_env_ok env" and "map_backing env pl = Inr m" and "\<not> numa_backing pl"
  shows "destroy_MemoryPool (POOL_NUMA env) m = [obtained env (opts pl) (backing_size m)]"
proof -
  have nz: "b \<noteq> 0" if "pool_mmap env sz huge = Some b" for sz huge b using assms(1) that by (simp add: pool_env_ok_def)
  show ?thesis using assms(2,3)
    by (auto simp: map_backing_def Let_def obtained_def destroy_MemoryPool_def split: if_splits option.splits dest: nz)
qed

lemma new_pool_obtained:
  assumes "pool_env_ok env" and new: "new_MemoryPool env bsize nblocks po = Inr pl"
  shows "destroy_MemoryPool (POOL_NUMA env) pl = [obtained env po (backing_size pl)]"
proof -
  obtain pl0 m where m: "map_backing env pl0 = Inr m" "populate_freelist (NDEBUG env) (unat (num_blocks m)) 0 m = Inr pl"
    and pl0: "opts pl0 = po" "\<not> numa_backing pl0"
    using new by (auto simp: new_MemoryPool_def Let_def split: sum.splits)
  have "destroy_MemoryPool (POOL_NUMA env) pl = destroy_MemoryPool (POOL_NUMA env) m" "backing_size pl = backing_size m"
    using populate_backing [OF m(2)] populate_fields [OF m(2)] by (simp_all add: destroy_MemoryPool_def)
  then show ?thesis using map_backing_obtained [OF assms(1) m(1) pl0(2)] by (simp add: pl0(1))
qed

text \<open>A pool gives its region back once, whole, and by the counterpart of the call that it came from.\<close>

lemma pool_given_back:
  assumes "pool_env_ok env" and "new_MemoryPool env bsize nblocks po = Inr pl"
    and "client_run pool_alloc (pool_free ndebug) ops [] pl = Inr (held, pl')"
  shows "destroy_MemoryPool (POOL_NUMA env) pl' = [obtained env po (bytes_for bsize * blocks_for nblocks)]"
proof -
  have "destroy_MemoryPool (POOL_NUMA env) pl' = destroy_MemoryPool (POOL_NUMA env) pl"
    using client_run_backing [OF assms(3)] by (simp add: destroy_MemoryPool_def)
  then show ?thesis using new_pool_obtained [OF assms(1,2)] new_pool_fields(3) [OF assms(2)] by simp
qed

lemma run_stats:
  assumes "client_run pool_alloc (pool_free ndebug) ops held pl = Inr (held', pl')"
  shows "outstanding (stats pl') + of_nat (length held) = outstanding (stats pl) + of_nat (length held')"
  using assms
proof (induction ops arbitrary: held pl)
  case (Cons op ops)
  show ?case
  proof (cases op)
    case Alloc
    obtain p pl1 where a: "pool_alloc pl = (p, pl1)" by force
    have "outstanding (stats pl1) = outstanding (stats pl) + (if p = 0 then 0 else 1)"
      using a by (auto simp: pool_alloc_def outstanding_def split: prod.splits)
    then show ?thesis using Cons.IH [of "if p = 0 then held else p # held" pl1] Cons.prems Alloc a
      by (auto simp: algebra_simps split: if_splits)
  next
    case (Free i)
    show ?thesis
    proof (cases "i < length held")
      case True
      then obtain pl1 where f: "pool_free ndebug (held ! i) pl = Inr pl1"
        and r: "client_run pool_alloc (pool_free ndebug) ops (take i held @ drop (Suc i) held) pl1 = Inr (held', pl')"
        using Cons.prems Free by (auto split: sum.splits)
      have "outstanding (stats pl1) = outstanding (stats pl) - 1"
        using f by (auto simp: pool_free_def outstanding_def assert_that_def split: sum.splits prod.splits if_splits)
      moreover have "length held = Suc (length (take i held @ drop (Suc i) held))" using True by simp
      then have "(of_nat (length held) :: u64) = of_nat (length (take i held @ drop (Suc i) held)) + 1"
        by (simp only: of_nat_Suc add.commute)
      ultimately show ?thesis using Cons.IH [OF r] by (metis (no_types, lifting) add.assoc add.commute diff_add_cancel)
    next
      case False
      then show ?thesis using Cons.IH Cons.prems Free by simp
    qed
  qed
qed simp

lemma blocks_apart:
  assumes cfg: "pool_cfg pl" and "p \<in> set (pool_blocks pl)" and "q \<in> set (pool_blocks pl)" and "p \<noteq> q"
  shows "unat p + unat (block_size pl) \<le> unat q \<or> unat q + unat (block_size pl) \<le> unat p"
proof -
  obtain i where i: "unat p = unat (backing pl) + i * unat (block_size pl)"
    using pool_blocks_mem [OF cfg assms(2)] by metis
  obtain j where j: "unat q = unat (backing pl) + j * unat (block_size pl)"
    using pool_blocks_mem [OF cfg assms(3)] by metis
  from assms(4) i j have "Suc i \<le> j \<or> Suc j \<le> i" by (metis word_unat_eq_iff not_less_eq_eq le_antisym)
  then have "Suc i * unat (block_size pl) \<le> j * unat (block_size pl) \<or>
      Suc j * unat (block_size pl) \<le> i * unat (block_size pl)" using mult_le_mono1 by blast
  then show ?thesis by (auto simp: i j)
qed

lemma blocks_inside:
  assumes "pool_cfg pl" and "p \<in> set (pool_blocks pl)"
  shows "unat (backing pl) \<le> unat p \<and> unat p + unat (block_size pl) \<le> unat (backing pl) + unat (backing_size pl)"
  using pool_blocks_mem [OF assms] block_addr(2) [OF assms(1)] by (metis le_add1)

section \<open>Properties\<close>

definition sample_pool_env :: pool_env where
  "sample_pool_env = \<lparr> POOL_NUMA = False, NDEBUG = False, numa_available = -1,
     numa_alloc_local = (\<lambda>_. 0), pool_mmap = (\<lambda>sz huge. if sz < 0x100000 then Some 0x7f0000000000 else None),
     pool_errno = 12, junk_slots = (\<lambda>n. replicate (unat n) 0xdead) \<rparr>"

definition sample_po :: PoolOptions where
  "sample_po = \<lparr> opt_huge_pages = False, opt_lock_memory = False, opt_numa_local = False \<rparr>"

definition sample_pool :: MemoryPool where
  "sample_pool = projr (new_MemoryPool sample_pool_env 100 3 sample_po)"

lemma sample_pool_env_ok: "pool_env_ok sample_pool_env"
  by (auto simp: pool_env_ok_def sample_pool_env_def word_less_nat_alt split: if_splits)

lemma sample_pool_new: "new_MemoryPool sample_pool_env 100 3 sample_po = Inr sample_pool"
proof -
  have "isl (new_MemoryPool sample_pool_env 100 3 sample_po) = False" by code_simp
  then show ?thesis by (simp add: sample_pool_def)
qed

lemma sample_pool_size: "unat (bytes_for 100) * unat (blocks_for 3) < 2 ^ 64"
  by (simp add: bytes_for_def blocks_for_def align_up_def next_pow2_def pool_kCacheLine_def Let_def max_def)

text \<open>
  No block is handed out twice: a client of a new pool that frees only blocks it holds, in
  any order, never trips an assertion; the blocks it holds are distinct, do not overlap and lie
  inside the mapped region; held and free blocks together are always exactly the blocks of the
  pool, and \<open>outstanding\<close> counts the held ones.
\<close>

theorem pool_client_safe:
  assumes "new_MemoryPool env bsize nblocks po = Inr pl" and "pool_env_ok env"
    and "unat nblocks \<le> 2 ^ 63" and "unat bsize + 64 \<le> 2 ^ 64"
    and "unat (bytes_for bsize) * unat (blocks_for nblocks) < 2 ^ 64"
  shows "\<exists>held pl'. client_run pool_alloc (pool_free ndebug) ops [] pl = Inr (held, pl') \<and>
    distinct held \<and> set held \<subseteq> set (pool_blocks pl) \<and>
    mset held + mset (fl_queue (freelist pl')) = mset (pool_blocks pl) \<and>
    unat (available pl') + length held = unat (num_blocks pl) \<and>
    outstanding (stats pl') = of_nat (length held) \<and>
    (\<forall>p\<in>set held. unat (backing pl) \<le> unat p \<and>
       unat p + unat (block_size pl) \<le> unat (backing pl) + unat (backing_size pl)) \<and>
    (\<forall>p\<in>set held. \<forall>q\<in>set held. p \<noteq> q \<longrightarrow>
       unat p + unat (block_size pl) \<le> unat q \<or> unat q + unat (block_size pl) \<le> unat p)"
proof -
  note n = new_pool_inv [OF assms]
  have "mset [] + pool_free_blocks pl = mset (pool_blocks pl)" by (simp add: pool_free_blocks_def n(2))
  then obtain held pl' where r: "client_run pool_alloc (pool_free ndebug) ops [] pl = Inr (held, pl')"
    and inv: "pool_invar pl'" and c: "mset held + pool_free_blocks pl' = mset (pool_blocks pl')"
    and b: "pool_blocks pl' = pool_blocks pl"
    using pool.run_conserves [OF n(1), of "[]"] by blast
  have sub: "set held \<subseteq> set (pool_blocks pl)" using pool.held_distinct(2) [OF inv c] b by simp
  have "length held + unat (available pl') = unat (num_blocks pl)"
    using arg_cong [OF c, of size] by (simp add: b pool_free_blocks_def available_def)
  with r sub pool.held_distinct(1) [OF inv c] c b run_stats [OF r] n(5)
    blocks_inside [OF pool_invar_cfg [OF n(1)]] blocks_apart [OF pool_invar_cfg [OF n(1)]]
  show ?thesis
    by (intro exI [of _ held] exI [of _ pl'] conjI ballI impI) (simp_all add: pool_free_blocks_def subset_iff)
qed

theorem pool_client_safe_witness:
  "\<exists>held pl'. client_run pool_alloc (pool_free False) [Alloc, Alloc, Free 1, Alloc, Alloc, Alloc, Alloc] [] sample_pool
     = Inr (held, pl') \<and> distinct held \<and> length held = 4 \<and> available pl' = 0"
proof -
  let ?ops = "[Alloc, Alloc, Free 1, Alloc, Alloc, Alloc, Alloc]"
  from pool_client_safe [OF sample_pool_new sample_pool_env_ok _ _ sample_pool_size, of False ?ops]
  obtain held pl' where r: "client_run pool_alloc (pool_free False) ?ops [] sample_pool = Inr (held, pl')"
    and d: "distinct held" by auto
  have "case client_run pool_alloc (pool_free False) ?ops [] sample_pool of
      Inr (held, pl') \<Rightarrow> length held = 4 \<and> available pl' = 0 | Inl _ \<Rightarrow> False" by code_simp
  with r d show ?thesis by simp
qed

text \<open>
  \<open>alloc\<close> on every branch: it returns \<open>nullptr\<close> exactly when no block is free and then
  counts a failure; otherwise it takes the block freed first out of the free list and counts
  an allocation.
\<close>

theorem pool_alloc_correct:
  assumes "pool_invar pl" and "pool_alloc pl = (p, pl')"
  shows "pool_invar pl' \<and>
    (case fl_queue (freelist pl) of
       [] \<Rightarrow> p = 0 \<and> fl_queue (freelist pl') = [] \<and>
         alloc_failures (stats pl') = alloc_failures (stats pl) + 1 \<and> allocs (stats pl') = allocs (stats pl)
     | b # bs \<Rightarrow> p = b \<and> p \<noteq> 0 \<and> fl_queue (freelist pl') = bs \<and>
         alloc_failures (stats pl') = alloc_failures (stats pl) \<and> allocs (stats pl') = allocs (stats pl) + 1)"
proof -
  obtain f where pop: "fl_pop (freelist pl) = (p, f)"
    using assms(2) by (auto simp: pool_alloc_def split: prod.splits)
  have inv: "fl_invar (freelist pl)" using assms(1) by (simp add: pool_invar_def)
  have pl': "freelist pl' = f" "stats pl' = (if p \<noteq> 0 then (stats pl)\<lparr>allocs := allocs (stats pl) + 1\<rparr>
      else (stats pl)\<lparr>alloc_failures := alloc_failures (stats pl) + 1\<rparr>)"
    using assms(2) pop by (auto simp: pool_alloc_def)
  have "0 \<notin> set (fl_queue (freelist pl))" using inv by (simp add: fl_invar_def)
  then show ?thesis
    using fl_pop_step(1,2) [OF inv fl_pop_deq [OF pop]] pool_alloc_step(4) [OF assms]
    by (auto simp: pl' split: list.splits if_splits)
qed

theorem pool_alloc_correct_witness:
  "fst (pool_alloc sample_pool) = 0x7f0000000000 \<and> pool_invar (snd (pool_alloc sample_pool))"
proof -
  have inv: "pool_invar sample_pool"
    using new_pool_inv(1) [OF sample_pool_new sample_pool_env_ok _ _ sample_pool_size] by simp
  have q: "hd (fl_queue (freelist sample_pool)) = 0x7f0000000000" "fl_queue (freelist sample_pool) \<noteq> []"
    by code_simp+
  from pool_alloc_correct [OF inv surjective_pairing] q show ?thesis by (auto split: list.splits)
qed

text \<open>
  \<open>free\<close> in a build with assertions: it refuses \<open>nullptr\<close>, a pointer outside the region
  and a block too many, each with its own message, and otherwise appends the block to the
  free list. Without assertions every call goes through, and a block too many is dropped
  although it is counted.
\<close>

theorem pool_free_branches:
  "pool_free False p pl =
     (if p = 0 then Inl (Assertion ''free(nullptr)'')
      else if \<not> owns pl p then Inl (Assertion ''pointer not owned by this pool'')
      else if fl_cap (freelist pl) \<le> size_approx (freelist pl) then Inl (Assertion ''freelist overflow'')
      else Inr (pl\<lparr>freelist := snd (fl_push p (freelist pl)),
                   stats := (stats pl)\<lparr>frees := frees (stats pl) + 1\<rparr>\<rparr>)) \<and>
   pool_free True p pl =
     Inr (pl\<lparr>freelist := if fl_cap (freelist pl) \<le> size_approx (freelist pl) then freelist pl
               else snd (fl_push p (freelist pl)),
             stats := (stats pl)\<lparr>frees := frees (stats pl) + 1\<rparr>\<rparr>)"
  by (simp add: pool_free_def assert_that_def fl_push_def size_approx_def Let_def)

text \<open>
  The size of a new pool: the number of blocks is the least power of two that is at least
  the requested number (and two), and a block is the requested size rounded up to whole cache
  lines. The mapping has the size of all the blocks, computed modulo \<open>2 ^ 64\<close>.
\<close>

theorem new_pool_size:
  assumes "new_MemoryPool env bsize nblocks po = Inr pl"
    and "unat nblocks \<le> 2 ^ 63" and "unat bsize + 64 \<le> 2 ^ 64"
  shows "(\<exists>k. unat (num_blocks pl) = 2 ^ k \<and> max (unat nblocks) 2 \<le> 2 ^ k \<and>
      (\<forall>j. max (unat nblocks) 2 \<le> 2 ^ j \<longrightarrow> k \<le> j)) \<and>
    64 dvd unat (block_size pl) \<and> max (unat bsize) 64 \<le> unat (block_size pl) \<and>
    unat (block_size pl) < max (unat bsize) 64 + 64 \<and>
    unat (backing_size pl) = unat (block_size pl) * unat (num_blocks pl) mod 2 ^ 64"
proof -
  note f = new_pool_fields [OF assms(1)]
  obtain k where "unat (blocks_for nblocks) = 2 ^ k" "max (unat nblocks) 2 \<le> 2 ^ k"
    "\<And>j. max (unat nblocks) 2 \<le> 2 ^ j \<Longrightarrow> k \<le> j"
    using blocks_for_least [OF assms(2)] by metis
  moreover have "unat (backing_size pl) = unat (block_size pl) * unat (num_blocks pl) mod 2 ^ 64"
    by (simp add: f unat_word_ariths)
  ultimately show ?thesis using bytes_for_correct [OF assms(3)] by (auto simp only: f)
qed

theorem new_pool_size_witness:
  "unat (num_blocks sample_pool) = 4 \<and> unat (block_size sample_pool) = 128"
proof -
  have "unat (num_blocks sample_pool) = 4" "unat (block_size sample_pool) = 128" by code_simp+
  with new_pool_size [OF sample_pool_new] show ?thesis by simp
qed

text \<open>
  The size of the mapping wraps: asked for \<open>2 ^ 32\<close> blocks of \<open>2 ^ 32 + 64\<close> bytes, a pool maps
  only \<open>2 ^ 38\<close> bytes, and block number 64 already lies outside the mapping.
\<close>

theorem pool_size_wraps:
  assumes "new_MemoryPool env (2 ^ 32 + 64) (2 ^ 32) po = Inr pl" and "unat (backing pl) + 2 ^ 39 < 2 ^ 64"
  shows "backing_size pl = 2 ^ 38 \<and> unat (num_blocks pl) = 2 ^ 32 \<and> \<not> owns pl (pool_blocks pl ! 64)"
proof -
  note f = new_pool_fields [OF assms(1)]
  have "bytes_for (2 ^ 32 + 64) = 2 ^ 32 + 64"
    by (simp add: bytes_for_def align_up_def pool_kCacheLine_def max_def)
  moreover have "blocks_for (2 ^ 32) = 2 ^ 32"
    by (simp add: blocks_for_def next_pow2_def Let_def max_def word_le_nat_alt)
  ultimately have v: "block_size pl = 2 ^ 32 + 64" "num_blocks pl = 2 ^ 32" "backing_size pl = 2 ^ 38"
    using f by simp_all
  then have "pool_blocks pl ! 64 = backing pl + 274877911040" by (simp add: pool_blocks_def)
  moreover have "unat (backing pl + 274877911040) = unat (backing pl) + 274877911040"
    "unat (backing pl + 2 ^ 38) = unat (backing pl) + 2 ^ 38"
    using assms(2) by (subst unat_add_lem [THEN iffD1], simp_all)+
  ultimately show ?thesis using v by (simp add: owns_def word_less_nat_alt)
qed

lemma populate_ndebug: "\<exists>f. populate_freelist True n i pl = Inr (pl\<lparr>freelist := f\<rparr>)"
proof (induction n arbitrary: i pl)
  case 0
  show ?case by (intro exI [of _ "freelist pl"]) simp
next
  case (Suc n)
  obtain ok f where "fl_push (backing pl + i * block_size pl) (freelist pl) = (ok, f)" by force
  with Suc.IH [of "i + 1" "pl\<lparr>freelist := f\<rparr>"] show ?case by (auto simp: assert_that_def)
qed

theorem pool_size_wraps_witness:
  "\<exists>pl. new_MemoryPool (sample_pool_env\<lparr>NDEBUG := True, pool_mmap := \<lambda>_ _. Some 0x7f0000000000\<rparr>)
       (2 ^ 32 + 64) (2 ^ 32) sample_po = Inr pl \<and> \<not> owns pl (pool_blocks pl ! 64)"
proof -
  let ?env = "sample_pool_env\<lparr>NDEBUG := True, pool_mmap := \<lambda>_ _. Some 0x7f0000000000\<rparr>"
  have "\<exists>pl. new_MemoryPool ?env (2 ^ 32 + 64) (2 ^ 32) sample_po = Inr pl \<and> backing pl = 0x7f0000000000"
    using populate_ndebug
    by (fastforce simp: new_MemoryPool_def new_SPSCFreeList_def assert_that_def map_backing_def Let_def
        sample_pool_env_def sample_po_def)
  then obtain pl where n: "new_MemoryPool ?env (2 ^ 32 + 64) (2 ^ 32) sample_po = Inr pl"
    and "backing pl = 0x7f0000000000" by blast
  with pool_size_wraps [OF n] show ?thesis by auto
qed

end
