(* ===== verification/Pool_Cache.thy ===== *)
theory Pool_Cache
  imports Memory_Pool
begin

text \<open>
  The layers above \<open>MemoryPool\<close>: \<open>ThreadLocalCache\<close>, a stack of blocks in front of a pool, which
  keeps the allocator contract, and \<open>SlabPool\<close>, one pool per size class.
\<close>

section \<open>ThreadLocalCache\<close>

text \<open>The template parameters are fields; the pool the object refers to is passed beside it.\<close>

record ThreadLocalCache =
  LocalCapacity :: nat
  BatchSize :: nat
  stack :: "u64 list"
  top_cnt :: nat

type_synonym cached_pool = "ThreadLocalCache \<times> MemoryPool"

definition new_ThreadLocalCache :: "nat \<Rightarrow> nat \<Rightarrow> ThreadLocalCache" where
  "new_ThreadLocalCache cap batch =
     \<lparr> LocalCapacity = cap, BatchSize = batch, stack = replicate cap 0, top_cnt = 0 \<rparr>"

text \<open>\<open>stack_[top_++] = p\<close> and \<open>stack_[--top_]\<close>.\<close>

definition stack_put :: "u64 \<Rightarrow> ThreadLocalCache \<Rightarrow> ThreadLocalCache" where
  "stack_put p c = c\<lparr>stack := (stack c)[top_cnt c := p], top_cnt := Suc (top_cnt c)\<rparr>"

definition stack_take :: "ThreadLocalCache \<Rightarrow> u64 \<times> ThreadLocalCache" where
  "stack_take c = (stack c ! (top_cnt c - 1), c\<lparr>top_cnt := top_cnt c - 1\<rparr>)"

fun tlc_refill :: "nat \<Rightarrow> cached_pool \<Rightarrow> cached_pool" where
  "tlc_refill 0 (c, pl) = (c, pl)"
| "tlc_refill (Suc n) (c, pl) =
     (case pool_alloc pl of (p, pl') \<Rightarrow>
        if p = 0 then (c, pl') else tlc_refill n (stack_put p c, pl'))"

definition tlc_alloc :: "cached_pool \<Rightarrow> u64 \<times> cached_pool" where
  "tlc_alloc s = (case s of (c, pl) \<Rightarrow>
     if 0 < top_cnt c then (case stack_take c of (p, c') \<Rightarrow> (p, c', pl))
     else case tlc_refill (BatchSize c) (c, pl) of (c', pl') \<Rightarrow>
       if 0 < top_cnt c' then (case stack_take c' of (p, c'') \<Rightarrow> (p, c'', pl')) else (0, c', pl'))"

fun tlc_release :: "bool \<Rightarrow> nat \<Rightarrow> cached_pool \<Rightarrow> pool_error + cached_pool" where
  "tlc_release ndebug 0 s = Inr s"
| "tlc_release ndebug (Suc n) (c, pl) =
     (case stack_take c of (p, c') \<Rightarrow>
        case pool_free ndebug p pl of Inl e \<Rightarrow> Inl e | Inr pl' \<Rightarrow> tlc_release ndebug n (c', pl'))"

definition tlc_free :: "bool \<Rightarrow> u64 \<Rightarrow> cached_pool \<Rightarrow> pool_error + cached_pool" where
  "tlc_free ndebug p s = (case s of (c, pl) \<Rightarrow>
     if top_cnt c < LocalCapacity c then Inr (stack_put p c, pl)
     else case tlc_release ndebug (BatchSize c) (c, pl) of
            Inl e \<Rightarrow> Inl e
          | Inr (c', pl') \<Rightarrow> Inr (stack_put p c', pl'))"

definition flush_all :: "bool \<Rightarrow> cached_pool \<Rightarrow> pool_error + cached_pool" where
  "flush_all ndebug s = tlc_release ndebug (top_cnt (fst s)) s"

subsection \<open>The contract\<close>

definition cached :: "ThreadLocalCache \<Rightarrow> u64 multiset" where
  "cached c = mset (take (top_cnt c) (stack c))"

definition tlc_cfg :: "ThreadLocalCache \<Rightarrow> bool" where
  "tlc_cfg c \<longleftrightarrow> 2 \<le> LocalCapacity c \<and> 1 \<le> BatchSize c \<and> BatchSize c \<le> LocalCapacity c div 2 \<and>
     length (stack c) = LocalCapacity c \<and> top_cnt c \<le> LocalCapacity c"

definition tlc_blocks :: "cached_pool \<Rightarrow> u64 list" where "tlc_blocks s = pool_blocks (snd s)"

definition tlc_free_blocks :: "cached_pool \<Rightarrow> u64 multiset" where
  "tlc_free_blocks s = cached (fst s) + pool_free_blocks (snd s)"

definition tlc_invar :: "cached_pool \<Rightarrow> bool" where
  "tlc_invar s \<longleftrightarrow> tlc_cfg (fst s) \<and> pool_invar (snd s) \<and> tlc_free_blocks s \<subseteq># mset (tlc_blocks s)"

lemma tlc_invar_sub: "tlc_invar s \<Longrightarrow> tlc_free_blocks s \<subseteq># mset (tlc_blocks s)"
  and tlc_invar_cfg: "tlc_invar s \<Longrightarrow> pool_cfg (snd s)"
  by (simp_all add: tlc_invar_def pool_invar_cfg)

lemma tlc_invar_blocks:
  "tlc_invar s \<Longrightarrow> distinct (tlc_blocks s)" "tlc_invar s \<Longrightarrow> 0 \<notin> set (tlc_blocks s)"
  by (simp_all add: tlc_blocks_def tlc_invar_cfg pool_blocks_distinct pool_blocks_nonnull)

lemma stack_put:
  assumes "top_cnt c < length (stack c)"
  shows "cached (stack_put p c) = add_mset p (cached c)" and "top_cnt (stack_put p c) = Suc (top_cnt c)"
    and "LocalCapacity (stack_put p c) = LocalCapacity c" and "BatchSize (stack_put p c) = BatchSize c"
    and "length (stack (stack_put p c)) = length (stack c)"
  using assms by (simp_all add: stack_put_def cached_def take_Suc_conv_app_nth)

lemma stack_take:
  assumes "stack_take c = (p, c')" and "0 < top_cnt c" and "top_cnt c \<le> length (stack c)"
  shows "cached c = add_mset p (cached c')" and "Suc (top_cnt c') = top_cnt c"
    and "LocalCapacity c' = LocalCapacity c" and "BatchSize c' = BatchSize c"
    and "stack c' = stack c"
proof -
  obtain n where n: "top_cnt c = Suc n" using assms(2) by (cases "top_cnt c") auto
  with assms show "cached c = add_mset p (cached c')" "Suc (top_cnt c') = top_cnt c"
    "LocalCapacity c' = LocalCapacity c" "BatchSize c' = BatchSize c" "stack c' = stack c"
    by (auto simp: stack_take_def cached_def take_Suc_conv_app_nth)
qed

lemma tlc_put_step:
  assumes "pool_alloc pl = (p, pl')" and "tlc_invar (c, pl)" and "p \<noteq> 0" and "top_cnt c < LocalCapacity c"
  shows "tlc_invar (stack_put p c, pl')" and "tlc_free_blocks (stack_put p c, pl') = tlc_free_blocks (c, pl)"
    and "tlc_blocks (stack_put p c, pl') = tlc_blocks (c, pl)"
proof -
  have pinv: "pool_invar pl" and len: "length (stack c) = LocalCapacity c" and cfg: "tlc_cfg c"
    using assms(2) by (simp_all add: tlc_invar_def tlc_cfg_def)
  note a = pool_alloc_step [OF pinv assms(1)]
  note c = stack_put [of c p, unfolded len, OF assms(4)]
  show f: "tlc_free_blocks (stack_put p c, pl') = tlc_free_blocks (c, pl)"
    using a(2) [OF assms(3)] c(1) by (simp add: tlc_free_blocks_def)
  show b: "tlc_blocks (stack_put p c, pl') = tlc_blocks (c, pl)" by (simp add: tlc_blocks_def a(5))
  have "tlc_cfg (stack_put p c)" using cfg assms(4) len c by (simp add: tlc_cfg_def)
  with assms(2) f b a(4) show "tlc_invar (stack_put p c, pl')" by (simp add: tlc_invar_def)
qed

lemma tlc_refill_step:
  assumes "tlc_invar (c, pl)" and "top_cnt c + n \<le> LocalCapacity c" and "tlc_refill n (c, pl) = (c', pl')"
  shows "tlc_invar (c', pl') \<and> tlc_free_blocks (c', pl') = tlc_free_blocks (c, pl) \<and>
    tlc_blocks (c', pl') = tlc_blocks (c, pl) \<and>
    (0 < n \<and> top_cnt c = 0 \<and> top_cnt c' = 0 \<longrightarrow> tlc_free_blocks (c, pl) = {#}) \<and> top_cnt c \<le> top_cnt c'"
  using assms
proof (induction n arbitrary: c pl)
  case (Suc n)
  obtain p pl1 where a: "pool_alloc pl = (p, pl1)" by force
  have pinv: "pool_invar pl" using Suc.prems(1) by (simp add: tlc_invar_def)
  note al = pool_alloc_step [OF pinv a]
  show ?case
  proof (cases "p = 0")
    case True
    then have "c' = c" "pl' = pl1" using Suc.prems(3) a by simp_all
    with True al Suc.prems(1) show ?thesis
      by (auto simp: tlc_invar_def tlc_free_blocks_def tlc_blocks_def cached_def)
  next
    case False
    have lt: "top_cnt c < LocalCapacity c" using Suc.prems(2) by simp
    note put = tlc_put_step [OF a Suc.prems(1) False lt]
    have len: "top_cnt c < length (stack c)" using lt Suc.prems(1) by (simp add: tlc_invar_def tlc_cfg_def)
    note sp = stack_put [OF len, of p]
    have "tlc_refill n (stack_put p c, pl1) = (c', pl')" using Suc.prems(3) a False by simp
    from Suc.IH [OF put(1) _ this] Suc.prems(2) show ?thesis using put(2,3) sp by auto
  qed
qed simp

lemma tlc_take_step:
  assumes "tlc_invar (c, pl)" and "0 < top_cnt c" and "stack_take c = (p, c')"
  shows "p \<noteq> 0" and "add_mset p (tlc_free_blocks (c', pl)) = tlc_free_blocks (c, pl)" and "tlc_invar (c', pl)"
    and "tlc_blocks (c', pl) = tlc_blocks (c, pl)"
proof -
  have cfg: "tlc_cfg c" and pinv: "pool_invar pl" and sub: "tlc_free_blocks (c, pl) \<subseteq># mset (tlc_blocks (c, pl))"
    using assms(1) by (simp_all add: tlc_invar_def)
  then have len: "top_cnt c \<le> length (stack c)" by (simp add: tlc_cfg_def)
  note t = stack_take [OF assms(3,2) len]
  show f: "add_mset p (tlc_free_blocks (c', pl)) = tlc_free_blocks (c, pl)"
    by (simp add: tlc_free_blocks_def t(1))
  then have "p \<in># mset (tlc_blocks (c, pl))" using sub by (metis mset_subset_eqD union_single_eq_member)
  then show "p \<noteq> 0" using pool_blocks_nonnull [OF pool_invar_cfg [OF pinv]] by (auto simp: tlc_blocks_def)
  show b: "tlc_blocks (c', pl) = tlc_blocks (c, pl)" by (simp add: tlc_blocks_def)
  have "tlc_free_blocks (c', pl) \<subseteq># mset (tlc_blocks (c', pl))"
    using sub unfolding b f [symmetric] by (metis mset_subset_eq_insertD subset_mset.less_imp_le)
  then show "tlc_invar (c', pl)" using cfg pinv t by (auto simp: tlc_invar_def tlc_cfg_def)
qed

lemma tlc_alloc_step:
  assumes "tlc_invar s" and "tlc_alloc s = (p, s')"
  shows "(p = 0 \<longleftrightarrow> tlc_free_blocks s = {#}) \<and>
    (p \<noteq> 0 \<longrightarrow> add_mset p (tlc_free_blocks s') = tlc_free_blocks s) \<and>
    (p = 0 \<longrightarrow> tlc_free_blocks s' = {#}) \<and> tlc_invar s' \<and> tlc_blocks s' = tlc_blocks s"
proof -
  obtain c pl where s: "s = (c, pl)" by force
  show ?thesis
  proof (cases "0 < top_cnt c")
    case True
    obtain c' where t: "stack_take c = (p, c')" "s' = (c', pl)"
      using assms(2) True s by (auto simp: tlc_alloc_def split: prod.splits)
    from tlc_take_step [OF assms(1) [unfolded s] True t(1)] show ?thesis by (auto simp: s t)
  next
    case False
    obtain c1 pl1 where r: "tlc_refill (BatchSize c) (c, pl) = (c1, pl1)" by force
    have cfg: "tlc_cfg c" using assms(1) s by (simp add: tlc_invar_def)
    then have "BatchSize c \<le> LocalCapacity c" "0 < BatchSize c" by (auto simp: tlc_cfg_def)
    note rf = tlc_refill_step [OF assms(1) [unfolded s] _ r]
    have R: "tlc_invar (c1, pl1)" "tlc_free_blocks (c1, pl1) = tlc_free_blocks (c, pl)"
      "tlc_blocks (c1, pl1) = tlc_blocks (c, pl)" "top_cnt c1 = 0 \<Longrightarrow> tlc_free_blocks (c, pl) = {#}"
      using rf False \<open>BatchSize c \<le> LocalCapacity c\<close> \<open>0 < BatchSize c\<close> by auto
    show ?thesis
    proof (cases "0 < top_cnt c1")
      case True
      obtain c' where t: "stack_take c1 = (p, c')" "s' = (c', pl1)"
        using assms(2) False True s r by (auto simp: tlc_alloc_def split: prod.splits)
      from tlc_take_step [OF R(1) True t(1)] R show ?thesis by (auto simp: s t)
    next
      case empty: False
      then have "p = 0" "s' = (c1, pl1)" using assms(2) False s r by (auto simp: tlc_alloc_def)
      with R empty show ?thesis by (simp add: s)
    qed
  qed
qed

lemma tlc_release_step:
  assumes "tlc_invar (c, pl)" and "n \<le> top_cnt c"
  shows "\<exists>c' pl'. tlc_release ndebug n (c, pl) = Inr (c', pl') \<and> tlc_invar (c', pl') \<and>
    tlc_free_blocks (c', pl') = tlc_free_blocks (c, pl) \<and> tlc_blocks (c', pl') = tlc_blocks (c, pl) \<and>
    top_cnt c' + n = top_cnt c \<and> LocalCapacity c' = LocalCapacity c"
  using assms
proof (induction n arbitrary: c pl)
  case (Suc n)
  obtain p c1 where t: "stack_take c = (p, c1)" by force
  have pos: "0 < top_cnt c" using Suc.prems(2) by simp
  have len: "top_cnt c \<le> length (stack c)" using Suc.prems(1) by (simp add: tlc_invar_def tlc_cfg_def)
  note st = stack_take [OF t pos len]
  note tk = tlc_take_step [OF Suc.prems(1) pos t]
  have pinv: "pool_invar pl" using Suc.prems(1) by (simp add: tlc_invar_def)
  have "cached c1 + add_mset p (pool_free_blocks pl) \<subseteq># mset (pool_blocks pl)"
    using Suc.prems(1) st(1) by (simp add: tlc_invar_def tlc_free_blocks_def tlc_blocks_def)
  then have "add_mset p (pool_free_blocks pl) \<subseteq># mset (pool_blocks pl)"
    by (rule subset_mset.order_trans [OF mset_subset_eq_add_right])
  then have p: "p \<in># mset (pool_blocks pl) - pool_free_blocks pl"
    by (simp only: in_rest_iff [OF pool_invar_sub [OF pinv]])
  obtain pl1 where f: "pool_free ndebug p pl = Inr pl1"
    and f1: "pool_free_blocks pl1 = add_mset p (pool_free_blocks pl)" "pool_invar pl1" "pool_blocks pl1 = pool_blocks pl"
    using pool.release_held [OF pinv p] by blast
  have same: "tlc_free_blocks (c1, pl1) = tlc_free_blocks (c, pl)" "tlc_blocks (c1, pl1) = tlc_blocks (c, pl)"
    using st(1) f1 by (simp_all add: tlc_free_blocks_def tlc_blocks_def)
  then have "tlc_invar (c1, pl1)" using Suc.prems(1) tk(3) f1(2) by (simp add: tlc_invar_def)
  from Suc.IH [OF this] st(2,3) Suc.prems(2) same f t show ?case by auto
qed auto

lemma tlc_free_step:
  assumes inv: "tlc_invar s" and p: "p \<in># mset (tlc_blocks s) - tlc_free_blocks s"
  shows "\<exists>s'. tlc_free ndebug p s = Inr s' \<and> tlc_free_blocks s' = add_mset p (tlc_free_blocks s) \<and>
    tlc_invar s' \<and> tlc_blocks s' = tlc_blocks s"
proof -
  obtain c pl where s: "s = (c, pl)" by force
  have sub: "add_mset p (tlc_free_blocks s) \<subseteq># mset (tlc_blocks s)"
    using p by (simp only: in_rest_iff [OF tlc_invar_sub [OF inv]])
  have put: "tlc_free_blocks (stack_put p c', pl') = add_mset p (tlc_free_blocks s) \<and>
      tlc_invar (stack_put p c', pl') \<and> tlc_blocks (stack_put p c', pl') = tlc_blocks s"
    if "tlc_invar (c', pl')" "tlc_free_blocks (c', pl') = tlc_free_blocks s" "tlc_blocks (c', pl') = tlc_blocks s"
      "top_cnt c' < LocalCapacity c'" for c' pl'
  proof -
    have len: "top_cnt c' < length (stack c')" using that(1,4) by (simp add: tlc_invar_def tlc_cfg_def)
    note sp = stack_put [OF len, of p]
    have "tlc_free_blocks (stack_put p c', pl') = add_mset p (tlc_free_blocks s)"
      using that(2) sp(1) by (simp add: tlc_free_blocks_def)
    moreover have "tlc_blocks (stack_put p c', pl') = tlc_blocks s" using that(3) by (simp add: tlc_blocks_def)
    moreover have "tlc_cfg (stack_put p c')" using that(1,4) sp by (simp add: tlc_invar_def tlc_cfg_def)
    ultimately show ?thesis using that(1) sub by (simp add: tlc_invar_def)
  qed
  show ?thesis
  proof (cases "top_cnt c < LocalCapacity c")
    case True
    then show ?thesis using put [of c pl] inv by (simp add: s tlc_free_def)
  next
    case False
    then have b: "BatchSize c \<le> top_cnt c" "0 < BatchSize c" "top_cnt c = LocalCapacity c"
      using inv by (auto simp: s tlc_invar_def tlc_cfg_def)
    obtain c1 pl1 where r: "tlc_release ndebug (BatchSize c) (c, pl) = Inr (c1, pl1)" "tlc_invar (c1, pl1)"
      "tlc_free_blocks (c1, pl1) = tlc_free_blocks s" "tlc_blocks (c1, pl1) = tlc_blocks s"
      "top_cnt c1 + BatchSize c = top_cnt c" "LocalCapacity c1 = LocalCapacity c"
      using tlc_release_step [OF inv [unfolded s] b(1), of ndebug] unfolding s by blast
    have "top_cnt c1 < LocalCapacity c1" using r(5,6) b by linarith
    with put [OF r(2-4)] r(1) False show ?thesis by (simp add: s tlc_free_def)
  qed
qed

interpretation tlc: allocator tlc_alloc "tlc_free ndebug" tlc_blocks tlc_free_blocks tlc_invar
  for ndebug
proof (unfold_locales, goal_cases)
  case (9 s p)
  then show ?case by (rule tlc_free_step)
qed (simp_all add: tlc_alloc_step [OF _ surjective_pairing] tlc_invar_sub tlc_invar_blocks)

section \<open>SlabPool\<close>

definition kNumSizeClasses :: nat where "kNumSizeClasses = 8"

definition kSizeClassBytes :: "u64 list" where
  "kSizeClassBytes = [64, 128, 256, 512, 1024, 2048, 4096, 8192]"

definition size_to_class :: "u64 \<Rightarrow> int" where
  "size_to_class n =
     (if n \<le> 64 then 0 else if n \<le> 128 then 1 else if n \<le> 256 then 2 else if n \<le> 512 then 3
      else if n \<le> 1024 then 4 else if n \<le> 2048 then 5 else if n \<le> 4096 then 6
      else if n \<le> 8192 then 7 else - 1)"

type_synonym SlabPool = "MemoryPool list"

text \<open>The constructor's loop; an exception of a pool constructor ends it.\<close>

fun new_pools :: "pool_env \<Rightarrow> u64 list \<Rightarrow> u64 \<Rightarrow> PoolOptions \<Rightarrow> pool_error + SlabPool" where
  "new_pools env [] n po = Inr []"
| "new_pools env (b # bs) n po =
     (case new_MemoryPool env b n po of
        Inl e \<Rightarrow> Inl e
      | Inr pl \<Rightarrow> (case new_pools env bs n po of Inl e \<Rightarrow> Inl e | Inr pls \<Rightarrow> Inr (pl # pls)))"

definition new_SlabPool :: "pool_env \<Rightarrow> u64 \<Rightarrow> PoolOptions \<Rightarrow> pool_error + SlabPool" where
  "new_SlabPool env blocks_per_class po = new_pools env kSizeClassBytes blocks_per_class po"

definition slab_alloc :: "u64 \<Rightarrow> SlabPool \<Rightarrow> u64 \<times> SlabPool" where
  "slab_alloc sz sl =
     (let cls = size_to_class sz in
      if cls < 0 then (0, sl)
      else case pool_alloc (sl ! nat cls) of (p, pl) \<Rightarrow> (p, sl[nat cls := pl]))"

definition slab_free :: "bool \<Rightarrow> u64 \<Rightarrow> u64 \<Rightarrow> SlabPool \<Rightarrow> pool_error + SlabPool" where
  "slab_free ndebug p sz sl =
     (let cls = size_to_class sz in
      case assert_that ndebug (0 \<le> cls) ''size > 8192 not managed by SlabPool'' () of
        Inl e \<Rightarrow> Inl e
      | Inr _ \<Rightarrow> if cls < 0 then Inl OutOfBounds
          else (case pool_free ndebug p (sl ! nat cls) of
                  Inl e \<Rightarrow> Inl e | Inr pl \<Rightarrow> Inr (sl[nat cls := pl])))"

lemma size_to_class_range:
  assumes "n \<le> 8192"
  shows "0 \<le> size_to_class n" and "nat (size_to_class n) < 8" and "n \<le> kSizeClassBytes ! nat (size_to_class n)"
  using assms by (auto simp: size_to_class_def kSizeClassBytes_def numeral_eq_Suc)

lemma size_to_class_least:
  assumes "n \<le> 8192" and "j < nat (size_to_class n)"
  shows "kSizeClassBytes ! j < n"
proof -
  have "j < 8" using assms size_to_class_range(2) [OF assms(1)] by simp
  then have "j \<in> {0, 1, 2, 3, 4, 5, 6, 7}" by auto
  moreover have "unat n \<le> 8192" using assms(1) by (simp add: word_le_nat_alt)
  ultimately show ?thesis
    using assms(2)
    by (auto simp: size_to_class_def kSizeClassBytes_def word_le_nat_alt word_less_nat_alt split: if_splits)
qed

lemma size_to_class_over: "8192 < n \<Longrightarrow> size_to_class n = - 1"
  by (simp add: size_to_class_def word_le_nat_alt word_less_nat_alt)

text \<open>A slab of eight pools, each with blocks at least as big as its class.\<close>

definition slab_invar :: "SlabPool \<Rightarrow> bool" where
  "slab_invar sl \<longleftrightarrow> length sl = kNumSizeClasses \<and> (\<forall>pl\<in>set sl. pool_invar pl) \<and>
     list_all2 (\<lambda>pl b. b \<le> block_size pl) sl kSizeClassBytes"

lemma slab_class:
  assumes "slab_invar sl" and "sz \<le> 8192"
  shows "nat (size_to_class sz) < length sl" and "pool_invar (sl ! nat (size_to_class sz))"
    and "sz \<le> block_size (sl ! nat (size_to_class sz))"
proof -
  note r = size_to_class_range [OF assms(2)]
  show l: "nat (size_to_class sz) < length sl" using assms(1) r by (simp add: slab_invar_def kNumSizeClasses_def)
  with assms(1) show "pool_invar (sl ! nat (size_to_class sz))" by (simp add: slab_invar_def)
  have "kSizeClassBytes ! nat (size_to_class sz) \<le> block_size (sl ! nat (size_to_class sz))"
    using assms(1) l by (simp add: slab_invar_def list_all2_conv_all_nth)
  with r(3) show "sz \<le> block_size (sl ! nat (size_to_class sz))" by (rule order_trans)
qed

lemma slab_upd:
  assumes "slab_invar sl" and "c < length sl" and "pool_invar pl" and "block_size pl = block_size (sl ! c)"
  shows "slab_invar (sl[c := pl])"
  using assms set_update_subset_insert [of sl c pl]
  by (auto simp: slab_invar_def list_all2_conv_all_nth nth_list_update)

lemma pool_alloc_block_size: "block_size (snd (pool_alloc pl)) = block_size pl"
  by (simp add: pool_alloc_def case_prod_beta)

lemma pool_free_block_size: "pool_free ndebug p pl = Inr pl' \<Longrightarrow> block_size pl' = block_size pl"
  by (auto simp: pool_free_def assert_that_def split: prod.splits if_splits)

lemma new_pools_invar:
  assumes "new_pools env bs n po = Inr sl" and "pool_env_ok env" and "unat n \<le> 2 ^ 40"
    and "\<forall>b\<in>set bs. 64 \<le> unat b \<and> unat b \<le> 8192"
  shows "length sl = length bs \<and> (\<forall>pl\<in>set sl. pool_invar pl \<and> fl_queue (freelist pl) = pool_blocks pl) \<and>
    list_all2 (\<lambda>pl b. b \<le> block_size pl) sl bs"
  using assms
proof (induction bs arbitrary: sl)
  case (Cons b bs)
  obtain pl pls where pl: "new_MemoryPool env b n po = Inr pl" and pls: "new_pools env bs n po = Inr pls"
    and sl: "sl = pl # pls" using Cons.prems(1) by (auto split: sum.splits)
  have b: "unat b \<le> 8192" "64 \<le> unat b" using Cons.prems(4) by auto
  then have bb: "unat b + 64 \<le> 2 ^ 64" by simp
  have n63: "unat n \<le> 2 ^ 63" using Cons.prems(3) by simp
  obtain k where k: "unat (blocks_for n) = 2 ^ k" "\<And>j. max (unat n) 2 \<le> 2 ^ j \<Longrightarrow> k \<le> j"
    using blocks_for_least [OF n63] by metis
  have "k \<le> 40" using Cons.prems(3) by (intro k(2)) simp
  then have "(2::nat) ^ k \<le> 2 ^ 40" by (intro power_increasing) auto
  moreover have "unat (bytes_for b) \<le> 8256" using bytes_for_correct(2) [OF bb] b by simp
  ultimately have "unat (bytes_for b) * unat (blocks_for n) \<le> 8256 * 2 ^ 40"
    unfolding k(1) by (intro mult_mono) auto
  then have "unat (bytes_for b) * unat (blocks_for n) < 2 ^ 64" by simp
  note inv = new_pool_inv [OF pl Cons.prems(2) n63 bb this]
  have "b \<le> block_size pl" using bytes_for_correct(1) [OF bb] inv(3) by (simp add: word_le_nat_alt)
  with inv Cons.IH [OF pls Cons.prems(2,3)] Cons.prems(4) show ?case by (simp add: sl)
qed simp

lemma new_slab_invar:
  assumes "new_SlabPool env n po = Inr sl" and "pool_env_ok env" and "unat n \<le> 2 ^ 40"
  shows "slab_invar sl"
proof -
  have "\<forall>b\<in>set kSizeClassBytes. 64 \<le> unat b \<and> unat b \<le> 8192" by (simp add: kSizeClassBytes_def)
  from new_pools_invar [OF assms(1) [unfolded new_SlabPool_def] assms(2,3) this] show ?thesis
    by (auto simp: slab_invar_def kNumSizeClasses_def kSizeClassBytes_def)
qed

section \<open>Properties\<close>

text \<open>A cache of four blocks, two per batch, over the pool of four blocks.\<close>

definition sample_cache :: cached_pool where
  "sample_cache = (new_ThreadLocalCache 4 2, sample_pool)"

lemma new_cache:
  assumes "pool_invar pl" and "2 \<le> cap" and "1 \<le> batch" and "batch \<le> cap div 2"
  shows "tlc_invar (new_ThreadLocalCache cap batch, pl)"
    and "tlc_free_blocks (new_ThreadLocalCache cap batch, pl) = pool_free_blocks pl"
  using assms pool_invar_sub [OF assms(1)]
  by (simp_all add: tlc_invar_def tlc_cfg_def tlc_free_blocks_def tlc_blocks_def cached_def new_ThreadLocalCache_def)

text \<open>
  C24. The cache keeps the allocator's promise: a client of a cache over a new pool that frees
  only blocks it holds never trips an assertion, never holds a block twice, and what it holds,
  what the cache holds and what is left in the pool are together exactly the blocks of the
  pool. Destroying the cache then gives every block the client does not hold back to the pool.
\<close>

theorem cache_client_safe:
  assumes "new_MemoryPool env bsize nblocks po = Inr pl" and "pool_env_ok env"
    and "unat nblocks \<le> 2 ^ 63" and "unat bsize + 64 \<le> 2 ^ 64"
    and "unat (bytes_for bsize) * unat (blocks_for nblocks) < 2 ^ 64"
    and "2 \<le> cap" and "1 \<le> batch" and "batch \<le> cap div 2"
  shows "\<exists>held c pl' c' pl''.
    client_run tlc_alloc (tlc_free ndebug) ops [] (new_ThreadLocalCache cap batch, pl) = Inr (held, c, pl') \<and>
    distinct held \<and> set held \<subseteq> set (pool_blocks pl) \<and> top_cnt c \<le> LocalCapacity c \<and>
    mset held + cached c + mset (fl_queue (freelist pl')) = mset (pool_blocks pl) \<and>
    flush_all ndebug (c, pl') = Inr (c', pl'') \<and> top_cnt c' = 0 \<and>
    mset held + mset (fl_queue (freelist pl'')) = mset (pool_blocks pl)"
proof -
  note n = new_pool_inv [OF assms(1-5)]
  let ?s = "(new_ThreadLocalCache cap batch, pl)"
  note c = new_cache [OF n(1) assms(6-8)]
  have "mset [] + tlc_free_blocks ?s = mset (tlc_blocks ?s)"
    by (simp add: c(2) pool_free_blocks_def n(2) tlc_blocks_def)
  then obtain held c1 pl1 where r: "client_run tlc_alloc (tlc_free ndebug) ops [] ?s = Inr (held, c1, pl1)"
    and inv: "tlc_invar (c1, pl1)" and m: "mset held + tlc_free_blocks (c1, pl1) = mset (tlc_blocks (c1, pl1))"
    and b: "tlc_blocks (c1, pl1) = tlc_blocks ?s"
    using tlc.run_conserves [OF c(1), of "[]"] by (metis surj_pair)
  obtain c2 pl2 where f: "flush_all ndebug (c1, pl1) = Inr (c2, pl2)"
    and f2: "tlc_free_blocks (c2, pl2) = tlc_free_blocks (c1, pl1)" "top_cnt c2 = 0"
    using tlc_release_step [OF inv order_refl, of ndebug] by (auto simp: flush_all_def)
  have "top_cnt c1 \<le> LocalCapacity c1" using inv by (simp add: tlc_invar_def tlc_cfg_def)
  with r f f2 tlc.held_distinct [OF inv m] m b show ?thesis
    by (intro exI [of _ held] exI [of _ c1] exI [of _ pl1] exI [of _ c2] exI [of _ pl2])
      (simp add: tlc_free_blocks_def pool_free_blocks_def tlc_blocks_def cached_def add.assoc)
qed

theorem cache_client_safe_witness:
  "\<exists>held c pl'. client_run tlc_alloc (tlc_free False) [Alloc, Alloc, Alloc, Free 2, Free 0] [] sample_cache
     = Inr (held, c, pl') \<and> distinct held \<and> length held = 1 \<and> top_cnt c = 3 \<and> available pl' = 0"
proof -
  let ?ops = "[Alloc, Alloc, Alloc, Free 2, Free 0]"
  from cache_client_safe [OF sample_pool_new sample_pool_env_ok _ _ sample_pool_size, of 4 2 False ?ops]
  obtain held c pl' where r: "client_run tlc_alloc (tlc_free False) ?ops [] sample_cache = Inr (held, c, pl')"
    and d: "distinct held" by (auto simp: sample_cache_def)
  have "case client_run tlc_alloc (tlc_free False) ?ops [] sample_cache of
      Inr (held, c, pl') \<Rightarrow> length held = 1 \<and> top_cnt c = 3 \<and> available pl' = 0 | Inl _ \<Rightarrow> False" by code_simp
  with r d show ?thesis by simp
qed

text \<open>
  \<open>size_to_class\<close> picks the smallest class that fits: up to 8192 bytes the class's blocks
  are big enough and those of every smaller class are too small; above, the result is -1.
\<close>

theorem size_to_class_smallest:
  "if n \<le> 8192
   then 0 \<le> size_to_class n \<and> nat (size_to_class n) < kNumSizeClasses \<and>
     n \<le> kSizeClassBytes ! nat (size_to_class n) \<and>
     (\<forall>j. kSizeClassBytes ! j < n \<or> nat (size_to_class n) \<le> j)
   else size_to_class n = - 1"
  using size_to_class_range [of n] size_to_class_least [of n] size_to_class_over [of n]
  by (auto simp: kNumSizeClasses_def not_le)

text \<open>
  C30. A slab routes by size and gives blocks back to where they came from: \<open>alloc\<close> of at most
  8192 bytes uses the smallest of the classes of 64 to 8192 bytes that the request fits in: it returns a block of
  that class's pool, at least as big as asked for, or \<open>nullptr\<close> when that pool is empty, and touches no other
  pool; \<open>free\<close> with the same size then succeeds and restores the free blocks of every pool. Larger requests get
  \<open>nullptr\<close>.
\<close>

theorem slab_alloc_free:
  assumes "slab_invar sl" and "slab_alloc sz sl = (p, sl')"
  shows "slab_invar sl' \<and> (8192 < sz \<longrightarrow> p = 0 \<and> sl' = sl) \<and>
    (sz \<le> 8192 \<longrightarrow>
       (let c = nat (size_to_class sz) in
        c < 8 \<and> sz \<le> kSizeClassBytes ! c \<and> (\<forall>j<c. kSizeClassBytes ! j < sz) \<and>
        (\<forall>i. i \<noteq> c \<longrightarrow> sl' ! i = sl ! i) \<and> sz \<le> block_size (sl ! c) \<and>
        (p = 0 \<longleftrightarrow> pool_free_blocks (sl ! c) = {#}) \<and>
        (p \<noteq> 0 \<longrightarrow> p \<in> set (pool_blocks (sl ! c)) \<and>
          (\<exists>sl''. slab_free ndebug p sz sl' = Inr sl'' \<and> slab_invar sl'' \<and>
             map pool_free_blocks sl'' = map pool_free_blocks sl))))"
proof (cases "sz \<le> 8192")
  case False
  then have "p = 0" "sl' = sl" using assms(2) by (simp_all add: slab_alloc_def size_to_class_over not_le)
  with assms(1) False show ?thesis by (auto dest: leD)
next
  case True
  define c where "c = nat (size_to_class sz)"
  note cl = slab_class [OF assms(1) True, folded c_def] and r = size_to_class_range [OF True]
  obtain pl where a: "pool_alloc (sl ! c) = (p, pl)" and sl': "sl' = sl[c := pl]"
    using assms(2) r(1) by (auto simp: slab_alloc_def Let_def c_def split: prod.splits)
  note st = pool_alloc_step [OF cl(2) a]
  have bs: "block_size pl = block_size (sl ! c)" using pool_alloc_block_size [of "sl ! c"] a by simp
  have inv: "slab_invar sl'" unfolding sl' by (rule slab_upd [OF assms(1) cl(1) st(4) bs])
  have gives: "p \<in> set (pool_blocks (sl ! c)) \<and> (\<exists>sl''. slab_free ndebug p sz sl' = Inr sl'' \<and> slab_invar sl'' \<and>
      map pool_free_blocks sl'' = map pool_free_blocks sl)" if "p \<noteq> 0"
  proof -
    note freed = st(2) [OF that]
    have sub: "add_mset p (pool_free_blocks pl) \<subseteq># mset (pool_blocks pl)"
      using freed st(5) pool_invar_sub [OF cl(2)] by simp
    then have rest: "p \<in># mset (pool_blocks pl) - pool_free_blocks pl"
      by (simp only: in_rest_iff [OF pool_invar_sub [OF st(4)]])
    obtain pl2 where f: "pool_free ndebug p pl = Inr pl2" "pool_free_blocks pl2 = pool_free_blocks (sl ! c)"
      "pool_invar pl2" using pool.release_held [OF st(4) rest] freed by metis
    have "slab_free ndebug p sz sl' = Inr (sl[c := pl2])"
      using f(1) r(1) cl(1) by (simp add: slab_free_def Let_def assert_that_def sl' flip: c_def)
    moreover have "slab_invar (sl[c := pl2])"
      using slab_upd [OF assms(1) cl(1) f(3)] pool_free_block_size [OF f(1)] bs by simp
    moreover have "map pool_free_blocks (sl[c := pl2]) = map pool_free_blocks sl"
      using cl(1) by (simp add: map_update f(2) flip: nth_map)
    moreover have "p \<in> set (pool_blocks (sl ! c))" using rest st(5) by (metis in_diffD set_mset_mset)
    ultimately show ?thesis by blast
  qed
  show ?thesis
    unfolding Let_def c_def [symmetric] using True inv cl(3) st(1) gives
      r(2,3) [folded c_def] size_to_class_least [OF True, folded c_def]
    by (intro conjI impI) (auto simp: sl' dest: leD)
qed

definition sample_slab :: SlabPool where
  "sample_slab = projr (new_SlabPool sample_pool_env 4 sample_po)"

lemma sample_slab_new: "new_SlabPool sample_pool_env 4 sample_po = Inr sample_slab"
proof -
  have "isl (new_SlabPool sample_pool_env 4 sample_po) = False" by code_simp
  then show ?thesis by (simp add: sample_slab_def)
qed

theorem slab_alloc_free_witness:
  "\<exists>p sl'. slab_alloc 100 sample_slab = (p, sl') \<and> p \<noteq> 0 \<and> p \<in> set (pool_blocks (sample_slab ! 1)) \<and>
     kSizeClassBytes ! 0 < 100 \<and> 100 \<le> block_size (sample_slab ! 1) \<and>
     (\<exists>sl''. slab_free False p 100 sl' = Inr sl'')"
proof -
  obtain p sl' where a: "slab_alloc 100 sample_slab = (p, sl')" by force
  have inv: "slab_invar sample_slab" by (rule new_slab_invar [OF sample_slab_new sample_pool_env_ok]) simp
  have "fst (slab_alloc 100 sample_slab) \<noteq> 0" "nat (size_to_class 100) = 1" by code_simp+
  with slab_alloc_free [OF inv a, of False] a show ?thesis by (auto simp: Let_def word_le_nat_alt)
qed

end
