(* ===== verification/Pool_Concurrent.thy ===== *)
theory Pool_Concurrent
  imports Memory_Pool Transitions
begin

text \<open>
  The pool in its pipeline use: one thread calls \<open>alloc\<close> and another \<open>free\<close>, at the same time. A step
  is one access to the free list or to a counter. An acquire load of the other side's position may
  return any value that side has stored since the point the loading thread knows about; for the
  freeing thread that is the allocation of the latest block it was handed.
\<close>

section \<open>Steps\<close>

datatype alloc_pc = AIdle | ALoad u64 | ATake u64 | AStore u64 u64 | ACount nat u64
datatype free_pc = FIdle | FLoad u64 | FSlot u64 | FStore u64 | FCount | FAbort string

text \<open>
  \<open>held\<close> are the blocks in the hands of the clients, each with the number of its allocation. As ghosts,
  \<open>pushed\<close> is everything ever stored in the free list, \<open>taken\<close> the number of allocations, \<open>seen\<close> how many of them
  the freeing thread knows of, and \<open>returned\<close> the allocations whose blocks it was given.
\<close>

record psys =
  pl :: MemoryPool
  apc :: alloc_pc
  fpc :: free_pc
  held :: "(nat \<times> u64) list"
  pushed :: "u64 list"
  taken :: nat
  seen :: nat
  returned :: "nat list"

definition set_list :: "SPSCFreeList \<Rightarrow> psys \<Rightarrow> psys" where
  "set_list f \<sigma> = \<sigma>\<lparr>pl := (pl \<sigma>)\<lparr>freelist := f\<rparr>\<rparr>"

abbreviation fl :: "psys \<Rightarrow> SPSCFreeList" where "fl \<sigma> \<equiv> freelist (pl \<sigma>)"

definition count_alloc :: "u64 \<Rightarrow> PoolStats \<Rightarrow> PoolStats" where
  "count_alloc p st = (if p \<noteq> 0 then st\<lparr>allocs := allocs st + 1\<rparr> else st\<lparr>alloc_failures := alloc_failures st + 1\<rparr>)"

text \<open>The assertions at the start of \<open>free\<close>.\<close>

definition free_check :: "bool \<Rightarrow> MemoryPool \<Rightarrow> u64 \<Rightarrow> free_pc" where
  "free_check ndebug m p =
     (if ndebug then FLoad p
      else if p = 0 then FAbort ''free(nullptr)''
      else if \<not> owns m p then FAbort ''pointer not owned by this pool''
      else FLoad p)"

inductive pool_step :: "bool \<Rightarrow> psys \<Rightarrow> psys \<Rightarrow> bool" for ndebug :: bool where
  a_begin: "apc \<sigma> = AIdle \<Longrightarrow> pool_step ndebug \<sigma> (\<sigma>\<lparr>apc := ALoad (fl_rp (fl \<sigma>))\<rparr>)"
| a_check: "\<lbrakk> apc \<sigma> = ALoad r; unat (v - r) \<le> unat (fl_wp (fl \<sigma>) - r) \<rbrakk>
    \<Longrightarrow> pool_step ndebug \<sigma> (\<sigma>\<lparr>apc := if r = v then ACount (taken \<sigma>) 0 else ATake r\<rparr>)"
| a_take: "apc \<sigma> = ATake r
    \<Longrightarrow> pool_step ndebug \<sigma> (\<sigma>\<lparr>apc := AStore r (fl_slots (fl \<sigma>) ! unat (r AND fl_mask (fl \<sigma>)))\<rparr>)"
| a_store: "apc \<sigma> = AStore r p
    \<Longrightarrow> pool_step ndebug \<sigma> ((set_list ((fl \<sigma>)\<lparr>fl_rp := r + 1\<rparr>) \<sigma>)\<lparr>apc := ACount (taken \<sigma>) p, taken := Suc (taken \<sigma>)\<rparr>)"
| a_count: "apc \<sigma> = ACount i p
    \<Longrightarrow> pool_step ndebug \<sigma> (\<sigma>\<lparr>pl := (pl \<sigma>)\<lparr>stats := count_alloc p (stats (pl \<sigma>))\<rparr>, apc := AIdle,
          held := if p = 0 then held \<sigma> else (i, p) # held \<sigma>\<rparr>)"
| f_begin: "\<lbrakk> fpc \<sigma> = FIdle; (i, p) \<in> set (held \<sigma>) \<rbrakk>
    \<Longrightarrow> pool_step ndebug \<sigma> (\<sigma>\<lparr>fpc := free_check ndebug (pl \<sigma>) p,
          held := remove1 (i, p) (held \<sigma>), seen := max (seen \<sigma>) (Suc i), returned := i # returned \<sigma>\<rparr>)"
| f_room: "\<lbrakk> fpc \<sigma> = FLoad p; unat (v - of_nat (seen \<sigma>)) \<le> unat (fl_rp (fl \<sigma>) - of_nat (seen \<sigma>));
      \<not> fl_cap (fl \<sigma>) \<le> fl_wp (fl \<sigma>) - v \<rbrakk>
    \<Longrightarrow> pool_step ndebug \<sigma> (\<sigma>\<lparr>fpc := FSlot p\<rparr>)"
| f_full: "\<lbrakk> fpc \<sigma> = FLoad p; unat (v - of_nat (seen \<sigma>)) \<le> unat (fl_rp (fl \<sigma>) - of_nat (seen \<sigma>));
      fl_cap (fl \<sigma>) \<le> fl_wp (fl \<sigma>) - v \<rbrakk>
    \<Longrightarrow> pool_step ndebug \<sigma> (\<sigma>\<lparr>fpc := if ndebug then FCount else FAbort ''freelist overflow''\<rparr>)"
| f_slot: "fpc \<sigma> = FSlot p
    \<Longrightarrow> pool_step ndebug \<sigma> ((set_list ((fl \<sigma>)\<lparr>fl_slots := (fl_slots (fl \<sigma>))[unat (fl_wp (fl \<sigma>) AND fl_mask (fl \<sigma>)) := p]\<rparr>) \<sigma>)
          \<lparr>fpc := FStore p\<rparr>)"
| f_store: "fpc \<sigma> = FStore p
    \<Longrightarrow> pool_step ndebug \<sigma> ((set_list ((fl \<sigma>)\<lparr>fl_wp := fl_wp (fl \<sigma>) + 1\<rparr>) \<sigma>)\<lparr>fpc := FCount, pushed := pushed \<sigma> @ [p]\<rparr>)"
| f_count: "fpc \<sigma> = FCount
    \<Longrightarrow> pool_step ndebug \<sigma> (\<sigma>\<lparr>pl := (pl \<sigma>)\<lparr>stats := (stats (pl \<sigma>))\<lparr>frees := frees (stats (pl \<sigma>)) + 1\<rparr>\<rparr>, fpc := FIdle\<rparr>)"

definition pool_start :: "MemoryPool \<Rightarrow> psys" where
  "pool_start p = \<lparr> pl = p, apc = AIdle, fpc = FIdle, held = [], pushed = fl_queue (freelist p), taken = 0, seen = 0, returned = [] \<rparr>"

section \<open>The invariant\<close>

definition a_transit :: "alloc_pc \<Rightarrow> (nat \<times> u64) list" where
  "a_transit pc = (case pc of ACount i p \<Rightarrow> if p = 0 then [] else [(i, p)] | _ \<Rightarrow> [])"

definition f_transit :: "free_pc \<Rightarrow> u64 list" where
  "f_transit pc = (case pc of FLoad p \<Rightarrow> [p] | FSlot p \<Rightarrow> [p] | FStore p \<Rightarrow> [p] | _ \<Rightarrow> [])"

abbreviation pcap :: "psys \<Rightarrow> nat" where "pcap \<sigma> \<equiv> unat (fl_cap (fl \<sigma>))"
abbreviation stored :: "psys \<Rightarrow> nat" where "stored \<sigma> \<equiv> length (pushed \<sigma>)"

definition out_blocks :: "psys \<Rightarrow> (nat \<times> u64) list" where
  "out_blocks \<sigma> = a_transit (apc \<sigma>) @ held \<sigma>"

definition ring_inv :: "psys \<Rightarrow> bool" where
  "ring_inv \<sigma> \<longleftrightarrow> pool_cfg (pl \<sigma>) \<and> fl_cfg (fl \<sigma>) \<and> fl_wp (fl \<sigma>) = of_nat (stored \<sigma>) \<and> fl_rp (fl \<sigma>) = of_nat (taken \<sigma>) \<and>
     taken \<sigma> \<le> stored \<sigma> \<and> (\<forall>i. taken \<sigma> \<le> i \<and> i < stored \<sigma> \<longrightarrow> fl_slots (fl \<sigma>) ! (i mod pcap \<sigma>) = pushed \<sigma> ! i)"

text \<open>Every block is in exactly one place.\<close>

definition blocks_inv :: "psys \<Rightarrow> bool" where
  "blocks_inv \<sigma> \<longleftrightarrow> mset (drop (taken \<sigma>) (pushed \<sigma>)) + mset (map snd (out_blocks \<sigma>)) + mset (f_transit (fpc \<sigma>))
     = mset (pool_blocks (pl \<sigma>))"

text \<open>The allocations have different numbers, and the freeing thread knows of those it has returned.\<close>

definition numbers_inv :: "psys \<Rightarrow> bool" where
  "numbers_inv \<sigma> \<longleftrightarrow> distinct (returned \<sigma> @ map fst (out_blocks \<sigma>)) \<and>
     (\<forall>i\<in>set (returned \<sigma> @ map fst (out_blocks \<sigma>)). i < taken \<sigma>) \<and> (\<forall>i\<in>set (returned \<sigma>). i < seen \<sigma>) \<and>
     seen \<sigma> \<le> taken \<sigma> \<and> length (returned \<sigma>) + pcap \<sigma> = stored \<sigma> + length (f_transit (fpc \<sigma>))"

fun apc_inv :: "psys \<Rightarrow> alloc_pc \<Rightarrow> bool" where
  "apc_inv \<sigma> (ALoad r) = (r = of_nat (taken \<sigma>))"
| "apc_inv \<sigma> (ATake r) = (r = of_nat (taken \<sigma>) \<and> taken \<sigma> < stored \<sigma>)"
| "apc_inv \<sigma> (AStore r p) = (r = of_nat (taken \<sigma>) \<and> taken \<sigma> < stored \<sigma> \<and> p = pushed \<sigma> ! taken \<sigma>)"
| "apc_inv \<sigma> _ = True"

fun fpc_inv :: "psys \<Rightarrow> free_pc \<Rightarrow> bool" where
  "fpc_inv \<sigma> (FSlot p) = (stored \<sigma> < taken \<sigma> + pcap \<sigma>)"
| "fpc_inv \<sigma> (FStore p) = (stored \<sigma> < taken \<sigma> + pcap \<sigma> \<and> fl_slots (fl \<sigma>) ! (stored \<sigma> mod pcap \<sigma>) = p)"
| "fpc_inv \<sigma> (FAbort m) = False"
| "fpc_inv \<sigma> _ = True"

definition stats_inv :: "psys \<Rightarrow> bool" where
  "stats_inv \<sigma> \<longleftrightarrow> outstanding (stats (pl \<sigma>)) = of_nat (length (held \<sigma>) + length (f_transit (fpc \<sigma>)) + of_bool (fpc \<sigma> = FCount))"

definition pool_conc_inv :: "psys \<Rightarrow> bool" where
  "pool_conc_inv \<sigma> \<longleftrightarrow> ring_inv \<sigma> \<and> blocks_inv \<sigma> \<and> numbers_inv \<sigma> \<and> apc_inv \<sigma> (apc \<sigma>) \<and> fpc_inv \<sigma> (fpc \<sigma>) \<and> stats_inv \<sigma>"

lemma set_list_fields [simp]:
  "fl (set_list f \<sigma>) = f" "apc (set_list f \<sigma>) = apc \<sigma>" "fpc (set_list f \<sigma>) = fpc \<sigma>" "held (set_list f \<sigma>) = held \<sigma>"
  "pushed (set_list f \<sigma>) = pushed \<sigma>" "taken (set_list f \<sigma>) = taken \<sigma>" "seen (set_list f \<sigma>) = seen \<sigma>"
  "returned (set_list f \<sigma>) = returned \<sigma>" "stats (pl (set_list f \<sigma>)) = stats (pl \<sigma>)"
  "pool_blocks (pl (set_list f \<sigma>)) = pool_blocks (pl \<sigma>)"
  by (simp_all add: set_list_def)

lemma pool_cfg_list [simp]: "fl_cap f = fl_cap (freelist p) \<Longrightarrow> pool_cfg (p\<lparr>freelist := f\<rparr>) = pool_cfg p"
  by (simp add: pool_cfg_def)

lemma pool_cfg_stats [simp]: "pool_cfg (p\<lparr>stats := st\<rparr>) = pool_cfg p" "pool_blocks (p\<lparr>stats := st\<rparr>) = pool_blocks p"
  by (simp_all add: pool_cfg_def pool_blocks_def)

lemma distinct_below: "distinct xs \<Longrightarrow> \<forall>i\<in>set xs. i < n \<Longrightarrow> length xs \<le> (n :: nat)"
  using card_mono [of "{..<n}" "set xs"] by (auto simp: distinct_card)

text \<open>The two facts everything rests on: indices do not wrap, and the ring has room for a returned block.\<close>

lemma pool_slot_index:
  assumes "fl_cfg f"
  shows "unat (of_nat i AND fl_mask f) = i mod unat (fl_cap f)" and "i mod unat (fl_cap f) < length (fl_slots f)"
proof -
  obtain k where k: "k < 64" "unat (fl_cap f) = 2 ^ k" "\<And>w. unat (w AND fl_mask f) = unat w mod 2 ^ k"
    "\<And>w. unat (w AND fl_mask f) < length (fl_slots f)" using fl_index [OF assms] by metis
  have "(2 :: nat) ^ k dvd 2 ^ 64" using k(1) by (intro le_imp_power_dvd) simp
  then show i: "unat (of_nat i AND fl_mask f) = i mod unat (fl_cap f)" using k by (simp add: unat_of_nat mod_mod_cancel)
  show "i mod unat (fl_cap f) < length (fl_slots f)" using k(4) [of "of_nat i"] by (simp add: i)
qed

lemma ring_index:
  assumes "ring_inv \<sigma>"
  shows "unat (of_nat i AND fl_mask (fl \<sigma>)) = i mod pcap \<sigma>" and "i mod pcap \<sigma> < length (fl_slots (fl \<sigma>))"
  using pool_slot_index assms by (simp_all add: ring_inv_def)

lemma in_ring_bound: "pool_conc_inv \<sigma> \<Longrightarrow> stored \<sigma> \<le> taken \<sigma> + pcap \<sigma>"
  using distinct_below [of "returned \<sigma>" "taken \<sigma>"]
  by (auto simp: pool_conc_inv_def numbers_inv_def)

lemma room_for_block:
  assumes "pool_conc_inv \<sigma>" and "fpc \<sigma> = FLoad p"
  shows "stored \<sigma> < seen \<sigma> + pcap \<sigma>"
  using assms distinct_below [of "returned \<sigma>" "seen \<sigma>"]
  by (auto simp: pool_conc_inv_def numbers_inv_def f_transit_def)


lemma pcap_lt: "pcap \<sigma> < 2 ^ 64"
  using unat_lt_64 [of "fl_cap (fl \<sigma>)"] by simp

lemma fl_cfg_update [simp]:
  "fl_cfg (f\<lparr>fl_rp := v\<rparr>) = fl_cfg f" "fl_cfg (f\<lparr>fl_wp := v\<rparr>) = fl_cfg f" "fl_cfg (f\<lparr>fl_slots := (fl_slots f)[i := p]\<rparr>) = fl_cfg f"
  by (simp_all add: fl_cfg_def)

lemma set_list_cfg [simp]: "fl_cap f = fl_cap (fl \<sigma>) \<Longrightarrow> pool_cfg (pl (set_list f \<sigma>)) = pool_cfg (pl \<sigma>)"
  by (simp add: set_list_def)

lemma outstanding_count [simp]:
  "outstanding (count_alloc p st) = outstanding st + (if p = 0 then 0 else 1)"
  "outstanding (st\<lparr>frees := frees st + 1\<rparr>) = outstanding st - 1"
  by (simp_all add: outstanding_def count_alloc_def)

section \<open>Every step keeps the invariant\<close>

lemmas pool_inv_defs = pool_conc_inv_def ring_inv_def blocks_inv_def numbers_inv_def stats_inv_def out_blocks_def

lemma a_begin_inv: "pool_conc_inv \<sigma> \<Longrightarrow> apc \<sigma> = AIdle \<Longrightarrow> pool_conc_inv (\<sigma>\<lparr>apc := ALoad (fl_rp (fl \<sigma>))\<rparr>)"
  by (cases "fpc \<sigma>") (simp_all add: pool_inv_defs a_transit_def)

lemma a_check_inv:
  assumes inv: "pool_conc_inv \<sigma>" and pc: "apc \<sigma> = ALoad r" and v: "unat (v - r) \<le> unat (fl_wp (fl \<sigma>) - r)"
  shows "pool_conc_inv (\<sigma>\<lparr>apc := if r = v then ACount (taken \<sigma>) 0 else ATake r\<rparr>)"
proof -
  have ri: "fl_wp (fl \<sigma>) = of_nat (stored \<sigma>)" "r = of_nat (taken \<sigma>)" "taken \<sigma> \<le> stored \<sigma>"
    using inv pc by (simp_all add: pool_conc_inv_def ring_inv_def)
  moreover have "stored \<sigma> - taken \<sigma> < 2 ^ 64" using in_ring_bound [OF inv] pcap_lt [of \<sigma>] by simp
  ultimately obtain c where "taken \<sigma> \<le> c" "c \<le> stored \<sigma>" "v = of_nat c"
    using v counter_between [of "taken \<sigma>" "stored \<sigma>" v] by metis
  then have "r \<noteq> v \<Longrightarrow> taken \<sigma> < stored \<sigma>" using ri(2) by (cases "c = taken \<sigma>") auto
  then show ?thesis using inv pc ri by (cases "fpc \<sigma>") (auto simp: pool_inv_defs a_transit_def)
qed

lemma a_take_inv:
  assumes inv: "pool_conc_inv \<sigma>" and pc: "apc \<sigma> = ATake r"
  shows "pool_conc_inv (\<sigma>\<lparr>apc := AStore r (fl_slots (fl \<sigma>) ! unat (r AND fl_mask (fl \<sigma>)))\<rparr>)"
proof -
  have ri: "ring_inv \<sigma>" and r: "r = of_nat (taken \<sigma>)" "taken \<sigma> < stored \<sigma>" using inv pc by (simp_all add: pool_conc_inv_def)
  have "fl_slots (fl \<sigma>) ! unat (r AND fl_mask (fl \<sigma>)) = pushed \<sigma> ! taken \<sigma>"
    using ri r by (simp add: ring_index(1) ring_inv_def)
  then show ?thesis using inv pc by (cases "fpc \<sigma>") (simp_all add: pool_inv_defs a_transit_def)
qed

lemma pushed_nonnull:
  assumes inv: "pool_conc_inv \<sigma>" and "taken \<sigma> \<le> i" and "i < stored \<sigma>"
  shows "pushed \<sigma> ! i \<in> set (pool_blocks (pl \<sigma>))" and "pushed \<sigma> ! i \<noteq> 0"
proof -
  have cfg: "pool_cfg (pl \<sigma>)" and b: "blocks_inv \<sigma>" using inv by (simp_all add: pool_conc_inv_def ring_inv_def)
  have "pushed \<sigma> ! i \<in># mset (drop (taken \<sigma>) (pushed \<sigma>))"
    using assms(2,3) by (auto simp: in_set_conv_nth intro!: exI [of _ "i - taken \<sigma>"])
  then show "pushed \<sigma> ! i \<in> set (pool_blocks (pl \<sigma>))"
    using b by (metis blocks_inv_def set_mset_mset union_iff)
  then show "pushed \<sigma> ! i \<noteq> 0" using pool_blocks_nonnull [OF cfg] by metis
qed

lemma a_store_inv:
  assumes inv: "pool_conc_inv \<sigma>" and pc: "apc \<sigma> = AStore r p"
  shows "pool_conc_inv ((set_list ((fl \<sigma>)\<lparr>fl_rp := r + 1\<rparr>) \<sigma>)\<lparr>apc := ACount (taken \<sigma>) p, taken := Suc (taken \<sigma>)\<rparr>)"
    (is "pool_conc_inv ?t")
proof -
  have r: "r = of_nat (taken \<sigma>)" "taken \<sigma> < stored \<sigma>" "p = pushed \<sigma> ! taken \<sigma>"
    using inv pc by (simp_all add: pool_conc_inv_def)
  have p: "p \<noteq> 0" using pushed_nonnull(2) [OF inv order_refl r(2)] r(3) by simp
  have d: "drop (taken \<sigma>) (pushed \<sigma>) = p # drop (Suc (taken \<sigma>)) (pushed \<sigma>)"
    using r(2,3) by (simp add: Cons_nth_drop_Suc)
  have "ring_inv ?t" using inv r by (simp add: pool_conc_inv_def ring_inv_def)
  moreover have "blocks_inv ?t" using inv p d pc by (auto simp: pool_conc_inv_def blocks_inv_def out_blocks_def a_transit_def)
  moreover have "numbers_inv ?t"
    using inv p pc unfolding pool_conc_inv_def numbers_inv_def
    by (auto simp: out_blocks_def a_transit_def less_Suc_eq dest: bspec)
  moreover have "fpc_inv ?t (fpc ?t)" using inv by (cases "fpc \<sigma>") (simp_all add: pool_conc_inv_def)
  moreover have "stats_inv ?t" using inv by (simp add: pool_conc_inv_def stats_inv_def)
  ultimately show ?thesis by (simp add: pool_conc_inv_def)
qed

lemma a_count_inv:
  assumes inv: "pool_conc_inv \<sigma>" and pc: "apc \<sigma> = ACount i p"
  shows "pool_conc_inv (\<sigma>\<lparr>pl := (pl \<sigma>)\<lparr>stats := count_alloc p (stats (pl \<sigma>))\<rparr>, apc := AIdle,
          held := if p = 0 then held \<sigma> else (i, p) # held \<sigma>\<rparr>)"
    (is "pool_conc_inv ?t")
proof -
  have "out_blocks ?t = out_blocks \<sigma>" using pc by (simp add: out_blocks_def a_transit_def)
  with inv have "ring_inv ?t" "blocks_inv ?t" "numbers_inv ?t"
    by (simp_all add: pool_conc_inv_def ring_inv_def blocks_inv_def numbers_inv_def)
  moreover have "fpc_inv ?t (fpc ?t)" using inv by (cases "fpc \<sigma>") (simp_all add: pool_conc_inv_def)
  moreover have "stats_inv ?t" using inv by (simp add: pool_conc_inv_def stats_inv_def)
  ultimately show ?thesis by (simp add: pool_conc_inv_def)
qed

lemma held_block:
  assumes inv: "pool_conc_inv \<sigma>" and "(i, p) \<in> set (held \<sigma>)"
  shows "p \<noteq> 0" and "owns (pl \<sigma>) p" and "p \<in> set (pool_blocks (pl \<sigma>))"
proof -
  have cfg: "pool_cfg (pl \<sigma>)" and b: "blocks_inv \<sigma>" using inv by (simp_all add: pool_conc_inv_def ring_inv_def)
  have "p \<in># mset (map snd (out_blocks \<sigma>))" using assms(2) by (force simp: out_blocks_def)
  then show m: "p \<in> set (pool_blocks (pl \<sigma>))" using b by (metis blocks_inv_def set_mset_mset union_iff)
  show "p \<noteq> 0" using m pool_blocks_nonnull [OF cfg] by metis
  show "owns (pl \<sigma>) p" by (rule pool_blocks_owned [OF cfg m])
qed

lemma split_held:
  assumes "(i, p) \<in> set h"
  obtains h1 h2 where "h = h1 @ (i, p) # h2" and "remove1 (i, p) h = h1 @ h2"
proof -
  obtain h1 h2 where "h = h1 @ (i, p) # h2" "(i, p) \<notin> set h1" using split_list_first [OF assms] by blast
  then show ?thesis using that [of h1 h2] by (simp add: remove1_append)
qed

lemma f_begin_inv:
  assumes inv: "pool_conc_inv \<sigma>" and pc: "fpc \<sigma> = FIdle" and m: "(i, p) \<in> set (held \<sigma>)"
  shows "pool_conc_inv (\<sigma>\<lparr>fpc := free_check ndebug (pl \<sigma>) p,
          held := remove1 (i, p) (held \<sigma>), seen := max (seen \<sigma>) (Suc i), returned := i # returned \<sigma>\<rparr>)" (is "pool_conc_inv ?t")
proof -
  obtain h1 h2 where h: "held \<sigma> = h1 @ (i, p) # h2" "remove1 (i, p) (held \<sigma>) = h1 @ h2" using split_held [OF m] .
  have t: "?t = \<sigma>\<lparr>fpc := FLoad p, held := h1 @ h2, seen := max (seen \<sigma>) (Suc i), returned := i # returned \<sigma>\<rparr>"
    using held_block(1,2) [OF inv m] by (simp add: h(2) free_check_def)
  have o: "out_blocks \<sigma> = (a_transit (apc \<sigma>) @ h1) @ (i, p) # h2" "out_blocks ?t = (a_transit (apc \<sigma>) @ h1) @ h2"
    unfolding t by (simp_all add: out_blocks_def) (simp add: h(1))
  have "numbers_inv ?t" using inv pc unfolding pool_conc_inv_def numbers_inv_def o
    by (auto simp: t f_transit_def less_max_iff_disj)
  moreover have "apc_inv ?t (apc ?t)" using inv by (cases "apc \<sigma>") (simp_all add: pool_conc_inv_def)
  moreover have "blocks_inv ?t" using inv pc unfolding pool_conc_inv_def blocks_inv_def o
    by (simp add: t f_transit_def add_ac)
  moreover have "ring_inv ?t" "stats_inv ?t" "fpc_inv ?t (fpc ?t)" unfolding t using inv pc h(1)
    by (simp_all add: pool_conc_inv_def ring_inv_def stats_inv_def f_transit_def)
  ultimately show ?thesis by (simp add: pool_conc_inv_def)
qed


lemma returned_room:
  assumes inv: "pool_conc_inv \<sigma>" and pc: "fpc \<sigma> = FLoad p" and v: "unat (v - of_nat (seen \<sigma>)) \<le> unat (fl_rp (fl \<sigma>) - of_nat (seen \<sigma>))"
  shows "\<not> fl_cap (fl \<sigma>) \<le> fl_wp (fl \<sigma>) - v"
proof -
  have ri: "fl_wp (fl \<sigma>) = of_nat (stored \<sigma>)" "fl_rp (fl \<sigma>) = of_nat (taken \<sigma>)" "taken \<sigma> \<le> stored \<sigma>" "seen \<sigma> \<le> taken \<sigma>"
    using inv by (simp_all add: pool_conc_inv_def ring_inv_def numbers_inv_def)
  note room = room_for_block [OF inv pc] pcap_lt [of \<sigma>]
  obtain c where c: "seen \<sigma> \<le> c" "c \<le> taken \<sigma>" "v = of_nat c"
  proof -
    have "taken \<sigma> - seen \<sigma> < 2 ^ 64" using ri(3) room by linarith
    then show ?thesis using counter_between [OF ri(4) _ v [unfolded ri(2)]] that by blast
  qed
  then have "unat (fl_wp (fl \<sigma>) - v) = stored \<sigma> - c"
    using ri room unat_of_nat_diff [of c "stored \<sigma>"] by simp
  moreover have "\<not> pcap \<sigma> \<le> stored \<sigma> - c" using c(1,2) ri(3) room by linarith
  ultimately show ?thesis by (simp add: word_le_nat_alt)
qed

lemma f_room_inv:
  assumes inv: "pool_conc_inv \<sigma>" and pc: "fpc \<sigma> = FLoad p"
  shows "pool_conc_inv (\<sigma>\<lparr>fpc := FSlot p\<rparr>)"
proof -
  have "stored \<sigma> < taken \<sigma> + pcap \<sigma>" using room_for_block [OF inv pc] inv by (simp add: pool_conc_inv_def numbers_inv_def)
  then show ?thesis using inv pc by (cases "apc \<sigma>") (simp_all add: pool_inv_defs f_transit_def)
qed

lemma other_slot:
  assumes "ring_inv \<sigma>" and "taken \<sigma> \<le> i" and "i < stored \<sigma>" and "stored \<sigma> < taken \<sigma> + pcap \<sigma>"
  shows "stored \<sigma> mod pcap \<sigma> \<noteq> i mod pcap \<sigma>"
proof
  assume "stored \<sigma> mod pcap \<sigma> = i mod pcap \<sigma>"
  then have "pcap \<sigma> dvd stored \<sigma> - i" using assms(3) mod_eq_dvd_iff_nat [of i "stored \<sigma>" "pcap \<sigma>"] by simp
  then show False using assms by (auto dest: dvd_imp_le)
qed

lemma f_slot_inv:
  assumes inv: "pool_conc_inv \<sigma>" and pc: "fpc \<sigma> = FSlot p"
  shows "pool_conc_inv ((set_list ((fl \<sigma>)\<lparr>fl_slots := (fl_slots (fl \<sigma>))[unat (fl_wp (fl \<sigma>) AND fl_mask (fl \<sigma>)) := p]\<rparr>) \<sigma>)\<lparr>fpc := FStore p\<rparr>)"
    (is "pool_conc_inv ?t")
proof -
  have ri: "ring_inv \<sigma>" and room: "stored \<sigma> < taken \<sigma> + pcap \<sigma>" using inv pc by (simp_all add: pool_conc_inv_def)
  have ix: "unat (fl_wp (fl \<sigma>) AND fl_mask (fl \<sigma>)) = stored \<sigma> mod pcap \<sigma>"
    using ri ring_index(1) [OF ri] by (simp add: ring_inv_def)
  have "ring_inv ?t" unfolding ix using ri other_slot [OF ri _ _ room] by (auto simp: ring_inv_def)
  moreover have "fpc_inv ?t (fpc ?t)" unfolding ix using room ring_index(2) [OF ri] by simp
  moreover have "apc_inv ?t (apc ?t)" using inv by (cases "apc \<sigma>") (simp_all add: pool_conc_inv_def)
  moreover have "blocks_inv ?t" "numbers_inv ?t" "stats_inv ?t" using inv pc
    by (simp_all add: pool_conc_inv_def blocks_inv_def numbers_inv_def stats_inv_def out_blocks_def f_transit_def)
  ultimately show ?thesis by (simp add: pool_conc_inv_def)
qed

lemma f_store_inv:
  assumes inv: "pool_conc_inv \<sigma>" and pc: "fpc \<sigma> = FStore p"
  shows "pool_conc_inv ((set_list ((fl \<sigma>)\<lparr>fl_wp := fl_wp (fl \<sigma>) + 1\<rparr>) \<sigma>)\<lparr>fpc := FCount, pushed := pushed \<sigma> @ [p]\<rparr>)"
    (is "pool_conc_inv ?t")
proof -
  have ri: "ring_inv \<sigma>" and slot: "fl_slots (fl \<sigma>) ! (stored \<sigma> mod pcap \<sigma>) = p" using inv pc by (simp_all add: pool_conc_inv_def)
  have "ring_inv ?t" using ri slot by (auto simp: ring_inv_def nth_append less_Suc_eq add.commute)
  moreover have "apc_inv ?t (apc ?t)" using inv by (cases "apc \<sigma>") (auto simp: pool_conc_inv_def nth_append)
  moreover have "blocks_inv ?t" using inv pc ri
    by (simp add: pool_conc_inv_def ring_inv_def blocks_inv_def out_blocks_def f_transit_def add_ac)
  moreover have "numbers_inv ?t" "stats_inv ?t" using inv pc
    by (simp_all add: pool_conc_inv_def numbers_inv_def stats_inv_def out_blocks_def f_transit_def add_ac)
  ultimately show ?thesis by (simp add: pool_conc_inv_def)
qed

lemma f_count_inv:
  assumes inv: "pool_conc_inv \<sigma>" and pc: "fpc \<sigma> = FCount"
  shows "pool_conc_inv (\<sigma>\<lparr>pl := (pl \<sigma>)\<lparr>stats := (stats (pl \<sigma>))\<lparr>frees := frees (stats (pl \<sigma>)) + 1\<rparr>\<rparr>, fpc := FIdle\<rparr>)"
    (is "pool_conc_inv ?t")
proof -
  have "ring_inv ?t" "blocks_inv ?t" "numbers_inv ?t" "stats_inv ?t" using inv pc
    by (simp_all add: pool_conc_inv_def ring_inv_def blocks_inv_def numbers_inv_def stats_inv_def out_blocks_def f_transit_def)
  moreover have "apc_inv ?t (apc ?t)" using inv by (cases "apc \<sigma>") (simp_all add: pool_conc_inv_def)
  ultimately show ?thesis by (simp add: pool_conc_inv_def)
qed

interpretation pipeline: preserved "pool_step ndebug" pool_conc_inv
proof
  fix \<sigma> \<tau> assume inv: "pool_conc_inv \<sigma>" and "pool_step ndebug \<sigma> \<tau>"
  from this(2) show "pool_conc_inv \<tau>"
    by cases (auto simp only: intro: a_begin_inv a_check_inv a_take_inv a_store_inv a_count_inv f_begin_inv f_room_inv
        f_slot_inv f_store_inv f_count_inv inv dest: returned_room [OF inv])
qed

section \<open>A new pool\<close>

lemma populate_rp: "populate_freelist ndebug n i p = Inr p' \<Longrightarrow> fl_rp (freelist p') = fl_rp (freelist p)"
  by (induction ndebug n i p rule: populate_freelist.induct)
    (auto simp: assert_that_def fl_push_def Let_def split: prod.splits if_splits)

lemma new_pool_rp: "new_MemoryPool env bsize nblocks po = Inr p \<Longrightarrow> fl_rp (freelist p) = 0"
  by (auto simp: new_MemoryPool_def new_SPSCFreeList_def assert_that_def map_backing_def Let_def
      split: sum.splits if_splits option.splits dest!: populate_rp)

lemma pool_start_inv:
  assumes "pool_invar p" and "fl_queue (freelist p) = pool_blocks p" and "outstanding (stats p) = 0" and "fl_rp (freelist p) = 0"
  shows "pool_conc_inv (pool_start p)"
proof -
  let ?f = "freelist p"
  have cfg: "pool_cfg p" "fl_cfg ?f" using assms(1) by (simp_all add: pool_invar_def fl_invar_def)
  have sz: "size_approx ?f = fl_wp ?f" using assms(4) by (simp add: size_approx_def)
  have len: "unat (fl_wp ?f) = unat (fl_cap ?f)"
    using arg_cong [OF assms(2), of length] pool_cfgD(6) [OF cfg(1)] by (simp add: sz pool_blocks_def)
  have slots: "fl_slots ?f ! (i mod unat (fl_cap ?f)) = fl_queue ?f ! i" if "i < unat (fl_cap ?f)" for i
    using that by (simp add: fl_queue_def sz len assms(4) pool_slot_index [OF cfg(2)])
  have wp: "fl_wp ?f = fl_cap ?f" using len by (simp add: word_unat_eq_iff)
  then have "ring_inv (pool_start p)" using cfg slots assms(4) by (simp add: ring_inv_def pool_start_def sz)
  moreover have "blocks_inv (pool_start p)" "numbers_inv (pool_start p)" "stats_inv (pool_start p)"
    using assms(2,3) sz len pool_cfgD(6) [OF cfg(1)]
    by (simp_all add: blocks_inv_def numbers_inv_def stats_inv_def pool_start_def out_blocks_def a_transit_def f_transit_def)
  ultimately show ?thesis by (simp add: pool_conc_inv_def pool_start_def)
qed


lemma pool_step_blocks: "pool_step ndebug \<sigma> \<tau> \<Longrightarrow> pool_blocks (pl \<tau>) = pool_blocks (pl \<sigma>)"
  by (cases rule: pool_step.cases) auto

interpretation same_blocks: preserved "pool_step ndebug" "\<lambda>\<sigma>. pool_blocks (pl \<sigma>) = bs"
  by unfold_locales (simp add: pool_step_blocks)

lemma queue_is_rest:
  assumes "pool_conc_inv \<sigma>"
  shows "fl_queue (fl \<sigma>) = drop (taken \<sigma>) (pushed \<sigma>)"
proof (rule nth_equalityI)
  have ri: "fl_cfg (fl \<sigma>)" "fl_wp (fl \<sigma>) = of_nat (stored \<sigma>)" "fl_rp (fl \<sigma>) = of_nat (taken \<sigma>)" "taken \<sigma> \<le> stored \<sigma>"
    "\<And>i. taken \<sigma> \<le> i \<Longrightarrow> i < stored \<sigma> \<Longrightarrow> fl_slots (fl \<sigma>) ! (i mod pcap \<sigma>) = pushed \<sigma> ! i"
    using assms by (simp_all add: pool_conc_inv_def ring_inv_def)
  have n: "unat (size_approx (fl \<sigma>)) = stored \<sigma> - taken \<sigma>"
    using in_ring_bound [OF assms] pcap_lt [of \<sigma>] ri(2-4) by (simp add: size_approx_def unat_of_nat_diff)
  then show "length (fl_queue (fl \<sigma>)) = length (drop (taken \<sigma>) (pushed \<sigma>))" by simp
  fix i assume "i < length (fl_queue (fl \<sigma>))"
  then have i: "i < stored \<sigma> - taken \<sigma>" by (simp add: n)
  have "unat ((fl_rp (fl \<sigma>) + of_nat i) AND fl_mask (fl \<sigma>)) = (taken \<sigma> + i) mod pcap \<sigma>"
    using pool_slot_index(1) [OF ri(1), of "taken \<sigma> + i"] by (simp add: ri(3))
  then show "fl_queue (fl \<sigma>) ! i = drop (taken \<sigma>) (pushed \<sigma>) ! i"
    using i ri(4) ri(5) [of "taken \<sigma> + i"] by (simp add: fl_queue_def n)
qed

section \<open>A call on its own\<close>

text \<open>With no other thread in the way, the steps of a call make up the sequential \<open>alloc\<close> and \<open>free\<close>.\<close>

lemma alloc_steps:
  assumes "apc \<sigma> = AIdle" and "pool_alloc (pl \<sigma>) = (p, m)"
  shows "(pool_step ndebug)\<^sup>*\<^sup>* \<sigma> (\<sigma>\<lparr>pl := m, held := if p = 0 then held \<sigma> else (taken \<sigma>, p) # held \<sigma>,
    taken := taken \<sigma> + of_bool (fl_rp (fl \<sigma>) \<noteq> fl_wp (fl \<sigma>))\<rparr>)" (is "(pool_step ndebug)\<^sup>*\<^sup>* \<sigma> ?t")
proof -
  let ?step = "pool_step ndebug"
  define r where "r = fl_rp (fl \<sigma>)"
  define \<sigma>1 where "\<sigma>1 = \<sigma>\<lparr>apc := ALoad r\<rparr>"
  have 1: "?step\<^sup>*\<^sup>* \<sigma> \<sigma>1" using a_begin [OF assms(1), of ndebug] unfolding \<sigma>1_def r_def by (rule r_into_rtranclp)
  show ?thesis
  proof (cases "r = fl_wp (fl \<sigma>)")
    case True
    define \<sigma>2 where "\<sigma>2 = \<sigma>\<lparr>apc := ACount (taken \<sigma>) 0\<rparr>"
    have "?step \<sigma>1 \<sigma>2" using a_check [of \<sigma>1 r r ndebug] True by (simp add: \<sigma>1_def \<sigma>2_def)
    moreover have "p = 0" and m: "m = (pl \<sigma>)\<lparr>stats := count_alloc 0 (stats (pl \<sigma>))\<rparr>"
      using assms(2) True by (auto simp: r_def pool_alloc_def fl_pop_def Let_def count_alloc_def)
    then have t: "?t = \<sigma>2\<lparr>pl := (pl \<sigma>2)\<lparr>stats := count_alloc 0 (stats (pl \<sigma>2))\<rparr>, apc := AIdle\<rparr>"
      using True by (intro psys.equality) (simp_all add: \<sigma>2_def r_def assms(1))
    have "?step \<sigma>2 ?t" unfolding t using a_count [of \<sigma>2 "taken \<sigma>" 0 ndebug] by (simp add: \<sigma>2_def)
    ultimately show ?thesis using 1 by (meson rtranclp.rtrancl_into_rtrancl)
  next
    case False
    define q where "q = fl_slots (fl \<sigma>) ! unat (r AND fl_mask (fl \<sigma>))"
    define \<sigma>2 where "\<sigma>2 = \<sigma>\<lparr>apc := ATake r\<rparr>"
    define \<sigma>3 where "\<sigma>3 = \<sigma>\<lparr>apc := AStore r q\<rparr>"
    define \<sigma>4 where "\<sigma>4 = (set_list ((fl \<sigma>)\<lparr>fl_rp := r + 1\<rparr>) \<sigma>)\<lparr>apc := ACount (taken \<sigma>) q, taken := Suc (taken \<sigma>)\<rparr>"
    have "?step \<sigma>1 \<sigma>2" using a_check [of \<sigma>1 r "fl_wp (fl \<sigma>)" ndebug] False by (simp add: \<sigma>1_def \<sigma>2_def)
    moreover have "?step \<sigma>2 \<sigma>3" using a_take [of \<sigma>2 r ndebug] by (simp add: \<sigma>2_def \<sigma>3_def q_def)
    moreover have "?step \<sigma>3 \<sigma>4" using a_store [of \<sigma>3 r q ndebug] by (simp add: \<sigma>3_def \<sigma>4_def set_list_def)
    moreover have "p = q" and m: "m = (pl \<sigma>)\<lparr>freelist := (fl \<sigma>)\<lparr>fl_rp := r + 1\<rparr>, stats := count_alloc q (stats (pl \<sigma>))\<rparr>"
      using assms(2) False by (auto simp: r_def q_def pool_alloc_def fl_pop_def Let_def count_alloc_def)
    then have t: "?t = \<sigma>4\<lparr>pl := (pl \<sigma>4)\<lparr>stats := count_alloc q (stats (pl \<sigma>4))\<rparr>, apc := AIdle,
        held := if q = 0 then held \<sigma>4 else (taken \<sigma>, q) # held \<sigma>4\<rparr>"
      using False by (intro psys.equality) (simp_all add: \<sigma>4_def set_list_def r_def assms(1))
    have "?step \<sigma>4 ?t" unfolding t by (rule a_count) (simp add: \<sigma>4_def)
    ultimately show ?thesis using 1 by (meson rtranclp.rtrancl_into_rtrancl)
  qed
qed

lemma free_steps:
  assumes "fpc \<sigma> = FIdle" and "(i, p) \<in> set (held \<sigma>)" and "pool_free ndebug p (pl \<sigma>) = Inr m"
  shows "\<exists>ps. (pool_step ndebug)\<^sup>*\<^sup>* \<sigma> (\<sigma>\<lparr>pl := m, held := remove1 (i, p) (held \<sigma>), seen := max (seen \<sigma>) (Suc i),
    returned := i # returned \<sigma>, pushed := ps\<rparr>)" (is "\<exists>ps. (pool_step ndebug)\<^sup>*\<^sup>* \<sigma> (?t ps)")
proof -
  let ?step = "pool_step ndebug" and ?r = "fl_rp (fl \<sigma>)"
  define \<rho> where "\<rho> = \<sigma>\<lparr>held := remove1 (i, p) (held \<sigma>), seen := max (seen \<sigma>) (Suc i), returned := i # returned \<sigma>\<rparr>"
  have "free_check ndebug (pl \<sigma>) p = FLoad p" using assms(3)
    by (auto simp: free_check_def pool_free_def assert_that_def split: sum.splits if_splits)
  then have "?step \<sigma> (\<rho>\<lparr>fpc := FLoad p\<rparr>)" using f_begin [OF assms(1,2), of ndebug] by (cases \<sigma>) (simp add: \<rho>_def)
  then have 1: "?step\<^sup>*\<^sup>* \<sigma> (\<rho>\<lparr>fpc := FLoad p\<rparr>)" by (rule r_into_rtranclp)
  have fin: "?step (\<rho>'\<lparr>fpc := FCount\<rparr>) (\<rho>'\<lparr>pl := (pl \<rho>')\<lparr>stats := (stats (pl \<rho>'))\<lparr>frees := frees (stats (pl \<rho>')) + 1\<rparr>\<rparr>, fpc := FIdle\<rparr>)" for \<rho>'
    using f_count [of "\<rho>'\<lparr>fpc := FCount\<rparr>" ndebug] by simp
  show ?thesis
  proof (cases "fl_cap (fl \<sigma>) \<le> fl_wp (fl \<sigma>) - ?r")
    case True
    have a: "?step (\<rho>\<lparr>fpc := FLoad p\<rparr>) (\<rho>\<lparr>fpc := FCount\<rparr>)"
      using f_full [of "\<rho>\<lparr>fpc := FLoad p\<rparr>" p ?r ndebug] True assms(3)
      by (auto simp: \<rho>_def pool_free_def fl_push_def assert_that_def Let_def split: sum.splits if_splits)
    have m: "m = (pl \<sigma>)\<lparr>stats := (stats (pl \<sigma>))\<lparr>frees := frees (stats (pl \<sigma>)) + 1\<rparr>\<rparr>"
      using True assms(3) by (auto simp: pool_free_def fl_push_def assert_that_def Let_def split: sum.splits if_splits)
    then have t: "(\<rho>\<lparr>pl := (pl \<rho>)\<lparr>stats := (stats (pl \<rho>))\<lparr>frees := frees (stats (pl \<rho>)) + 1\<rparr>\<rparr>, fpc := FIdle\<rparr>) = ?t (pushed \<sigma>)"
      by (intro psys.equality) (simp_all add: \<rho>_def assms(1))
    show ?thesis using rtranclp.rtrancl_into_rtrancl [OF rtranclp.rtrancl_into_rtrancl [OF 1 a] fin] unfolding t by (rule exI)
  next
    case False
    define \<rho>2 where "\<rho>2 = set_list ((fl \<sigma>)\<lparr>fl_slots := (fl_slots (fl \<sigma>))[unat (fl_wp (fl \<sigma>) AND fl_mask (fl \<sigma>)) := p]\<rparr>) \<rho>"
    define \<rho>3 where "\<rho>3 = (set_list ((fl \<rho>2)\<lparr>fl_wp := fl_wp (fl \<rho>2) + 1\<rparr>) \<rho>2)\<lparr>pushed := pushed \<sigma> @ [p]\<rparr>"
    have a: "?step (\<rho>\<lparr>fpc := FLoad p\<rparr>) (\<rho>\<lparr>fpc := FSlot p\<rparr>)"
      using f_room [of "\<rho>\<lparr>fpc := FLoad p\<rparr>" p ?r ndebug] False by (simp add: \<rho>_def)
    have b: "?step (\<rho>\<lparr>fpc := FSlot p\<rparr>) (\<rho>2\<lparr>fpc := FStore p\<rparr>)"
      using f_slot [of "\<rho>\<lparr>fpc := FSlot p\<rparr>" p ndebug] by (simp add: \<rho>2_def \<rho>_def set_list_def)
    have e: "\<rho>3\<lparr>fpc := FCount\<rparr> = (set_list ((fl \<rho>2)\<lparr>fl_wp := fl_wp (fl \<rho>2) + 1\<rparr>) \<rho>2)\<lparr>fpc := FCount, pushed := pushed \<rho>2 @ [p]\<rparr>"
      by (intro psys.equality) (simp_all add: \<rho>3_def \<rho>2_def \<rho>_def)
    have c: "?step (\<rho>2\<lparr>fpc := FStore p\<rparr>) (\<rho>3\<lparr>fpc := FCount\<rparr>)"
      unfolding e using f_store [of "\<rho>2\<lparr>fpc := FStore p\<rparr>" p ndebug] by (simp add: set_list_def)
    have m: "m = (pl \<sigma>)\<lparr>freelist := snd (fl_push p (fl \<sigma>)), stats := (stats (pl \<sigma>))\<lparr>frees := frees (stats (pl \<sigma>)) + 1\<rparr>\<rparr>"
      using assms(3) by (auto simp: pool_free_def assert_that_def split: sum.splits prod.splits if_splits)
    then have t: "(\<rho>3\<lparr>pl := (pl \<rho>3)\<lparr>stats := (stats (pl \<rho>3))\<lparr>frees := frees (stats (pl \<rho>3)) + 1\<rparr>\<rparr>, fpc := FIdle\<rparr>) = ?t (pushed \<sigma> @ [p])"
      using False by (intro psys.equality) (simp_all add: \<rho>3_def \<rho>2_def \<rho>_def set_list_def fl_push_def Let_def assms(1))
    note run = rtranclp.rtrancl_into_rtrancl [OF rtranclp.rtrancl_into_rtrancl [OF rtranclp.rtrancl_into_rtrancl [OF 1 a] b] c]
    show ?thesis using rtranclp.rtrancl_into_rtrancl [OF run fin] unfolding t by (rule exI)
  qed
qed

section \<open>Properties\<close>

text \<open>
  C15. Allocation and release on two threads at once are safe, under every interleaving of their
  accesses and with stale reads of the positions: no assertion fails and no block is dropped;
  every block is at any moment in exactly one place (the free list, a call in progress, or a client);
  the slot \<open>free\<close> is about to write is never the slot \<open>alloc\<close> is about to read;
  and when neither thread is in a call, \<open>outstanding\<close> is the number of blocks the clients hold.
\<close>

theorem pool_concurrent_safe:
  assumes "new_MemoryPool env bsize nblocks po = Inr p" and "pool_env_ok env"
    and "unat nblocks \<le> 2 ^ 63" and "unat bsize + 64 \<le> 2 ^ 64"
    and "unat (bytes_for bsize) * unat (blocks_for nblocks) < 2 ^ 64"
    and "(pool_step ndebug)\<^sup>*\<^sup>* (pool_start p) \<sigma>"
  shows "(\<forall>msg. fpc \<sigma> \<noteq> FAbort msg) \<and>
    mset (fl_queue (fl \<sigma>)) + mset (map snd (a_transit (apc \<sigma>))) + mset (map snd (held \<sigma>)) + mset (f_transit (fpc \<sigma>))
      = mset (pool_blocks p) \<and>
    distinct (map snd (held \<sigma>)) \<and>
    (\<forall>r q. apc \<sigma> = ATake r \<and> fpc \<sigma> = FSlot q \<longrightarrow>
       unat (r AND fl_mask (fl \<sigma>)) \<noteq> unat (fl_wp (fl \<sigma>) AND fl_mask (fl \<sigma>))) \<and>
    (fpc \<sigma> = FIdle \<longrightarrow> outstanding (stats (pl \<sigma>)) = of_nat (length (held \<sigma>)))"
proof -
  note n = new_pool_inv [OF assms(1-5)]
  have inv: "pool_conc_inv \<sigma>"
    by (rule pipeline.along_run [OF assms(6) pool_start_inv [OF n(1,2,5) new_pool_rp [OF assms(1)]]])
  have b: "pool_blocks (pl \<sigma>) = pool_blocks p" using same_blocks.along_run [OF assms(6)] by (simp add: pool_start_def)
  have all: "mset (fl_queue (fl \<sigma>)) + mset (map snd (a_transit (apc \<sigma>))) + mset (map snd (held \<sigma>)) + mset (f_transit (fpc \<sigma>))
      = mset (pool_blocks p)"
    using inv by (simp add: queue_is_rest [OF inv] pool_conc_inv_def blocks_inv_def out_blocks_def b [symmetric] add_ac)
  then have "mset (fl_queue (fl \<sigma>) @ map snd (a_transit (apc \<sigma>)) @ map snd (held \<sigma>) @ f_transit (fpc \<sigma>)) = mset (pool_blocks p)"
    by (simp add: add_ac)
  then have "distinct (fl_queue (fl \<sigma>) @ map snd (a_transit (apc \<sigma>)) @ map snd (held \<sigma>) @ f_transit (fpc \<sigma>))"
    using pool_blocks_distinct [OF pool_invar_cfg [OF n(1)]] mset_eq_imp_distinct_iff by blast
  then have d: "distinct (map snd (held \<sigma>))" by simp
  have ri: "ring_inv \<sigma>" and pcs: "apc_inv \<sigma> (apc \<sigma>)" "fpc_inv \<sigma> (fpc \<sigma>)" and st: "stats_inv \<sigma>"
    using inv by (simp_all add: pool_conc_inv_def)
  have "unat (r AND fl_mask (fl \<sigma>)) \<noteq> unat (fl_wp (fl \<sigma>) AND fl_mask (fl \<sigma>))" if "apc \<sigma> = ATake r" "fpc \<sigma> = FSlot q" for r q
    using that pcs ri other_slot [OF ri order_refl] ring_index(1) [OF ri] by (auto simp: ring_inv_def)
  moreover have "fpc \<sigma> \<noteq> FAbort msg" for msg using pcs(2) by (cases "fpc \<sigma>") auto
  ultimately show ?thesis using all d st by (auto simp: stats_inv_def f_transit_def)
qed

theorem pool_concurrent_safe_witness:
  "\<exists>\<sigma>. (pool_step False)\<^sup>*\<^sup>* (pool_start sample_pool) \<sigma> \<and> apc \<sigma> = ATake 1 \<and> fpc \<sigma> = FSlot 0x7f0000000000 \<and>
     unat (1 AND fl_mask (fl \<sigma>)) \<noteq> unat (fl_wp (fl \<sigma>) AND fl_mask (fl \<sigma>))"
proof -
  let ?p = "0x7f0000000000 :: u64" and ?step = "pool_step False"
  define \<sigma>0 where "\<sigma>0 = pool_start sample_pool"
  define m where "m = snd (pool_alloc sample_pool)"
  have al: "pool_alloc sample_pool = (?p, m)" unfolding m_def prod_eq_iff by (simp only: fst_conv snd_conv) code_simp
  have v: "fl_rp (freelist sample_pool) = 0" "fl_wp (freelist sample_pool) = 4" by code_simp+
  have w: "fl_rp (freelist m) = 1" "fl_wp (freelist m) = 4" "fl_cap (freelist m) = 4" "free_check False m ?p = FLoad ?p"
    unfolding m_def by code_simp+
  define \<sigma>1 where "\<sigma>1 = \<sigma>0\<lparr>pl := m, held := [(0, ?p)], taken := 1\<rparr>"
  define \<sigma>2 where "\<sigma>2 = \<sigma>1\<lparr>fpc := FLoad ?p, held := [], seen := 1, returned := [0]\<rparr>"
  have "?step\<^sup>*\<^sup>* \<sigma>0 \<sigma>1" using alloc_steps [of \<sigma>0 ?p m False] al v by (simp add: \<sigma>1_def \<sigma>0_def pool_start_def)
  moreover have "?step \<sigma>1 \<sigma>2" using f_begin [of \<sigma>1 0 ?p False] w(4) by (simp add: \<sigma>2_def \<sigma>1_def \<sigma>0_def pool_start_def)
  moreover have "?step \<sigma>2 (\<sigma>2\<lparr>fpc := FSlot ?p\<rparr>)" using f_room [of \<sigma>2 ?p 1 False] w by (simp add: \<sigma>2_def \<sigma>1_def)
  moreover have "?step (\<sigma>2\<lparr>fpc := FSlot ?p\<rparr>) (\<sigma>2\<lparr>fpc := FSlot ?p, apc := ALoad 1\<rparr>)"
    using a_begin [of "\<sigma>2\<lparr>fpc := FSlot ?p\<rparr>" False] w by (simp add: \<sigma>2_def \<sigma>1_def \<sigma>0_def pool_start_def)
  moreover have "?step (\<sigma>2\<lparr>fpc := FSlot ?p, apc := ALoad 1\<rparr>) (\<sigma>2\<lparr>fpc := FSlot ?p, apc := ATake 1\<rparr>)"
    using a_check [of "\<sigma>2\<lparr>fpc := FSlot ?p, apc := ALoad 1\<rparr>" 1 4 False] w by (simp add: \<sigma>2_def \<sigma>1_def)
  ultimately have run: "?step\<^sup>*\<^sup>* (pool_start sample_pool) (\<sigma>2\<lparr>fpc := FSlot ?p, apc := ATake 1\<rparr>)"
    unfolding \<sigma>0_def by (meson rtranclp.rtrancl_into_rtrancl)
  from pool_concurrent_safe [OF sample_pool_new sample_pool_env_ok _ _ sample_pool_size run] run show ?thesis
    by (intro exI [of _ "\<sigma>2\<lparr>fpc := FSlot ?p, apc := ATake 1\<rparr>"]) simp
qed

end
