(* ===== verification/Pool_Wait_Free.thy ===== *)
theory Pool_Wait_Free
  imports Pool_Concurrent
begin

text \<open>No call of the pool waits for the other thread: \<open>alloc\<close> and \<open>free\<close> are threads in the sense of the locale \<open>progress\<close>.\<close>

section \<open>Steps to the end of a call\<close>

fun alloc_left :: "alloc_pc \<Rightarrow> nat" where
  "alloc_left AIdle = 0" | "alloc_left (ALoad r) = 4" | "alloc_left (ATake r) = 3" | "alloc_left (AStore r p) = 2" | "alloc_left (ACount i p) = 1"

text \<open>A failed assertion ends the program; no run comes there.\<close>

fun free_left :: "free_pc \<Rightarrow> nat" where
  "free_left FIdle = 0" | "free_left (FLoad p) = 4" | "free_left (FSlot p) = 3" | "free_left (FStore p) = 2" | "free_left FCount = 1"
| "free_left (FAbort msg) = 0"

lemma alloc_enabled:
  assumes "0 < alloc_left (apc \<sigma>)"
  shows "\<exists>\<tau>. pool_step ndebug \<sigma> \<tau> \<and> apc \<tau> \<noteq> apc \<sigma>"
proof (cases "apc \<sigma>")
  case (ALoad r)
  show ?thesis by (rule exI, rule conjI, rule pool_step.a_check [OF ALoad order_refl]) (simp add: ALoad)
next
  case (ATake r)
  show ?thesis by (rule exI, rule conjI, rule pool_step.a_take [OF ATake]) (simp add: ATake)
next
  case (AStore r p)
  show ?thesis by (rule exI, rule conjI, rule pool_step.a_store [OF AStore]) (simp add: AStore)
next
  case (ACount i p)
  show ?thesis by (rule exI, rule conjI, rule pool_step.a_count [OF ACount]) (simp add: ACount)
qed (use assms in simp)

lemma free_enabled:
  assumes "0 < free_left (fpc \<sigma>)"
  shows "\<exists>\<tau>. pool_step ndebug \<sigma> \<tau> \<and> fpc \<tau> \<noteq> fpc \<sigma>"
proof (cases "fpc \<sigma>")
  case (FLoad p)
  show ?thesis
  proof (cases "fl_cap (fl \<sigma>) \<le> fl_wp (fl \<sigma>) - fl_rp (fl \<sigma>)")
    case True
    show ?thesis by (rule exI, rule conjI, rule pool_step.f_full [OF FLoad order_refl True]) (simp add: FLoad)
  next
    case False
    show ?thesis by (rule exI, rule conjI, rule pool_step.f_room [OF FLoad order_refl False]) (simp add: FLoad)
  qed
next
  case (FSlot p)
  show ?thesis by (rule exI, rule conjI, rule pool_step.f_slot [OF FSlot]) (simp add: FSlot)
next
  case (FStore p)
  show ?thesis by (rule exI, rule conjI, rule pool_step.f_store [OF FStore]) (simp add: FStore)
next
  case FCount
  show ?thesis by (rule exI, rule conjI, rule pool_step.f_count [OF FCount]) (simp add: FCount)
qed (use assms in simp_all)

interpretation alloc: progress "pool_step ndebug" pool_conc_inv apc "\<lambda>\<sigma>. alloc_left (apc \<sigma>)"
proof unfold_locales
  show "alloc_left (apc \<tau>) < alloc_left (apc \<sigma>)"
    if "pool_conc_inv \<sigma>" "0 < alloc_left (apc \<sigma>)" "pool_step ndebug \<sigma> \<tau>" "apc \<tau> \<noteq> apc \<sigma>" for \<sigma> \<tau>
    using that(3,2,4) by cases (auto split: if_splits)
qed (use alloc_enabled in auto)

interpretation free: progress "pool_step ndebug" pool_conc_inv fpc "\<lambda>\<sigma>. free_left (fpc \<sigma>)"
proof unfold_locales
  show "free_left (fpc \<tau>) < free_left (fpc \<sigma>)"
    if "pool_conc_inv \<sigma>" "0 < free_left (fpc \<sigma>)" "pool_step ndebug \<sigma> \<tau>" "fpc \<tau> \<noteq> fpc \<sigma>" for \<sigma> \<tau>
    using that(3,2,4) by cases (auto split: if_splits)
qed (use free_enabled in auto)

section \<open>Bounds\<close>

lemma alloc_left_pos [simp]: "0 < alloc_left a \<longleftrightarrow> a \<noteq> AIdle"
  by (cases a) simp_all

text \<open>
  \<open>alloc\<close> and \<open>free\<close> of the pool are wait-free: on two threads in any interleaving each can always make its next step
  and has returned after at most four of them.
\<close>

theorem pool_wait_free:
  assumes "new_MemoryPool env bsize nblocks po = Inr p" and "pool_env_ok env"
    and "unat nblocks \<le> 2 ^ 63" and "unat bsize + 64 \<le> 2 ^ 64"
    and "unat (bytes_for bsize) * unat (blocks_for nblocks) < 2 ^ 64"
    and "(pool_step ndebug)\<^sup>*\<^sup>* (pool_start p) (f 0)" and run: "\<forall>i<k. pool_step ndebug (f i) (f (Suc i))"
  shows "((\<forall>i<k. apc (f i) \<noteq> AIdle) \<longrightarrow> card {i. i < k \<and> apc (f (Suc i)) \<noteq> apc (f i)} \<le> 4) \<and>
    ((\<forall>i<k. fpc (f i) \<noteq> FIdle) \<longrightarrow> card {i. i < k \<and> fpc (f (Suc i)) \<noteq> fpc (f i)} \<le> 4) \<and>
    (apc (f k) \<noteq> AIdle \<longrightarrow> (\<exists>\<tau>. pool_step ndebug (f k) \<tau> \<and> apc \<tau> \<noteq> apc (f k))) \<and>
    (fpc (f k) \<noteq> FIdle \<longrightarrow> (\<exists>\<tau>. pool_step ndebug (f k) \<tau> \<and> fpc \<tau> \<noteq> fpc (f k)))"
proof -
  note n = new_pool_inv [OF assms(1-5)]
  have inv0: "pool_conc_inv (f 0)" using pipeline.along_run [OF assms(6)] pool_start_inv [OF n(1,2,5) new_pool_rp [OF assms(1)]] by blast
  have "fpc (f i) \<noteq> FAbort msg" if "i \<le> k" for i msg
    using pipeline.along_path [OF run inv0 that] by (cases "fpc (f i)") (auto simp: pool_conc_inv_def)
  then have pos: "0 < free_left (fpc (f i)) \<longleftrightarrow> fpc (f i) \<noteq> FIdle" if "i \<le> k" for i
    using that by (cases "fpc (f i)") auto
  have b: "alloc_left (apc (f 0)) \<le> 4" "free_left (fpc (f 0)) \<le> 4" by (cases "apc (f 0)"; simp) (cases "fpc (f 0)"; simp)
  show ?thesis
  proof (intro conjI impI)
    show "card {i. i < k \<and> apc (f (Suc i)) \<noteq> apc (f i)} \<le> 4" if "\<forall>i<k. apc (f i) \<noteq> AIdle"
      by (rule alloc.call_bound [OF run inv0 _ b(1)]) (use that in simp)
    show "card {i. i < k \<and> fpc (f (Suc i)) \<noteq> fpc (f i)} \<le> 4" if "\<forall>i<k. fpc (f i) \<noteq> FIdle"
      by (rule free.call_bound [OF run inv0 _ b(2)]) (use that pos in simp)
  qed (use alloc_enabled [of "f k"] free_enabled [of "f k"] pos in simp_all)
qed

definition alloc_run :: "nat \<Rightarrow> psys" where
  "alloc_run i = (if i = 0 then pool_start sample_pool else (pool_start sample_pool)\<lparr>apc := ALoad 0\<rparr>)"

theorem pool_wait_free_witness: "\<exists>\<tau>. pool_step False (alloc_run 1) \<tau> \<and> apc \<tau> \<noteq> ALoad 0"
proof -
  have "fl_rp (fl (pool_start sample_pool)) = 0" by code_simp
  then have s: "\<forall>i<1. pool_step False (alloc_run i) (alloc_run (Suc i))"
    using a_begin [of "pool_start sample_pool" False] by (simp add: alloc_run_def pool_start_def)
  have r: "(pool_step False)\<^sup>*\<^sup>* (pool_start sample_pool) (alloc_run 0)" by (simp add: alloc_run_def)
  show ?thesis using pool_wait_free [OF sample_pool_new sample_pool_env_ok _ _ sample_pool_size r s] by (simp add: alloc_run_def)
qed

end
