(* ===== verification/Timer_Wheel.thy ===== *)
theory Timer_Wheel
  imports Prelude
begin

text \<open>
  The hierarchical timer wheel of \<open>timer_wheel.hpp\<close>: four levels of slots, each a list of entries,
  and the table of locations for \<open>cancel\<close>. A list node is identified by the timer id it holds,
  so an iterator in a location is the id that is its key; erasing an id from a list that does
  not hold it is an erase through an iterator of another list, which is undefined.

  Callbacks are opaque: what callback \<open>c\<close> does when it runs is the program \<open>body c w\<close>, where
  \<open>w\<close> is the state of the client. A program may schedule and cancel timers, see the results,
  and go on accordingly.
\<close>

section \<open>State\<close>

definition kWheelInvalidTimer :: u64 where "kWheelInvalidTimer = 0"
definition kL0Slots :: u64 where "kL0Slots = 256"
definition kL1Slots :: u64 where "kL1Slots = 64"
definition kL2Slots :: u64 where "kL2Slots = 64"
definition kL3Slots :: u64 where "kL3Slots = 64"

lemmas slot_consts = kL0Slots_def kL1Slots_def kL2Slots_def kL3Slots_def

record Stats =
  inserted :: u64
  fired :: u64
  cancelled :: u64
  cascades :: u64

record 'c Entry =
  e_id :: u64
  expiry_tick :: u64
  interval_ticks :: u64
  cb :: 'c

record 'c TimerWheel =
  l0 :: "'c Entry list list"
  l1 :: "'c Entry list list"
  l2 :: "'c Entry list list"
  l3 :: "'c Entry list list"
  entries :: "u64 \<rightharpoonup> nat \<times> nat"
  jiffies :: u64
  tick_ns :: int
  next_id :: u64
  w_stats :: Stats

text \<open>
  What is undefined in the code: an erase through an iterator of another list, and an \<open>int\<close> sum beyond its range.
\<close>

datatype wheel_error = EraseForeign | CountOverflow

datatype ('w, 'c) prog =
    Ret 'w
  | Schedule u64 'c "u64 \<Rightarrow> ('w, 'c) prog"
  | SchedulePeriodic u64 'c "u64 \<Rightarrow> ('w, 'c) prog"
  | Cancel u64 "bool \<Rightarrow> ('w, 'c) prog"

definition new_TimerWheel :: "int \<Rightarrow> 'c TimerWheel" where
  "new_TimerWheel ns = \<lparr> l0 = replicate 256 [], l1 = replicate 64 [], l2 = replicate 64 [],
     l3 = replicate 64 [], entries = (\<lambda>_. None), jiffies = 0, tick_ns = ns, next_id = 1,
     w_stats = \<lparr> inserted = 0, fired = 0, cancelled = 0, cascades = 0 \<rparr> \<rparr>"

definition pending :: "'c TimerWheel \<Rightarrow> nat" where
  "pending w = card (dom (entries w))"

section \<open>Operations\<close>

definition push_back :: "nat \<Rightarrow> 'c Entry \<Rightarrow> 'c Entry list list \<Rightarrow> 'c Entry list list" where
  "push_back s e l = l[s := l ! s @ [e]]"

definition wheel_insert :: "'c Entry \<Rightarrow> 'c TimerWheel \<Rightarrow> 'c TimerWheel" where
  "wheel_insert e w =
     (let remaining = expiry_tick e - jiffies w in
      if remaining < kL0Slots
      then let slot = unat (expiry_tick e AND (kL0Slots - 1))
           in w\<lparr>l0 := push_back slot e (l0 w), entries := (entries w)(e_id e \<mapsto> (0, slot))\<rparr>
      else if remaining < kL0Slots * kL1Slots
      then let slot = unat (drop_bit 8 (expiry_tick e) AND (kL1Slots - 1))
           in w\<lparr>l1 := push_back slot e (l1 w), entries := (entries w)(e_id e \<mapsto> (1, slot))\<rparr>
      else if remaining < kL0Slots * kL1Slots * kL2Slots
      then let slot = unat (drop_bit 14 (expiry_tick e) AND (kL2Slots - 1))
           in w\<lparr>l2 := push_back slot e (l2 w), entries := (entries w)(e_id e \<mapsto> (2, slot))\<rparr>
      else let slot = unat (drop_bit 20 (expiry_tick e) AND (kL3Slots - 1))
           in w\<lparr>l3 := push_back slot e (l3 w), entries := (entries w)(e_id e \<mapsto> (3, slot))\<rparr>)"

definition count_inserted :: "'c TimerWheel \<Rightarrow> 'c TimerWheel" where
  "count_inserted w = w\<lparr>w_stats := (w_stats w)\<lparr>inserted := inserted (w_stats w) + 1\<rparr>\<rparr>"

definition schedule :: "u64 \<Rightarrow> 'c \<Rightarrow> 'c TimerWheel \<Rightarrow> u64 \<times> 'c TimerWheel" where
  "schedule delay_ticks c w =
     (let delay_ticks = (if delay_ticks = 0 then 1 else delay_ticks);
          e = \<lparr> e_id = next_id w, expiry_tick = jiffies w + delay_ticks, interval_ticks = 0, cb = c \<rparr>
      in (e_id e, count_inserted (wheel_insert e (w\<lparr>next_id := next_id w + 1\<rparr>))))"

definition schedule_periodic :: "u64 \<Rightarrow> 'c \<Rightarrow> 'c TimerWheel \<Rightarrow> u64 \<times> 'c TimerWheel" where
  "schedule_periodic interval c w =
     (let interval = (if interval = 0 then 1 else interval);
          e = \<lparr> e_id = next_id w, expiry_tick = jiffies w + interval, interval_ticks = interval, cb = c \<rparr>
      in (e_id e, count_inserted (wheel_insert e (w\<lparr>next_id := next_id w + 1\<rparr>))))"

text \<open>\<open>list::erase\<close> of the node that holds \<open>i\<close>.\<close>

definition erase_node :: "u64 \<Rightarrow> nat \<Rightarrow> 'c Entry list list \<Rightarrow> wheel_error + 'c Entry list list" where
  "erase_node i s l =
     (if i \<in> e_id ` set (l ! s) then Inr (l[s := filter (\<lambda>e. e_id e \<noteq> i) (l ! s)])
      else Inl EraseForeign)"

definition cancel :: "u64 \<Rightarrow> 'c TimerWheel \<Rightarrow> wheel_error + (bool \<times> 'c TimerWheel)" where
  "cancel i w =
     (case entries w i of
        None \<Rightarrow> Inr (False, w)
      | Some (level, s) \<Rightarrow>
          (case (if level = 0 then map_sum id (\<lambda>l. w\<lparr>l0 := l\<rparr>) (erase_node i s (l0 w))
                 else if level = 1 then map_sum id (\<lambda>l. w\<lparr>l1 := l\<rparr>) (erase_node i s (l1 w))
                 else if level = 2 then map_sum id (\<lambda>l. w\<lparr>l2 := l\<rparr>) (erase_node i s (l2 w))
                 else if level = 3 then map_sum id (\<lambda>l. w\<lparr>l3 := l\<rparr>) (erase_node i s (l3 w))
                 else Inr w) of
             Inl e \<Rightarrow> Inl e
           | Inr w' \<Rightarrow> Inr (True, w'\<lparr>entries := (entries w')(i := None),
                 w_stats := (w_stats w')\<lparr>cancelled := cancelled (w_stats w') + 1\<rparr>\<rparr>)))"

text \<open>A callback's program, run against the wheel.\<close>

primrec run_prog :: "('w, 'c) prog \<Rightarrow> 'c TimerWheel \<Rightarrow> wheel_error + ('w \<times> 'c TimerWheel)" where
  "run_prog (Ret st) w = Inr (st, w)"
| "run_prog (Schedule d c k) w = (case schedule d c w of (i, w') \<Rightarrow> run_prog (k i) w')"
| "run_prog (SchedulePeriodic d c k) w = (case schedule_periodic d c w of (i, w') \<Rightarrow> run_prog (k i) w')"
| "run_prog (Cancel i k) w =
     (case cancel i w of Inl e \<Rightarrow> Inl e | Inr (b, w') \<Rightarrow> run_prog (k b) w')"

text \<open>The loop of \<open>fire_slot\<close> over the swapped-out list.\<close>

fun fire_list :: "('c \<Rightarrow> 'w \<Rightarrow> ('w, 'c) prog) \<Rightarrow> 'c Entry list \<Rightarrow> 'w \<Rightarrow> 'c TimerWheel
    \<Rightarrow> wheel_error + ('w \<times> 'c TimerWheel)" where
  "fire_list body [] st w = Inr (st, w)"
| "fire_list body (e # es) st w =
     (case run_prog (body (cb e) st) (w\<lparr>entries := (entries w)(e_id e := None)\<rparr>) of
        Inl err \<Rightarrow> Inl err
      | Inr (st', w1) \<Rightarrow>
          let w2 = w1\<lparr>w_stats := (w_stats w1)\<lparr>fired := fired (w_stats w1) + 1\<rparr>\<rparr>;
              w3 = (if interval_ticks e \<noteq> 0
                    then wheel_insert (e\<lparr>expiry_tick := jiffies w2 + interval_ticks e\<rparr>) w2 else w2)
          in fire_list body es st' w3)"

definition fire_slot :: "('c \<Rightarrow> 'w \<Rightarrow> ('w, 'c) prog) \<Rightarrow> nat \<Rightarrow> 'w \<Rightarrow> 'c TimerWheel
    \<Rightarrow> wheel_error + (nat \<times> 'w \<times> 'c TimerWheel)" where
  "fire_slot body s st w =
     (let loc = l0 w ! s in
      case fire_list body loc st (w\<lparr>l0 := (l0 w)[s := []]\<rparr>) of
        Inl err \<Rightarrow> Inl err | Inr (st', w') \<Rightarrow> Inr (length loc, st', w'))"

fun reinsert :: "'c Entry list \<Rightarrow> 'c TimerWheel \<Rightarrow> 'c TimerWheel" where
  "reinsert [] w = w"
| "reinsert (e # es) w = reinsert es (wheel_insert e (w\<lparr>entries := (entries w)(e_id e := None)\<rparr>))"

definition cascade :: "nat \<Rightarrow> 'c TimerWheel \<Rightarrow> nat \<times> 'c TimerWheel" where
  "cascade from_level w =
     (let (count, w') =
        (if from_level = 1 then
           (let s = unat (drop_bit 8 (jiffies w) AND (kL1Slots - 1)); loc = l1 w ! s
            in (length loc, reinsert loc (w\<lparr>l1 := (l1 w)[s := []]\<rparr>)))
         else if from_level = 2 then
           (let s = unat (drop_bit 14 (jiffies w) AND (kL2Slots - 1)); loc = l2 w ! s
            in (length loc, reinsert loc (w\<lparr>l2 := (l2 w)[s := []]\<rparr>)))
         else if from_level = 3 then
           (let s = unat (drop_bit 20 (jiffies w) AND (kL3Slots - 1)); loc = l3 w ! s
            in (length loc, reinsert loc (w\<lparr>l3 := (l3 w)[s := []]\<rparr>)))
         else (0, w))
      in (count, w'\<lparr>w_stats := (w_stats w')\<lparr>cascades := cascades (w_stats w') + of_nat count\<rparr>\<rparr>))"

definition tick :: "('c \<Rightarrow> 'w \<Rightarrow> ('w, 'c) prog) \<Rightarrow> 'w \<Rightarrow> 'c TimerWheel
    \<Rightarrow> wheel_error + (nat \<times> 'w \<times> 'c TimerWheel)" where
  "tick body st w =
     (let w = w\<lparr>jiffies := jiffies w + 1\<rparr>;
          w = (if jiffies w AND (kL0Slots - 1) = 0
               then let w = snd (cascade 1 w)
                    in if jiffies w AND (kL0Slots * kL1Slots - 1) = 0
                       then let w = snd (cascade 2 w)
                            in if jiffies w AND (kL0Slots * kL1Slots * kL2Slots - 1) = 0
                               then snd (cascade 3 w) else w
                       else w
               else w);
          s = unat (jiffies w AND (kL0Slots - 1))
      in fire_slot body s st w)"

text \<open>\<open>advance(n)\<close>: \<open>n\<close> ticks; the callbacks they ran are added up in an \<open>int\<close>.\<close>

fun advance_loop :: "('c \<Rightarrow> 'w \<Rightarrow> ('w, 'c) prog) \<Rightarrow> nat \<Rightarrow> nat \<Rightarrow> 'w \<Rightarrow> 'c TimerWheel
    \<Rightarrow> wheel_error + (nat \<times> 'w \<times> 'c TimerWheel)" where
  "advance_loop body 0 acc st w = Inr (acc, st, w)"
| "advance_loop body (Suc n) acc st w =
     (case tick body st w of
        Inl err \<Rightarrow> Inl err
      | Inr (k, st', w') \<Rightarrow>
          if acc + k < 2 ^ 31 then advance_loop body n (acc + k) st' w' else Inl CountOverflow)"

definition advance :: "('c \<Rightarrow> 'w \<Rightarrow> ('w, 'c) prog) \<Rightarrow> u64 \<Rightarrow> 'w \<Rightarrow> 'c TimerWheel
    \<Rightarrow> wheel_error + (nat \<times> 'w \<times> 'c TimerWheel)" where
  "advance body n st w = advance_loop body (unat n) 0 st w"

end
