(* ===== verification/Timer_Inv.thy ===== *)
theory Timer_Inv
  imports Timer_Wheel Fifo
begin

text \<open>
  The invariant of the timer wheel: every entry is at home in its slot, the location table and
  the lists agree, ids are unique. A list that \<open>fire_slot\<close> or \<open>cascade\<close> has swapped out is a
  parameter of the invariant, and so is the set of slots that the current tick still has to
  cascade.
\<close>

section \<open>Levels and slots\<close>

definition bucket :: "'c TimerWheel \<Rightarrow> nat \<Rightarrow> nat \<Rightarrow> 'c Entry list" where
  "bucket w l s = (if l = 0 then l0 w else if l = 1 then l1 w else if l = 2 then l2 w else l3 w) ! s"

definition nslots :: "nat \<Rightarrow> nat" where "nslots l = (if l = 0 then 256 else 64)"

definition valid :: "nat \<Rightarrow> nat \<Rightarrow> bool" where "valid l s \<longleftrightarrow> l < 4 \<and> s < nslots l"

definition span :: "nat \<Rightarrow> nat" where
  "span l = (if l = 0 then 1 else if l = 1 then 2 ^ 8 else if l = 2 then 2 ^ 14 else 2 ^ 20)"

definition slot_of :: "nat \<Rightarrow> u64 \<Rightarrow> nat" where
  "slot_of l t = unat t div span l mod nslots l"

definition shape :: "'c TimerWheel \<Rightarrow> bool" where
  "shape w \<longleftrightarrow> length (l0 w) = 256 \<and> length (l1 w) = 64 \<and> length (l2 w) = 64 \<and> length (l3 w) = 64"

definition left :: "u64 \<Rightarrow> 'c Entry \<Rightarrow> nat" where
  "left now e = unat (expiry_tick e - now)"

text \<open>
  An entry on the finest level expires within one turn of it. On a coarser level it sits in a
  slot that is cascaded at a later tick, no later than its expiry.
\<close>

definition home :: "u64 \<Rightarrow> nat \<Rightarrow> nat \<Rightarrow> 'c Entry \<Rightarrow> bool" where
  "home now l s e \<longleftrightarrow> s = slot_of l (expiry_tick e) \<and>
     (if l = 0 then left now e < 256 else span l \<le> unat now mod span l + left now e)"

definition level_for :: "nat \<Rightarrow> nat" where
  "level_for r = (if r < 256 then 0 else if r < 2 ^ 14 then 1 else if r < 2 ^ 20 then 2 else 3)"

lemma valid_slot_of: "l < 4 \<Longrightarrow> valid l (slot_of l t)"
  by (simp add: valid_def slot_of_def nslots_def)

lemma unat_mask: "k < 64 \<Longrightarrow> unat (t AND (2 ^ k - 1) :: u64) = unat t mod 2 ^ k"
  by (rule unat_and_pred_pow2) (simp add: unat_exp2)

lemma slot_expr:
  "unat (t AND (kL0Slots - 1)) = slot_of 0 t"
  "unat (drop_bit 8 t AND (kL1Slots - 1)) = slot_of 1 t"
  "unat (drop_bit 14 t AND (kL2Slots - 1)) = slot_of 2 t"
  "unat (drop_bit 20 t AND (kL3Slots - 1)) = slot_of 3 t"
  using unat_mask [of 8 t] unat_mask [of 6 "drop_bit 8 t"] unat_mask [of 6 "drop_bit 14 t"]
    unat_mask [of 6 "drop_bit 20 t"]
  by (simp_all add: slot_consts slot_of_def span_def nslots_def drop_bit_eq_div unat_div_distrib)

lemma bucket_upd [simp]:
  "bucket (w\<lparr>entries := t\<rparr>) = bucket w" "bucket (w\<lparr>jiffies := j\<rparr>) = bucket w"
  "bucket (w\<lparr>next_id := n\<rparr>) = bucket w" "bucket (w\<lparr>w_stats := st\<rparr>) = bucket w"
  by (simp_all add: bucket_def fun_eq_iff)

lemma shape_upd [simp]:
  "shape (w\<lparr>entries := t\<rparr>) = shape w" "shape (w\<lparr>jiffies := j\<rparr>) = shape w"
  "shape (w\<lparr>next_id := n\<rparr>) = shape w" "shape (w\<lparr>w_stats := st\<rparr>) = shape w"
  by (simp_all add: shape_def)

text \<open>Setting one slot, on whatever level.\<close>

definition set_bucket :: "nat \<Rightarrow> nat \<Rightarrow> 'c Entry list \<Rightarrow> 'c TimerWheel \<Rightarrow> 'c TimerWheel" where
  "set_bucket l s es w =
     (if l = 0 then w\<lparr>l0 := (l0 w)[s := es]\<rparr> else if l = 1 then w\<lparr>l1 := (l1 w)[s := es]\<rparr>
      else if l = 2 then w\<lparr>l2 := (l2 w)[s := es]\<rparr> else w\<lparr>l3 := (l3 w)[s := es]\<rparr>)"

lemma set_bucket_fields [simp]:
  "entries (set_bucket l s es w) = entries w" "jiffies (set_bucket l s es w) = jiffies w"
  "next_id (set_bucket l s es w) = next_id w" "w_stats (set_bucket l s es w) = w_stats w"
  "shape (set_bucket l s es w) = shape w"
  by (simp_all add: set_bucket_def shape_def)

lemma bucket_set_bucket:
  assumes "shape w" and "valid l s" and "valid l' s'"
  shows "bucket (set_bucket l s es w) l' s' = (if (l', s') = (l, s) then es else bucket w l' s')"
  using assms by (auto simp: bucket_def set_bucket_def shape_def valid_def nslots_def nth_list_update split: if_splits)

lemma wheel_insert_eq:
  fixes w :: "'c TimerWheel" and e :: "'c Entry"
  defines "l \<equiv> level_for (left (jiffies w) e)"
  defines "s \<equiv> slot_of l (expiry_tick e)"
  shows "wheel_insert e w =
    (set_bucket l s (bucket w l s @ [e]) w)\<lparr>entries := (entries w)(e_id e \<mapsto> (l, s))\<rparr>"
proof -
  have "expiry_tick e - jiffies w < kL0Slots \<longleftrightarrow> left (jiffies w) e < 256"
    "expiry_tick e - jiffies w < kL0Slots * kL1Slots \<longleftrightarrow> left (jiffies w) e < 2 ^ 14"
    "expiry_tick e - jiffies w < kL0Slots * kL1Slots * kL2Slots \<longleftrightarrow> left (jiffies w) e < 2 ^ 20"
    by (simp_all add: slot_consts left_def word_less_nat_alt)
  then show ?thesis
    unfolding wheel_insert_def Let_def slot_expr s_def l_def
    by (simp add: level_for_def set_bucket_def bucket_def push_back_def)
qed

section \<open>The invariant\<close>

definition ents :: "'c TimerWheel \<Rightarrow> 'c Entry set" where
  "ents w = {e. \<exists>l s. valid l s \<and> e \<in> set (bucket w l s)}"

text \<open>
  \<open>loc\<close> is the swapped-out list; the slots in \<open>late\<close> are still to be cascaded in this tick.
\<close>

definition winv :: "'c TimerWheel \<Rightarrow> 'c Entry list \<Rightarrow> (nat \<times> nat) set \<Rightarrow> bool" where
  "winv w loc late \<longleftrightarrow> shape w \<and>
     (\<forall>l s. valid l s \<longrightarrow> distinct (map e_id (bucket w l s)) \<and>
        (\<forall>e\<in>set (bucket w l s). entries w (e_id e) = Some (l, s) \<and>
           ((l, s) \<in> late \<or> home (jiffies w) l s e))) \<and>
     (\<forall>i l s. entries w i = Some (l, s) \<longrightarrow> valid l s \<and> i \<in> e_id ` (set (bucket w l s) \<union> set loc)) \<and>
     distinct (map e_id loc) \<and>
     (\<forall>e\<in>set loc. entries w (e_id e) \<noteq> None \<and> e_id e \<notin> e_id ` ents w)"

lemma ents_upd [simp]:
  "ents (w\<lparr>entries := t\<rparr>) = ents w" "ents (w\<lparr>jiffies := j\<rparr>) = ents w"
  "ents (w\<lparr>next_id := n\<rparr>) = ents w" "ents (w\<lparr>w_stats := st\<rparr>) = ents w"
  by (simp_all add: ents_def)

lemma winv_upd [simp]:
  "winv (w\<lparr>next_id := n\<rparr>) loc late = winv w loc late" "winv (w\<lparr>w_stats := st\<rparr>) loc late = winv w loc late"
  by (simp_all add: winv_def)

lemma winvD:
  assumes "winv w loc late"
  shows "shape w" and "valid l s \<Longrightarrow> distinct (map e_id (bucket w l s))"
    and "valid l s \<Longrightarrow> e \<in> set (bucket w l s) \<Longrightarrow> entries w (e_id e) = Some (l, s)"
    and "valid l s \<Longrightarrow> e \<in> set (bucket w l s) \<Longrightarrow> (l, s) \<notin> late \<Longrightarrow> home (jiffies w) l s e"
    and "entries w i = Some (l, s) \<Longrightarrow> valid l s \<and> i \<in> e_id ` (set (bucket w l s) \<union> set loc)"
    and "distinct (map e_id loc)"
    and "e \<in> set loc \<Longrightarrow> entries w (e_id e) \<noteq> None \<and> e_id e \<notin> e_id ` ents w"
  using assms unfolding winv_def by blast+

lemma ents_known: "winv w loc late \<Longrightarrow> e \<in> ents w \<union> set loc \<Longrightarrow> entries w (e_id e) \<noteq> None"
  by (auto simp: ents_def dest: winvD(3,7))

lemma known_ents:
  assumes inv: "winv w loc late"
  shows "entries w i \<noteq> None \<longleftrightarrow> i \<in> e_id ` (ents w \<union> set loc)"
proof
  show "entries w i \<noteq> None \<Longrightarrow> i \<in> e_id ` (ents w \<union> set loc)"
  proof -
    assume "entries w i \<noteq> None"
    then obtain l s where "entries w i = Some (l, s)" by auto
    from winvD(5) [OF inv this] show ?thesis by (auto simp: ents_def)
  qed
  show "entries w i \<noteq> None" if "i \<in> e_id ` (ents w \<union> set loc)" using that ents_known [OF inv] by auto
qed

lemma home_insert:
  "home now (level_for (left now e)) (slot_of (level_for (left now e)) (expiry_tick e)) e"
  by (auto simp: home_def level_for_def span_def)

lemma level_for_lt [simp]: "level_for r < 4"
  by (simp add: level_for_def)

lemma insert_winv:
  assumes inv: "winv w loc late" and new: "entries w (e_id e) = None"
  shows "winv (wheel_insert e w) loc late" and "ents (wheel_insert e w) = insert e (ents w)"
    and "jiffies (wheel_insert e w) = jiffies w" and "next_id (wheel_insert e w) = next_id w"
proof -
  define l where "l = level_for (left (jiffies w) e)"
  define s where "s = slot_of l (expiry_tick e)"
  let ?w = "wheel_insert e w"
  have eq: "?w = (set_bucket l s (bucket w l s @ [e]) w)\<lparr>entries := (entries w)(e_id e \<mapsto> (l, s))\<rparr>"
    by (simp only: wheel_insert_eq l_def s_def)
  have v: "valid l s" by (simp add: s_def l_def valid_slot_of)
  have b: "bucket ?w l' s' = (if (l', s') = (l, s) then bucket w l s @ [e] else bucket w l' s')"
    if "valid l' s'" for l' s'
    using bucket_set_bucket [OF winvD(1) [OF inv] v that] by (simp add: eq)
  have fresh: "e_id e \<notin> e_id ` (ents w \<union> set loc)" using known_ents [OF inv] new by blast
  have mem: "x \<in> set (bucket ?w l' s') \<longleftrightarrow> x \<in> set (bucket w l' s') \<or> x = e \<and> l' = l \<and> s' = s"
    if "valid l' s'" for l' s' x by (auto simp: b [OF that])
  show ents: "ents ?w = insert e (ents w)"
    unfolding ents_def using v mem by blast
  show j: "jiffies ?w = jiffies w" and "next_id ?w = next_id w" by (simp_all add: eq)
  have en: "entries ?w = (entries w)(e_id e \<mapsto> (l, s))" by (simp add: eq)
  show "winv ?w loc late"
    unfolding winv_def
  proof (intro conjI allI impI ballI)
    show "shape ?w" using winvD(1) [OF inv] by (simp add: eq)
    fix l' s' assume v': "valid l' s'"
    have "e_id e \<notin> e_id ` set (bucket w l' s')" using fresh v' by (auto simp: ents_def)
    then show "distinct (map e_id (bucket ?w l' s'))"
      using winvD(2) [OF inv v'] by (auto simp: b [OF v'])
    fix x assume x: "x \<in> set (bucket ?w l' s')"
    show "entries ?w (e_id x) = Some (l', s')"
      using x winvD(3) [OF inv v', of x] new by (auto simp: b [OF v'] en split: if_splits)
    show "(l', s') \<in> late \<or> home (jiffies ?w) l' s' x"
      using x winvD(4) [OF inv v', of x] home_insert [of "jiffies w" e]
      by (auto simp: b [OF v'] j l_def s_def split: if_splits)
  next
    fix i l' s' assume "entries ?w i = Some (l', s')"
    then show "valid l' s'" and "i \<in> e_id ` (set (bucket ?w l' s') \<union> set loc)"
      using winvD(5) [OF inv, of i l' s'] v by (auto simp: en b split: if_splits)
  next
    show "distinct (map e_id loc)" by (rule winvD(6) [OF inv])
    fix x assume x: "x \<in> set loc"
    then show "entries ?w (e_id x) \<noteq> None" using winvD(7) [OF inv x] by (simp add: en)
    have "e_id x \<noteq> e_id e" using fresh x by (metis UnI2 imageI)
    then show "e_id x \<notin> e_id ` ents ?w" using winvD(7) [OF inv x] by (simp add: ents)
  qed
qed

text \<open>Taking the next entry of the swapped-out list off the table.\<close>

lemma forget_winv:
  assumes inv: "winv w (e # loc) late"
  defines "w' \<equiv> w\<lparr>entries := (entries w)(e_id e := None)\<rparr>"
  shows "winv w' loc late" and "entries w' (e_id e) = None"
proof -
  have e: "e_id e \<notin> e_id ` ents w" using winvD(7) [OF inv, of e] by simp
  have dist: "e_id e \<notin> e_id ` set loc" "distinct (map e_id loc)" using winvD(6) [OF inv] by auto
  show "entries w' (e_id e) = None" by (simp add: w'_def)
  show "winv w' loc late"
    unfolding winv_def
  proof (intro conjI allI impI ballI)
    show "shape w'" using winvD(1) [OF inv] by (simp add: w'_def)
    fix l s assume v: "valid l s"
    show "distinct (map e_id (bucket w' l s))" using winvD(2) [OF inv v] by (simp add: w'_def)
    fix x assume x: "x \<in> set (bucket w' l s)"
    then have "x \<in> ents w" using v by (auto simp: ents_def w'_def)
    then have "e_id x \<noteq> e_id e" using e by (metis imageI)
    then show "entries w' (e_id x) = Some (l, s)"
      using winvD(3) [OF inv v, of x] x by (auto simp: w'_def)
    show "(l, s) \<in> late \<or> home (jiffies w') l s x" using winvD(4) [OF inv v, of x] x by (auto simp: w'_def)
  next
    fix i l s assume "entries w' i = Some (l, s)"
    then show "valid l s" and "i \<in> e_id ` (set (bucket w' l s) \<union> set loc)"
      using winvD(5) [OF inv, of i l s] by (auto simp: w'_def split: if_splits)
  next
    show "distinct (map e_id loc)" by (rule dist)
    fix x assume x: "x \<in> set loc"
    then have "e_id x \<noteq> e_id e" using dist(1) x by (metis imageI)
    then show "entries w' (e_id x) \<noteq> None" using winvD(7) [OF inv, of x] x by (simp add: w'_def)
    show "e_id x \<notin> e_id ` ents w'" using winvD(7) [OF inv, of x] x by (simp add: w'_def)
  qed
qed

lemma swap_winv:
  assumes inv: "winv w [] late" and v: "valid l s"
  shows "winv (set_bucket l s [] w) (bucket w l s) (late - {(l, s)})"
    and "ents w = ents (set_bucket l s [] w) \<union> set (bucket w l s)"
    and "ents (set_bucket l s [] w) = {e \<in> ents w. entries w (e_id e) \<noteq> Some (l, s)}"
proof -
  let ?w = "set_bucket l s [] w"
  have b: "bucket ?w l' s' = (if (l', s') = (l, s) then [] else bucket w l' s')" if "valid l' s'" for l' s'
    by (rule bucket_set_bucket [OF winvD(1) [OF inv] v that])
  have mem: "x \<in> set (bucket ?w l' s') \<longleftrightarrow> x \<in> set (bucket w l' s') \<and> (l', s') \<noteq> (l, s)"
    if "valid l' s'" for l' s' x by (auto simp: b [OF that])
  show "ents w = ents ?w \<union> set (bucket w l s)"
    unfolding ents_def using v mem by blast
  have tab: "entries w (e_id x) = Some (l', s')" if "valid l' s'" "x \<in> set (bucket w l' s')" for l' s' x
    using winvD(3) [OF inv that] .
  show keep: "ents ?w = {e \<in> ents w. entries w (e_id e) \<noteq> Some (l, s)}"
    unfolding ents_def using mem tab by fastforce
  show "winv ?w (bucket w l s) (late - {(l, s)})"
    unfolding winv_def
  proof (intro conjI allI impI ballI)
    show "shape ?w" using winvD(1) [OF inv] by simp
    fix l' s' assume v': "valid l' s'"
    show "distinct (map e_id (bucket ?w l' s'))" using winvD(2) [OF inv v'] by (simp add: b [OF v'])
    fix x assume x: "x \<in> set (bucket ?w l' s')"
    show "entries ?w (e_id x) = Some (l', s')" using x winvD(3) [OF inv v', of x]
      by (auto simp: b [OF v'] split: if_splits)
    show "(l', s') \<in> late - {(l, s)} \<or> home (jiffies ?w) l' s' x"
      using x winvD(4) [OF inv v', of x] by (auto simp: b [OF v'] split: if_splits)
  next
    fix i l' s' assume en: "entries ?w i = Some (l', s')"
    then show "valid l' s'" and "i \<in> e_id ` (set (bucket ?w l' s') \<union> set (bucket w l s))"
      using winvD(5) [OF inv, of i l' s'] by (auto simp: b split: if_splits)
  next
    show "distinct (map e_id (bucket w l s))" by (rule winvD(2) [OF inv v])
    fix x assume x: "x \<in> set (bucket w l s)"
    then show "entries ?w (e_id x) \<noteq> None" using winvD(3) [OF inv v x] by simp
    show "e_id x \<notin> e_id ` ents ?w" using winvD(3) [OF inv v x] by (auto simp: keep)
  qed
qed

lemma reinsert_winv:
  assumes "winv w loc late"
  shows "winv (reinsert loc w) [] late" and "ents (reinsert loc w) = ents w \<union> set loc"
    and "jiffies (reinsert loc w) = jiffies w" and "next_id (reinsert loc w) = next_id w"
proof -
  have "winv (reinsert loc w) [] late \<and> ents (reinsert loc w) = ents w \<union> set loc \<and>
    jiffies (reinsert loc w) = jiffies w \<and> next_id (reinsert loc w) = next_id w"
    using assms
  proof (induction loc arbitrary: w)
    case (Cons e loc)
    note f = forget_winv [OF Cons.prems]
    from Cons.IH [OF insert_winv(1) [OF f]] insert_winv(2-4) [OF f] show ?case by simp
  qed simp
  then show "winv (reinsert loc w) [] late" and "ents (reinsert loc w) = ents w \<union> set loc"
    and "jiffies (reinsert loc w) = jiffies w" and "next_id (reinsert loc w) = next_id w" by auto
qed

lemma cascade_eq:
  assumes "l \<in> {1, 2, 3}"
  shows "\<exists>st. snd (cascade l w) =
    (reinsert (bucket w l (slot_of l (jiffies w))) (set_bucket l (slot_of l (jiffies w)) [] w))\<lparr>w_stats := st\<rparr>"
proof -
  consider "l = 1" | "l = 2" | "l = 3" using assms by blast
  then show ?thesis
  proof cases
    case 1
    show ?thesis unfolding 1 cascade_def Let_def slot_expr
      by (simp add: bucket_def set_bucket_def) (rule exI, rule refl)
  next
    case 2
    show ?thesis unfolding 2 cascade_def Let_def slot_expr
      by (simp add: bucket_def set_bucket_def) (rule exI, rule refl)
  next
    case 3
    show ?thesis unfolding 3 cascade_def Let_def slot_expr
      by (simp add: bucket_def set_bucket_def) (rule exI, rule refl)
  qed
qed

lemma cascade_winv:
  assumes inv: "winv w [] late" and l: "l \<in> {1, 2, 3}"
  shows "winv (snd (cascade l w)) [] (late - {(l, slot_of l (jiffies w))})"
    and "ents (snd (cascade l w)) = ents w" and "jiffies (snd (cascade l w)) = jiffies w"
    and "next_id (snd (cascade l w)) = next_id w"
proof -
  have v: "valid l (slot_of l (jiffies w))" using l by (intro valid_slot_of) auto
  obtain st where eq: "snd (cascade l w) = (reinsert (bucket w l (slot_of l (jiffies w)))
      (set_bucket l (slot_of l (jiffies w)) [] w))\<lparr>w_stats := st\<rparr>" using cascade_eq [OF l] by blast
  note sw = swap_winv [OF inv v]
  note re = reinsert_winv [OF sw(1)]
  show "winv (snd (cascade l w)) [] (late - {(l, slot_of l (jiffies w))})"
    and "ents (snd (cascade l w)) = ents w" and "jiffies (snd (cascade l w)) = jiffies w"
    and "next_id (snd (cascade l w)) = next_id w"
    using re sw(2) by (simp_all add: eq)
qed

section \<open>One tick\<close>

text \<open>The slots that a tick to time \<open>now\<close> cascades.\<close>

definition late_slots :: "u64 \<Rightarrow> (nat \<times> nat) set" where
  "late_slots now = {(l, slot_of l now) | l. l \<in> {1, 2, 3} \<and> span l dvd unat now}"

lemma span_dvd: "span l dvd 2 ^ 64" and span_pos: "0 < span l"
  by (simp_all add: span_def)

lemma unat_succ: "unat ((t :: u64) + 1) = (unat t + 1) mod 2 ^ 64"
  by (simp add: unat_word_ariths)

lemma succ_mod:
  assumes "b dvd 2 ^ 64" and "unat ((t :: u64) + 1) mod b \<noteq> 0"
  shows "unat (t + 1) mod b = unat t mod b + 1"
proof -
  have "unat (t + 1) mod b = Suc (unat t) mod b"
    by (simp only: unat_succ mod_mod_cancel [OF assms(1)] Suc_eq_plus1)
  with assms(2) show ?thesis by (simp add: mod_Suc split: if_splits)
qed

lemma same_turn:
  fixes x t :: u64
  assumes "b dvd 2 ^ 64" and "0 < b" and "b dvd unat t" and "unat (x - t) < b"
  shows "unat x div b = unat t div b"
proof -
  obtain q where q: "unat t = b * q" using assms(3) by blast
  obtain m where m: "2 ^ 64 = b * m" using assms(1) by blast
  have "unat t < b * m" using unat_lt_64 [of t] by (simp flip: m)
  then have "Suc q \<le> m" by (simp add: q)
  then have "b * Suc q \<le> 2 ^ 64" unfolding m by (rule mult_le_mono2)
  then have "unat t + unat (x - t) < 2 ^ 64" using assms(4) unfolding q mult_Suc_right by linarith
  then have "unat x = unat t + unat (x - t)"
    using unat_add_lem [of t "x - t"] by simp
  then show ?thesis using assms(2,4) by (simp add: q)
qed

lemma left_succ: "left now e \<noteq> 0 \<Longrightarrow> left (now + 1) e = left now e - 1"
  unfolding left_def using distance_pop [of "expiry_tick e" now] by (auto simp: unat_eq_0)

lemma left_0: "left now e = 0 \<longleftrightarrow> expiry_tick e = now"
  by (simp add: left_def unat_eq_0)

lemma home_succ:
  assumes "home now l s e" and "left now e \<noteq> 0" and "l < 4"
  shows "(l, s) \<in> late_slots (now + 1) \<or> home (now + 1) l s e"
proof (cases "l = 0")
  case True
  then show ?thesis using assms by (auto simp: home_def left_succ)
next
  case False
  have s: "s = slot_of l (expiry_tick e)" and h: "span l \<le> unat now mod span l + left now e"
    using assms(1) False by (simp_all add: home_def)
  note l1 = left_succ [OF assms(2)]
  show ?thesis
  proof (cases "unat (now + 1) mod span l = 0")
    case False
    then have "unat (now + 1) mod span l = unat now mod span l + 1" by (rule succ_mod [OF span_dvd])
    then show ?thesis using h s l1 assms(2) \<open>l \<noteq> 0\<close> by (simp add: home_def)
  next
    case True
    then have dvd: "span l dvd unat (now + 1)" by auto
    show ?thesis
    proof (cases "left (now + 1) e < span l")
      case True
      then have "unat (expiry_tick e) div span l = unat (now + 1) div span l"
        using dvd by (intro same_turn [OF span_dvd span_pos]) (simp_all add: left_def)
      then have "s = slot_of l (now + 1)" by (simp add: s slot_of_def)
      with dvd \<open>l \<noteq> 0\<close> assms(3) show ?thesis by (auto simp: late_slots_def)
    next
      case False
      then show ?thesis using s \<open>l \<noteq> 0\<close> by (simp add: home_def)
    qed
  qed
qed

lemma advance_jiffies:
  assumes inv: "winv w [] {}" and live: "\<forall>e\<in>ents w. left (jiffies w) e \<noteq> 0"
  shows "winv (w\<lparr>jiffies := jiffies w + 1\<rparr>) [] (late_slots (jiffies w + 1))"
  unfolding winv_def
proof (intro conjI allI impI ballI)
  show "shape (w\<lparr>jiffies := jiffies w + 1\<rparr>)" using winvD(1) [OF inv] by simp
  fix l s assume v: "valid l s"
  show "distinct (map e_id (bucket (w\<lparr>jiffies := jiffies w + 1\<rparr>) l s))" using winvD(2) [OF inv v] by simp
  fix x assume x: "x \<in> set (bucket (w\<lparr>jiffies := jiffies w + 1\<rparr>) l s)"
  then have xb: "x \<in> set (bucket w l s)" by simp
  then show "entries (w\<lparr>jiffies := jiffies w + 1\<rparr>) (e_id x) = Some (l, s)" using winvD(3) [OF inv v] by simp
  have "x \<in> ents w" using xb v by (auto simp: ents_def)
  then show "(l, s) \<in> late_slots (jiffies w + 1) \<or> home (jiffies (w\<lparr>jiffies := jiffies w + 1\<rparr>)) l s x"
    using home_succ [of "jiffies w" l s x] winvD(4) [OF inv v xb] live v by (auto simp: valid_def)
qed (use inv in \<open>auto dest: winvD(5)\<close>)

lemma mask_dvd: "k < 64 \<Longrightarrow> (t AND (2 ^ k - 1) :: u64) = 0 \<longleftrightarrow> 2 ^ k dvd unat t"
  using unat_mask [of k t] by (simp add: dvd_eq_mod_eq_0 unat_eq_0 [symmetric])

text \<open>The wheel after the cascades of a tick, before \<open>fire_slot\<close>.\<close>

definition cascaded :: "'c TimerWheel \<Rightarrow> 'c TimerWheel" where
  "cascaded w =
     (let w = w\<lparr>jiffies := jiffies w + 1\<rparr> in
      if jiffies w AND (kL0Slots - 1) = 0
      then let w = snd (cascade 1 w)
           in if jiffies w AND (kL0Slots * kL1Slots - 1) = 0
              then let w = snd (cascade 2 w)
                   in if jiffies w AND (kL0Slots * kL1Slots * kL2Slots - 1) = 0
                      then snd (cascade 3 w) else w
              else w
      else w)"

lemma tick_eq:
  "tick body st w = fire_slot body (slot_of 0 (jiffies (cascaded w))) st (cascaded w)"
  unfolding tick_def cascaded_def Let_def slot_expr ..

lemma boundary:
  "t AND (kL0Slots - 1) = 0 \<longleftrightarrow> span 1 dvd unat t"
  "t AND (kL0Slots * kL1Slots - 1) = 0 \<longleftrightarrow> span 2 dvd unat t"
  "t AND (kL0Slots * kL1Slots * kL2Slots - 1) = 0 \<longleftrightarrow> span 3 dvd unat t"
  using mask_dvd [of 8 t] mask_dvd [of 14 t] mask_dvd [of 20 t] by (simp_all add: slot_consts span_def)

lemma cascaded_winv:
  assumes inv: "winv w [] {}" and live: "\<forall>e\<in>ents w. left (jiffies w) e \<noteq> 0"
  shows "winv (cascaded w) [] {}" and "ents (cascaded w) = ents w"
    and "jiffies (cascaded w) = jiffies w + 1" and "next_id (cascaded w) = next_id w"
proof -
  let ?j = "jiffies w + 1"
  let ?w0 = "w\<lparr>jiffies := ?j\<rparr>"
  let ?w1 = "snd (cascade 1 ?w0)"
  let ?w2 = "snd (cascade 2 ?w1)"
  let ?w3 = "snd (cascade 3 ?w2)"
  note i0 = advance_jiffies [OF inv live]
  have m: "1 \<in> {1, 2, 3 :: nat}" "2 \<in> {1, 2, 3 :: nat}" "3 \<in> {1, 2, 3 :: nat}" by simp_all
  have c1: "winv ?w1 [] (late_slots ?j - {(1, slot_of 1 ?j)})" "ents ?w1 = ents w" "jiffies ?w1 = ?j"
    "next_id ?w1 = next_id w" using cascade_winv [OF i0 m(1)] by simp_all
  have c2: "winv ?w2 [] (late_slots ?j - {(1, slot_of 1 ?j)} - {(2, slot_of 2 ?j)})" "ents ?w2 = ents w"
    "jiffies ?w2 = ?j" "next_id ?w2 = next_id w" using cascade_winv [OF c1(1) m(2)] c1(2-4) by simp_all
  have c3: "winv ?w3 [] (late_slots ?j - {(1, slot_of 1 ?j)} - {(2, slot_of 2 ?j)} - {(3, slot_of 3 ?j)})"
    "ents ?w3 = ents w" "jiffies ?w3 = ?j" "next_id ?w3 = next_id w"
    using cascade_winv [OF c2(1) m(3)] c2(2-4) by simp_all
  have d12: "span 2 dvd n \<Longrightarrow> span 1 dvd n" and d23: "span 3 dvd n \<Longrightarrow> span 2 dvd n" for n
    by (auto simp: span_def intro: dvd_trans [rotated])
  consider (none) "\<not> span 1 dvd unat ?j" | (one) "span 1 dvd unat ?j" "\<not> span 2 dvd unat ?j"
    | (two) "span 1 dvd unat ?j" "span 2 dvd unat ?j" "\<not> span 3 dvd unat ?j"
    | (three) "span 1 dvd unat ?j" "span 2 dvd unat ?j" "span 3 dvd unat ?j" by blast
  then have "winv (cascaded w) [] {} \<and> ents (cascaded w) = ents w \<and>
    jiffies (cascaded w) = ?j \<and> next_id (cascaded w) = next_id w"
  proof cases
    case none
    then have X: "late_slots ?j = {}" using d12 d23 by (auto simp: late_slots_def)
    have cw: "cascaded w = ?w0" using none by (simp add: cascaded_def Let_def boundary)
    show ?thesis unfolding cw using i0 [unfolded X] by simp
  next
    case one
    then have X: "late_slots ?j - {(1, slot_of 1 ?j)} = {}" using d12 d23 by (auto simp: late_slots_def)
    have cw: "cascaded w = ?w1" using one c1(3) by (simp add: cascaded_def Let_def boundary)
    show ?thesis unfolding cw using c1 [unfolded X] by blast
  next
    case two
    then have X: "late_slots ?j - {(1, slot_of 1 ?j)} - {(2, slot_of 2 ?j)} = {}"
      using d23 by (auto simp: late_slots_def)
    have cw: "cascaded w = ?w2" using two c1(3) c2(3) by (simp add: cascaded_def Let_def boundary)
    show ?thesis unfolding cw using c2 [unfolded X] by blast
  next
    case three
    then have X: "late_slots ?j - {(1, slot_of 1 ?j)} - {(2, slot_of 2 ?j)} - {(3, slot_of 3 ?j)} = {}"
      by (auto simp: late_slots_def)
    have cw: "cascaded w = ?w3" using three c1(3) c2(3) c3(3) by (simp add: cascaded_def Let_def boundary)
    show ?thesis unfolding cw using c3 [unfolded X] by blast
  qed
  then show "winv (cascaded w) [] {}" and "ents (cascaded w) = ents w"
    and "jiffies (cascaded w) = ?j" and "next_id (cascaded w) = next_id w" by auto
qed

text \<open>The slot that a tick fires holds exactly the entries that expire now.\<close>

lemma due_slot:
  assumes inv: "winv w [] {}"
  shows "set (bucket w 0 (slot_of 0 (jiffies w))) = {e \<in> ents w. expiry_tick e = jiffies w}"
proof -
  let ?s = "slot_of 0 (jiffies w)"
  have v: "valid 0 ?s" by (simp add: valid_slot_of)
  have now: "expiry_tick e = jiffies w" if "e \<in> set (bucket w 0 ?s)" for e
  proof -
    have h: "?s = slot_of 0 (expiry_tick e)" "left (jiffies w) e < 256"
      using winvD(4) [OF inv v that] by (simp_all add: home_def)
    have x: "expiry_tick e = jiffies w + of_nat (left (jiffies w) e)" by (simp add: left_def)
    have "(unat (jiffies w) + 0) mod 2 ^ 8 = (unat (jiffies w) + left (jiffies w) e) mod 2 ^ 8"
      using h(1) unat_add_of_nat_mod [of 8 "jiffies w" "left (jiffies w) e"]
      by (simp add: slot_of_def span_def nslots_def flip: x)
    then have "0 = left (jiffies w) e" by (rule mod_add_inj) (use h(2) in simp_all)
    then show ?thesis by (simp add: left_0 [symmetric])
  qed
  have here: "e \<in> set (bucket w 0 ?s)" if en: "e \<in> ents w" and ex: "expiry_tick e = jiffies w" for e
  proof -
    obtain l s where ls: "valid l s" "e \<in> set (bucket w l s)" using en unfolding ents_def by blast
    have h: "home (jiffies w) l s e" using winvD(4) [OF inv ls] by simp
    have z: "left (jiffies w) e = 0" using ex by (simp add: left_0)
    have "l = 0"
    proof (rule ccontr)
      assume "l \<noteq> 0"
      with h z have "span l \<le> unat (jiffies w) mod span l" by (simp add: home_def)
      with mod_less_divisor [OF span_pos, of "unat (jiffies w)" l] show False by simp
    qed
    with h ls(2) ex show ?thesis by (simp add: home_def)
  qed
  show ?thesis using now here v by (auto simp: ents_def)
qed

end
