(* ===== verification/Timer_Spec.thy ===== *)
theory Timer_Spec
  imports Timer_Inv
begin

text \<open>
  What the timer wheel promises: a flat table of timers, of which a tick fires exactly those that
  expire at the new time. The four-level wheel refines the table, callbacks that schedule and
  cancel included.
\<close>

section \<open>The flat table\<close>

record 'c flat =
  now :: u64
  fresh :: u64
  timers :: "u64 \<rightharpoonup> 'c Entry"

text \<open>
  \<open>CancelFiring\<close>: a callback cancels a timer that is due in the same tick and has not run yet.
  \<open>IdReused\<close>: after \<open>2 ^ 64\<close> insertions an id is assigned again while its old timer is alive.
\<close>

datatype spec_error = CancelFiring | IdReused

definition flat_add :: "'c Entry \<Rightarrow> 'c flat \<Rightarrow> spec_error + 'c flat" where
  "flat_add e a = (if timers a (e_id e) \<noteq> None then Inl IdReused
     else Inr (a\<lparr>timers := (timers a)(e_id e \<mapsto> e)\<rparr>))"

definition flat_schedule :: "u64 \<Rightarrow> u64 \<Rightarrow> 'c \<Rightarrow> 'c flat \<Rightarrow> spec_error + (u64 \<times> 'c flat)" where
  "flat_schedule delay interval c a =
     map_sum id (\<lambda>a'. (fresh a, a'))
       (flat_add \<lparr> e_id = fresh a, expiry_tick = now a + delay, interval_ticks = interval, cb = c \<rparr>
         (a\<lparr>fresh := fresh a + 1\<rparr>))"

definition flat_cancel :: "u64 set \<Rightarrow> u64 \<Rightarrow> 'c flat \<Rightarrow> spec_error + (bool \<times> 'c flat)" where
  "flat_cancel firing i a =
     (if timers a i = None then Inr (False, a)
      else if i \<in> firing then Inl CancelFiring
      else Inr (True, a\<lparr>timers := (timers a)(i := None)\<rparr>))"

primrec flat_run :: "('w, 'c) prog \<Rightarrow> u64 set \<Rightarrow> 'c flat \<Rightarrow> spec_error + ('w \<times> 'c flat)" where
  "flat_run (Ret st) firing a = Inr (st, a)"
| "flat_run (Schedule d c k) firing a =
     (case flat_schedule (max 1 d) 0 c a of Inl e \<Rightarrow> Inl e | Inr (i, a') \<Rightarrow> flat_run (k i) firing a')"
| "flat_run (SchedulePeriodic d c k) firing a =
     (case flat_schedule (max 1 d) (max 1 d) c a of
        Inl e \<Rightarrow> Inl e | Inr (i, a') \<Rightarrow> flat_run (k i) firing a')"
| "flat_run (Cancel i k) firing a =
     (case flat_cancel firing i a of Inl e \<Rightarrow> Inl e | Inr (b, a') \<Rightarrow> flat_run (k b) firing a')"

text \<open>Firing a list of due timers; a periodic one is added again behind its callback.\<close>

fun flat_fire :: "('c \<Rightarrow> 'w \<Rightarrow> ('w, 'c) prog) \<Rightarrow> 'c Entry list \<Rightarrow> 'w \<Rightarrow> 'c flat
    \<Rightarrow> spec_error + ('w \<times> 'c flat)" where
  "flat_fire body [] st a = Inr (st, a)"
| "flat_fire body (e # es) st a =
     (case flat_run (body (cb e) st) (e_id ` set es) (a\<lparr>timers := (timers a)(e_id e := None)\<rparr>) of
        Inl err \<Rightarrow> Inl err
      | Inr (st', a1) \<Rightarrow>
          (case (if interval_ticks e \<noteq> 0
                 then flat_add (e\<lparr>expiry_tick := now a1 + interval_ticks e\<rparr>) a1 else Inr a1) of
             Inl err \<Rightarrow> Inl err | Inr a2 \<Rightarrow> flat_fire body es st' a2))"

text \<open>The timers due at the next tick; \<open>order\<close> lists them in the order in which they run.\<close>

definition due :: "'c flat \<Rightarrow> 'c Entry set" where
  "due a = {e \<in> ran (timers a). expiry_tick e = now a + 1}"

definition flat_tick :: "('c \<Rightarrow> 'w \<Rightarrow> ('w, 'c) prog) \<Rightarrow> 'c Entry list \<Rightarrow> 'w \<Rightarrow> 'c flat
    \<Rightarrow> spec_error + (nat \<times> 'w \<times> 'c flat)" where
  "flat_tick body order st a =
     map_sum id (\<lambda>r. (length order, r)) (flat_fire body order st (a\<lparr>now := now a + 1\<rparr>))"

section \<open>Simulation\<close>

definition sim :: "'c TimerWheel \<Rightarrow> 'c Entry list \<Rightarrow> 'c flat \<Rightarrow> bool" where
  "sim w loc a \<longleftrightarrow> winv w loc {} \<and> now a = jiffies w \<and> fresh a = next_id w \<and>
     (\<forall>e\<in>ents w. left (jiffies w) e \<noteq> 0) \<and>
     (\<forall>i e. timers a i = Some e \<longleftrightarrow> e \<in> ents w \<union> set loc \<and> e_id e = i)"

text \<open>The wheel does what the table does, unless ids are reused.\<close>

definition refines :: "('a \<Rightarrow> 'b \<Rightarrow> bool) \<Rightarrow> spec_error + 'a \<Rightarrow> wheel_error + 'b \<Rightarrow> bool" where
  "refines R spec impl = (case spec of
     Inl IdReused \<Rightarrow> True
   | Inl CancelFiring \<Rightarrow> impl = Inl EraseForeign
   | Inr x \<Rightarrow> (case impl of Inl _ \<Rightarrow> False | Inr y \<Rightarrow> R x y))"

lemma refines_simps [simp]:
  "refines R (Inl IdReused) impl" "refines R (Inl CancelFiring) impl \<longleftrightarrow> impl = Inl EraseForeign"
  "refines R (Inr x) (Inr y) \<longleftrightarrow> R x y"
  by (simp_all add: refines_def)

lemma refines_InrE:
  assumes "refines R (Inr x) impl"
  obtains y where "impl = Inr y" and "R x y"
  using assms by (auto simp: refines_def split: sum.splits)

lemma refines_err: "refines R (Inl e) impl \<Longrightarrow> (\<And>err. impl = Inl err \<Longrightarrow> impl' = Inl err) \<Longrightarrow> refines R' (Inl e) impl'"
  by (cases e) auto

lemma sim_known: "sim w loc a \<Longrightarrow> entries w i = None \<longleftrightarrow> timers a i = None"
  using known_ents [of w loc "{}" i] unfolding sim_def by (metis (no_types, lifting) imageE imageI not_None_eq)

lemma sim_timers: "sim w loc a \<Longrightarrow> e \<in> ents w \<union> set loc \<Longrightarrow> timers a (e_id e) = Some e"
  by (simp add: sim_def)

lemma sim_upd [simp]: "sim (w\<lparr>w_stats := st\<rparr>) loc a = sim w loc a"
  by (simp add: sim_def)

lemma sim_add:
  assumes "sim w loc a" and "expiry_tick e \<noteq> jiffies w"
  shows "refines (\<lambda>a' w'. sim w' loc a') (flat_add e a) (Inr (wheel_insert e w))"
proof (cases "timers a (e_id e) = None")
  case True
  have inv: "winv w loc {}" using assms(1) by (simp add: sim_def)
  have new: "entries w (e_id e) = None" using sim_known [OF assms(1)] True by simp
  note ins = insert_winv [OF inv new]
  have "\<forall>x\<in>ents w \<union> set loc. e_id x \<noteq> e_id e" using sim_timers [OF assms(1)] True by (metis option.distinct(1))
  then have "sim (wheel_insert e w) loc (a\<lparr>timers := (timers a)(e_id e \<mapsto> e)\<rparr>)"
    using assms ins True by (auto simp: sim_def left_0)
  with True show ?thesis by (simp add: flat_add_def)
next
  case False
  then show ?thesis by (simp add: flat_add_def)
qed

lemma delay_neq: "t + max 1 d \<noteq> (t :: u64)"
proof -
  have "max 1 d \<noteq> 0" by (auto simp: max_def)
  then show ?thesis by simp
qed

lemma max_delay: "(if d = 0 then 1 else d) = max 1 (d :: u64)"
  by (auto simp: max_def word_le_nat_alt unat_eq_0 Suc_le_eq not_le)

lemma sim_schedule:
  assumes "sim w loc a"
  shows "refines (\<lambda>(i, a') (i', w'). i = i' \<and> sim w' loc a') (flat_schedule (max 1 d) 0 c a) (Inr (schedule d c w))"
    and "refines (\<lambda>(i, a') (i', w'). i = i' \<and> sim w' loc a') (flat_schedule (max 1 d) (max 1 d) c a)
      (Inr (schedule_periodic d c w))"
proof -
  have s: "sim (w\<lparr>next_id := next_id w + 1\<rparr>) loc (a\<lparr>fresh := fresh a + 1\<rparr>)"
    and f: "fresh a = next_id w" "now a = jiffies w"
    using assms by (simp_all add: sim_def)
  have gen: "refines (\<lambda>(i, a') (i', w'). i = i' \<and> sim w' loc a') (flat_schedule (max 1 d) iv c a)
     (Inr (next_id w, count_inserted (wheel_insert \<lparr> e_id = next_id w, expiry_tick = jiffies w + max 1 d,
        interval_ticks = iv, cb = c \<rparr> (w\<lparr>next_id := next_id w + 1\<rparr>))))" for iv
    using sim_add [OF s, of "\<lparr> e_id = next_id w, expiry_tick = jiffies w + max 1 d, interval_ticks = iv, cb = c \<rparr>"]
      delay_neq [of "jiffies w" d]
    by (auto simp: flat_schedule_def f count_inserted_def refines_def split: sum.splits spec_error.splits)
  show "refines (\<lambda>(i, a') (i', w'). i = i' \<and> sim w' loc a') (flat_schedule (max 1 d) 0 c a) (Inr (schedule d c w))"
    using gen [of 0] unfolding schedule_def Let_def max_delay by simp
  show "refines (\<lambda>(i, a') (i', w'). i = i' \<and> sim w' loc a') (flat_schedule (max 1 d) (max 1 d) c a)
      (Inr (schedule_periodic d c w))"
    using gen [of "max 1 d"] unfolding schedule_periodic_def Let_def max_delay by simp
qed

lemma cancel_eq:
  assumes "entries w i = Some (l, s)" and "l < 4"
  shows "\<exists>st. cancel i w = (if i \<in> e_id ` set (bucket w l s)
    then Inr (True, (set_bucket l s (filter (\<lambda>e. e_id e \<noteq> i) (bucket w l s)) w)
      \<lparr>entries := (entries w)(i := None), w_stats := st\<rparr>)
    else Inl EraseForeign)"
proof -
  consider "l = 0" | "l = 1" | "l = 2" | "l = 3" using assms(2) by linarith
  then show ?thesis
  proof cases
    case 1
    show ?thesis using assms(1) unfolding 1 cancel_def erase_node_def
      by (simp add: bucket_def set_bucket_def) (rule impI, rule exI, rule refl)
  next
    case 2
    show ?thesis using assms(1) unfolding 2 cancel_def erase_node_def
      by (simp add: bucket_def set_bucket_def) (rule impI, rule exI, rule refl)
  next
    case 3
    show ?thesis using assms(1) unfolding 3 cancel_def erase_node_def
      by (simp add: bucket_def set_bucket_def) (rule impI, rule exI, rule refl)
  next
    case 4
    show ?thesis using assms(1) unfolding 4 cancel_def erase_node_def
      by (simp add: bucket_def set_bucket_def) (rule impI, rule exI, rule refl)
  qed
qed

lemma remove_winv:
  assumes inv: "winv w loc {}" and en: "entries w i = Some (l, s)" and i: "i \<in> e_id ` set (bucket w l s)"
  defines "w' \<equiv> (set_bucket l s (filter (\<lambda>e. e_id e \<noteq> i) (bucket w l s)) w)\<lparr>entries := (entries w)(i := None)\<rparr>"
  shows "winv w' loc {}" and "ents w' = {e \<in> ents w. e_id e \<noteq> i}"
proof -
  have v: "valid l s" using winvD(5) [OF inv en] by simp
  have b: "bucket w' l' s' = filter (\<lambda>e. e_id e \<noteq> i) (bucket w l' s')" if v': "valid l' s'" for l' s'
  proof (cases "(l', s') = (l, s)")
    case True
    then show ?thesis using bucket_set_bucket [OF winvD(1) [OF inv] v v'] by (simp add: w'_def)
  next
    case False
    then have "\<forall>e\<in>set (bucket w l' s'). e_id e \<noteq> i" using winvD(3) [OF inv v'] en by fastforce
    then show ?thesis using bucket_set_bucket [OF winvD(1) [OF inv] v v'] False by (simp add: w'_def)
  qed
  show ents: "ents w' = {e \<in> ents w. e_id e \<noteq> i}" unfolding ents_def using b by fastforce
  show "winv w' loc {}"
    unfolding winv_def
  proof (intro conjI allI impI ballI)
    show "shape w'" using winvD(1) [OF inv] by (simp add: w'_def)
    fix l' s' assume v': "valid l' s'"
    show "distinct (map e_id (bucket w' l' s'))"
      using winvD(2) [OF inv v'] by (simp add: b [OF v'] distinct_map_filter)
    fix x assume x: "x \<in> set (bucket w' l' s')"
    then have "x \<in> set (bucket w l' s')" "e_id x \<noteq> i" by (simp_all add: b [OF v'])
    then show "entries w' (e_id x) = Some (l', s')" using winvD(3) [OF inv v'] by (simp add: w'_def)
    show "(l', s') \<in> {} \<or> home (jiffies w') l' s' x"
      using winvD(4) [OF inv v', of x] x by (simp add: b [OF v']) (simp add: w'_def)
  next
    fix j l' s' assume "entries w' j = Some (l', s')"
    then have j: "j \<noteq> i" "entries w j = Some (l', s')" by (simp_all add: w'_def split: if_splits)
    from winvD(5) [OF inv j(2)] show v': "valid l' s'" and "j \<in> e_id ` (set (bucket w' l' s') \<union> set loc)"
      using j(1) b by auto
  next
    show "distinct (map e_id loc)" by (rule winvD(6) [OF inv])
    fix x assume x: "x \<in> set loc"
    have "i \<in> e_id ` ents w" using i v by (auto simp: ents_def)
    then have "e_id x \<noteq> i" using winvD(7) [OF inv x] by auto
    then show "entries w' (e_id x) \<noteq> None" using winvD(7) [OF inv x] by (simp add: w'_def)
    show "e_id x \<notin> e_id ` ents w'" using winvD(7) [OF inv x] by (auto simp: ents)
  qed
qed

lemma sim_cancel:
  assumes sim: "sim w loc a"
  shows "refines (\<lambda>(b, a') (b', w'). b = b' \<and> sim w' loc a') (flat_cancel (e_id ` set loc) i a) (cancel i w)"
proof (cases "entries w i")
  case None
  then show ?thesis using sim by (simp add: flat_cancel_def cancel_def flip: sim_known [OF sim])
next
  case (Some p)
  obtain l s where en: "entries w i = Some (l, s)" using Some by (cases p) simp
  have inv: "winv w loc {}" using sim by (simp add: sim_def)
  note v = winvD(5) [OF inv en]
  have known: "timers a i \<noteq> None" using en by (simp flip: sim_known [OF sim])
  obtain st where c: "cancel i w = (if i \<in> e_id ` set (bucket w l s)
      then Inr (True, (set_bucket l s (filter (\<lambda>e. e_id e \<noteq> i) (bucket w l s)) w)
        \<lparr>entries := (entries w)(i := None), w_stats := st\<rparr>) else Inl EraseForeign)"
    using cancel_eq [OF en] v by (auto simp: valid_def)
  show ?thesis
  proof (cases "i \<in> e_id ` set (bucket w l s)")
    case True
    have "i \<in> e_id ` ents w" using True v by (auto simp: ents_def)
    then have nf: "i \<notin> e_id ` set loc" using winvD(7) [OF inv] by (metis imageE)
    let ?w = "(set_bucket l s (filter (\<lambda>e. e_id e \<noteq> i) (bucket w l s)) w)\<lparr>entries := (entries w)(i := None)\<rparr>"
    note r = remove_winv [OF inv en True]
    have "sim ?w loc (a\<lparr>timers := (timers a)(i := None)\<rparr>)"
      using sim r nf unfolding sim_def by auto
    then have "sim (?w\<lparr>w_stats := st\<rparr>) loc (a\<lparr>timers := (timers a)(i := None)\<rparr>)" by (simp only: sim_upd)
    then show ?thesis using True c nf known by (simp add: flat_cancel_def)
  next
    case False
    then have "i \<in> e_id ` set loc" using v by auto
    then show ?thesis using False c known by (auto simp: flat_cancel_def)
  qed
qed

lemma sim_run:
  "sim w loc a \<Longrightarrow>
    refines (\<lambda>(st, a') (st', w'). st = st' \<and> sim w' loc a') (flat_run p (e_id ` set loc) a) (run_prog p w)"
proof (induction p arbitrary: w a)
  case (Ret x)
  then show ?case by simp
next
  case (Schedule d c k)
  obtain i w' where s: "schedule d c w = (i, w')" by force
  show ?case
  proof (cases "flat_schedule (max 1 d) 0 c a")
    case (Inl e)
    then show ?thesis using sim_schedule(1) [OF Schedule.prems, of d c] by (cases e) simp_all
  next
    case (Inr r)
    then have "fst r = i" "sim w' loc (snd r)"
      using sim_schedule(1) [OF Schedule.prems, of d c] s by (auto simp: case_prod_beta)
    with Schedule.IH [OF rangeI, of w' "snd r" i] Inr s show ?thesis by (simp add: case_prod_beta)
  qed
next
  case (SchedulePeriodic d c k)
  obtain i w' where s: "schedule_periodic d c w = (i, w')" by force
  show ?case
  proof (cases "flat_schedule (max 1 d) (max 1 d) c a")
    case (Inl e)
    then show ?thesis using sim_schedule(2) [OF SchedulePeriodic.prems, of d c] by (cases e) simp_all
  next
    case (Inr r)
    then have "fst r = i" "sim w' loc (snd r)"
      using sim_schedule(2) [OF SchedulePeriodic.prems, of d c] s by (auto simp: case_prod_beta)
    with SchedulePeriodic.IH [OF rangeI, of w' "snd r" i] Inr s show ?thesis by (simp add: case_prod_beta)
  qed
next
  case (Cancel i k)
  note c = sim_cancel [OF Cancel.prems, of i]
  show ?case
  proof (cases "flat_cancel (e_id ` set loc) i a")
    case (Inl e)
    then show ?thesis using c by (cases e) simp_all
  next
    case (Inr r)
    with c obtain w' where w': "cancel i w = Inr (fst r, w')" "sim w' loc (snd r)"
      by (auto elim!: refines_InrE)
    with Cancel.IH [OF rangeI, of w' "snd r" "fst r"] Inr show ?thesis by (simp add: case_prod_beta)
  qed
qed

lemma sim_forget:
  assumes "sim w (e # es) a"
  shows "sim (w\<lparr>entries := (entries w)(e_id e := None)\<rparr>) es (a\<lparr>timers := (timers a)(e_id e := None)\<rparr>)"
proof -
  have inv: "winv w (e # es) {}" using assms by (simp add: sim_def)
  have "e_id x \<noteq> e_id e" if "x \<in> ents w \<union> set es" for x
    using winvD(6) [OF inv] winvD(7) [OF inv, of e] that by (metis (no_types, lifting) Un_iff distinct.simps(2) imageI list.set_intros(1) list.set_map list.simps(9))
  then show ?thesis using assms forget_winv(1) [OF inv] by (auto simp: sim_def)
qed

lemma sim_fire:
  "sim w loc a \<Longrightarrow>
    refines (\<lambda>(st, a') (st', w'). st = st' \<and> sim w' [] a') (flat_fire body loc st a) (fire_list body loc st w)"
proof (induction loc arbitrary: w a st)
  case Nil
  then show ?case by simp
next
  case (Cons e es)
  let ?w = "w\<lparr>entries := (entries w)(e_id e := None)\<rparr>" and ?a = "a\<lparr>timers := (timers a)(e_id e := None)\<rparr>"
  note run = sim_run [OF sim_forget [OF Cons.prems], of "body (cb e) st"]
  show ?case
  proof (cases "flat_run (body (cb e) st) (e_id ` set es) ?a")
    case (Inl err)
    then show ?thesis using run by (cases err) simp_all
  next
    case (Inr r)
    obtain st1 a1 where r: "r = (st1, a1)" by force
    with run Inr obtain w1 where w1: "run_prog (body (cb e) st) ?w = Inr (st1, w1)" "sim w1 es a1"
      by (auto elim!: refines_InrE)
    let ?w2 = "w1\<lparr>w_stats := (w_stats w1)\<lparr>fired := fired (w_stats w1) + 1\<rparr>\<rparr>"
    let ?e = "e\<lparr>expiry_tick := jiffies ?w2 + interval_ticks e\<rparr>"
    have s2: "sim ?w2 es a1" using w1(2) by simp
    have now: "now a1 = jiffies ?w2" using s2 by (simp add: sim_def)
    show ?thesis
    proof (cases "interval_ticks e = 0")
      case True
      then show ?thesis using Cons.IH [OF s2, of st1] Inr r w1(1) by simp
    next
      case False
      then have "refines (\<lambda>a' w'. sim w' es a') (flat_add ?e a1) (Inr (wheel_insert ?e ?w2))"
        using sim_add [OF s2, of ?e] by simp
      then show ?thesis
        using Cons.IH [of "wheel_insert ?e ?w2" _ st1] Inr r w1(1) False now
        by (cases "flat_add ?e a1") (auto simp: refines_def split: spec_error.splits)
    qed
  qed
qed

text \<open>The order in which a wheel runs what is due.\<close>

definition firing_order :: "'c TimerWheel \<Rightarrow> 'c Entry list" where
  "firing_order w = bucket (cascaded w) 0 (slot_of 0 (jiffies w + 1))"

lemma sim_ran: "sim w [] a \<Longrightarrow> ran (timers a) = ents w"
  by (auto simp: sim_def ran_def)

lemma firing_order_due:
  assumes "sim w [] a"
  shows "set (firing_order w) = due a" and "distinct (map e_id (firing_order w))"
proof -
  have inv: "winv w [] {}" "\<forall>e\<in>ents w. left (jiffies w) e \<noteq> 0" and now: "now a = jiffies w"
    using assms by (simp_all add: sim_def)
  note c = cascaded_winv [OF inv]
  show "set (firing_order w) = due a"
    using due_slot [OF c(1)] sim_ran [OF assms] by (simp add: firing_order_def due_def c(2,3) now)
  show "distinct (map e_id (firing_order w))"
    unfolding firing_order_def by (rule winvD(2) [OF c(1)]) (simp add: valid_slot_of)
qed

lemma sim_swap:
  assumes "sim w [] a"
  shows "sim (set_bucket 0 (slot_of 0 (jiffies w + 1)) [] (cascaded w)) (firing_order w) (a\<lparr>now := now a + 1\<rparr>)"
proof -
  have inv: "winv w [] {}" "\<forall>e\<in>ents w. left (jiffies w) e \<noteq> 0" using assms by (simp_all add: sim_def)
  note c = cascaded_winv [OF inv]
  let ?s = "slot_of 0 (jiffies w + 1)"
  have v: "valid 0 ?s" by (simp add: valid_slot_of)
  note sw = swap_winv [OF c(1) v]
  have "left (jiffies w + 1) e \<noteq> 0" if e: "e \<in> ents (set_bucket 0 ?s [] (cascaded w))" for e
  proof
    assume "left (jiffies w + 1) e = 0"
    then have "expiry_tick e = jiffies (cascaded w)" by (simp add: left_0 c(3))
    then have "e \<in> set (bucket (cascaded w) 0 ?s)"
      using due_slot [OF c(1)] e by (simp add: sw(3) c(3))
    with winvD(3) [OF c(1) v] e show False by (simp add: sw(3))
  qed
  moreover have "ents w = ents (set_bucket 0 ?s [] (cascaded w)) \<union> set (firing_order w)"
    using sw(2) by (simp only: c(2) firing_order_def)
  ultimately show ?thesis
    using assms sw(1) unfolding sim_def by (simp add: c(3,4) firing_order_def)
qed

lemma bucket_0: "bucket w 0 s = l0 w ! s"
  and set_bucket_0: "set_bucket 0 s es w = w\<lparr>l0 := (l0 w)[s := es]\<rparr>"
  by (simp_all add: bucket_def set_bucket_def)

lemma sim_tick:
  assumes "sim w [] a"
  shows "refines (\<lambda>(n, st, a') (n', st', w'). n = n' \<and> st = st' \<and> sim w' [] a')
    (flat_tick body (firing_order w) st a) (tick body st w)"
proof -
  have inv: "winv w [] {}" "\<forall>e\<in>ents w. left (jiffies w) e \<noteq> 0" using assms by (simp_all add: sim_def)
  note c = cascaded_winv [OF inv]
  have "tick body st w = (case fire_list body (firing_order w) st
      (set_bucket 0 (slot_of 0 (jiffies w + 1)) [] (cascaded w)) of
        Inl err \<Rightarrow> Inl err | Inr (st', w') \<Rightarrow> Inr (length (firing_order w), st', w'))"
    unfolding firing_order_def tick_eq fire_slot_def c(3) Let_def bucket_0 set_bucket_0 ..
  then show ?thesis
    using sim_fire [OF sim_swap [OF assms], of body st]
    by (auto simp: flat_tick_def refines_def split: sum.splits spec_error.splits)
qed

end
