(* ===== verification/Timer_Props.thy ===== *)
theory Timer_Props
  imports Timer_Spec
begin

text \<open>
  The properties of a tick of the timer wheel: it refines the flat table, whatever the callbacks schedule and
  cancel, and what happens when they cancel a timer that is due.
\<close>

section \<open>The table a wheel stands for\<close>

definition wheel_ok :: "'c TimerWheel \<Rightarrow> bool" where
  "wheel_ok w \<longleftrightarrow> winv w [] {} \<and> (\<forall>e\<in>ents w. left (jiffies w) e \<noteq> 0)"

definition table :: "'c TimerWheel \<Rightarrow> 'c flat" where
  "table w = \<lparr> now = jiffies w, fresh = next_id w,
     timers = (\<lambda>i. case entries w i of None \<Rightarrow> None
       | Some (l, s) \<Rightarrow> List.find (\<lambda>e. e_id e = i) (bucket w l s)) \<rparr>"

lemma find_unique:
  assumes "distinct (map f xs)" and "x \<in> set xs"
  shows "List.find (\<lambda>y. f y = f x) xs = Some x"
  using assms by (induction xs) (auto simp: rev_image_eqI)

lemma table_sim:
  assumes "wheel_ok w"
  shows "sim w [] (table w)"
proof -
  have inv: "winv w [] {}" using assms by (simp add: wheel_ok_def)
  have "timers (table w) i = Some e \<longleftrightarrow> e \<in> ents w \<and> e_id e = i" for i e
  proof
    assume "timers (table w) i = Some e"
    then obtain l s where en: "entries w i = Some (l, s)" and f: "List.find (\<lambda>e. e_id e = i) (bucket w l s) = Some e"
      by (auto simp: table_def split: option.splits)
    have "e \<in> set (bucket w l s)" "e_id e = i" using f by (auto simp: find_Some_iff)
    with winvD(5) [OF inv en] show "e \<in> ents w \<and> e_id e = i" by (auto simp: ents_def)
  next
    assume e: "e \<in> ents w \<and> e_id e = i"
    then obtain l s where ls: "valid l s" "e \<in> set (bucket w l s)" unfolding ents_def by blast
    from find_unique [OF winvD(2) [OF inv ls(1)] ls(2)] winvD(3) [OF inv ls] e
    show "timers (table w) i = Some e" by (auto simp: table_def)
  qed
  then show ?thesis using assms by (simp add: sim_def wheel_ok_def table_def)
qed

lemma sim_table: "sim w [] a \<longleftrightarrow> wheel_ok w \<and> a = table w"
proof
  assume s: "sim w [] a"
  then have ok: "wheel_ok w" by (simp add: sim_def wheel_ok_def)
  have "timers a = timers (table w)"
    using s table_sim [OF ok] unfolding sim_def fun_eq_iff by (metis not_None_eq)
  with s table_sim [OF ok] ok show "wheel_ok w \<and> a = table w" by (simp add: sim_def)
qed (simp add: table_sim)

lemma new_wheel_ok: "wheel_ok (new_TimerWheel ns :: 'c TimerWheel)"
proof -
  let ?w = "new_TimerWheel ns :: 'c TimerWheel"
  have b: "bucket ?w l s = []" if "valid l s" for l s
    using that by (auto simp: bucket_def new_TimerWheel_def valid_def nslots_def split: if_splits)
  then have e: "ents ?w = {}" by (auto simp: ents_def)
  have "entries ?w = (\<lambda>_. None)" "shape ?w" by (simp_all add: new_TimerWheel_def shape_def)
  with b e show "wheel_ok ?w" by (simp add: wheel_ok_def winv_def)
qed

lemma new_wheel_empty: "timers (table (new_TimerWheel ns)) i = None"
  by (simp add: table_def new_TimerWheel_def)

section \<open>Callbacks that leave the wheel alone\<close>

definition quiet :: "('c \<Rightarrow> 'w \<Rightarrow> 'w) \<Rightarrow> 'c \<Rightarrow> 'w \<Rightarrow> ('w, 'c) prog" where
  "quiet f c st = Ret (f c st)"

definition log_cb :: "'c \<Rightarrow> 'c list \<Rightarrow> 'c list" where "log_cb c l = l @ [c]"

section \<open>Scheduling and cancelling, seen in the table\<close>

lemma flat_schedule_eq:
  "timers a (fresh a) = None \<Longrightarrow> flat_schedule d iv c a = Inr (fresh a, a\<lparr>fresh := fresh a + 1,
     timers := (timers a)(fresh a \<mapsto> \<lparr> e_id = fresh a, expiry_tick = now a + d, interval_ticks = iv, cb = c \<rparr>)\<rparr>)"
  by (simp add: flat_schedule_def flat_add_def)

lemma schedule_table:
  assumes "wheel_ok w" and "timers (table w) (next_id w) = None"
  shows "\<exists>w'. schedule d c w = (next_id w, w') \<and> wheel_ok w' \<and> jiffies w' = jiffies w \<and>
      timers (table w') = (timers (table w))(next_id w \<mapsto> \<lparr> e_id = next_id w, expiry_tick = jiffies w + max 1 d,
        interval_ticks = 0, cb = c \<rparr>)"
    and "\<exists>w'. schedule_periodic d c w = (next_id w, w') \<and> wheel_ok w' \<and> jiffies w' = jiffies w \<and>
      timers (table w') = (timers (table w))(next_id w \<mapsto> \<lparr> e_id = next_id w, expiry_tick = jiffies w + max 1 d,
        interval_ticks = max 1 d, cb = c \<rparr>)"
proof -
  note s = sim_schedule [OF table_sim [OF assms(1)], of d c]
  have f: "fresh (table w) = next_id w" "now (table w) = jiffies w" by (simp_all add: table_def)
  have free: "timers (table w) (fresh (table w)) = None" using assms(2) by (simp add: f)
  have out: "\<exists>w'. x = (next_id w, w') \<and> wheel_ok w' \<and> jiffies w' = jiffies w \<and> timers (table w') = T"
    if r: "refines (\<lambda>(i, a') (i', w'). i = i' \<and> sim w' [] a')
      (Inr (next_id w, (table w)\<lparr>fresh := next_id w + 1, timers := T\<rparr>)) (Inr x)" for x and T
  proof -
    obtain w' where x: "x = (next_id w, w')" and "sim w' [] ((table w)\<lparr>fresh := next_id w + 1, timers := T\<rparr>)"
      using r by auto
    then have w': "wheel_ok w'" "(table w)\<lparr>fresh := next_id w + 1, timers := T\<rparr> = table w'"
      by (simp_all add: sim_table)
    have "jiffies w' = jiffies w" using arg_cong [OF w'(2), of now] by (simp add: table_def)
    moreover have "timers (table w') = T" using arg_cong [OF w'(2), of timers] by simp
    ultimately show ?thesis using x w'(1) by blast
  qed
  show "\<exists>w'. schedule d c w = (next_id w, w') \<and> wheel_ok w' \<and> jiffies w' = jiffies w \<and>
      timers (table w') = (timers (table w))(next_id w \<mapsto> \<lparr> e_id = next_id w, expiry_tick = jiffies w + max 1 d,
        interval_ticks = 0, cb = c \<rparr>)"
    using s(1) unfolding flat_schedule_eq [OF free] f by (rule out)
  show "\<exists>w'. schedule_periodic d c w = (next_id w, w') \<and> wheel_ok w' \<and> jiffies w' = jiffies w \<and>
      timers (table w') = (timers (table w))(next_id w \<mapsto> \<lparr> e_id = next_id w, expiry_tick = jiffies w + max 1 d,
        interval_ticks = max 1 d, cb = c \<rparr>)"
    using s(2) unfolding flat_schedule_eq [OF free] f by (rule out)
qed

lemma cancel_table:
  assumes "wheel_ok w"
  shows "\<exists>w'. cancel i w = Inr (timers (table w) i \<noteq> None, w') \<and> wheel_ok w' \<and> jiffies w' = jiffies w \<and>
    next_id w' = next_id w \<and> timers (table w') = (timers (table w))(i := None)"
proof -
  let ?b = "timers (table w) i \<noteq> None" and ?T = "(timers (table w))(i := None)"
  have "flat_cancel {} i (table w) = Inr (?b, (table w)\<lparr>timers := ?T\<rparr>)"
    by (cases "table w") (auto simp: flat_cancel_def)
  with sim_cancel [OF table_sim [OF assms], of i] obtain w' where
    c: "cancel i w = Inr (?b, w')" and "sim w' [] ((table w)\<lparr>timers := ?T\<rparr>)"
    by (auto elim!: refines_InrE)
  then have w': "wheel_ok w'" "(table w)\<lparr>timers := ?T\<rparr> = table w'" by (simp_all add: sim_table)
  have "jiffies w' = jiffies w" "next_id w' = next_id w" "timers (table w') = ?T"
    using arg_cong [OF w'(2), of now] arg_cong [OF w'(2), of fresh] arg_cong [OF w'(2), of timers]
    by (simp_all add: table_def)
  with c w'(1) show ?thesis by blast
qed

section \<open>Properties\<close>

definition sample_wheel :: "nat TimerWheel" where
  "sample_wheel = snd (schedule_periodic 1 8 (snd (schedule 1 7 (new_TimerWheel 1000000))))"

lemma sample_wheel_ok: "wheel_ok sample_wheel"
proof -
  let ?w = "snd (schedule 1 7 (new_TimerWheel 1000000 :: nat TimerWheel))"
  have "wheel_ok ?w" using schedule_table(1) [OF new_wheel_ok new_wheel_empty] by (metis snd_conv)
  moreover have "timers (table ?w) (next_id ?w) = None" by code_simp
  ultimately show ?thesis unfolding sample_wheel_def using schedule_table(2) by (metis snd_conv)
qed

text \<open>
  C14. A tick of the four-level wheel is a tick of a flat table of timers: the timers that run
  are exactly those that expire at the new time, each once; with callbacks that schedule and
  cancel as they like, the number of runs, the client's state and the timers pending
  afterwards are those of the table. The two ways out are a callback that cancels a timer due
  in the same tick, which is undefined behaviour in the wheel, and the reuse of a live id
  after \<open>2 ^ 64\<close> insertions.
\<close>

theorem wheel_tick_refines:
  assumes "wheel_ok w"
  shows "set (firing_order w) = due (table w) \<and> distinct (map e_id (firing_order w)) \<and>
    refines (\<lambda>(n, st, a) (n', st', w'). n = n' \<and> st = st' \<and> wheel_ok w' \<and> a = table w')
      (flat_tick body (firing_order w) st (table w)) (tick body st w)"
proof -
  note s = table_sim [OF assms]
  show ?thesis using firing_order_due [OF s] sim_tick [OF s, of body st] by (simp add: sim_table)
qed

theorem wheel_tick_refines_witness:
  "\<exists>w'. tick (quiet log_cb) [] sample_wheel = Inr (2, [7, 8], w') \<and> wheel_ok w' \<and>
     distinct (map e_id (firing_order sample_wheel))"
proof -
  have f: "map_sum id (\<lambda>(n, st, a). (n, st)) (flat_tick (quiet log_cb) (firing_order sample_wheel) [] (table sample_wheel))
      = Inr (2, [7, 8])" by code_simp
  then obtain a where "flat_tick (quiet log_cb) (firing_order sample_wheel) [] (table sample_wheel) = Inr (2, [7, 8], a)"
    by (cases "flat_tick (quiet log_cb) (firing_order sample_wheel) [] (table sample_wheel)") auto
  with wheel_tick_refines [OF sample_wheel_ok, of "quiet log_cb" "[]"] show ?thesis
    by (auto elim!: refines_InrE)
qed

text \<open>
  A periodic timer cannot cancel itself: when the timer's callback calls \<open>cancel\<close> with its
  own id, the call returns \<open>false\<close>, because the entry has already left the table, and the
  timer is scheduled again for its next period.
\<close>

theorem self_cancel_ineffective:
  assumes "wheel_ok w" and "firing_order w = [e]" and "interval_ticks e \<noteq> 0"
    and "body (cb e) st = Cancel (e_id e) Ret"
  shows "\<exists>w'. tick body st w = Inr (1, False, w') \<and> wheel_ok w' \<and>
    timers (table w') (e_id e) = Some (e\<lparr>expiry_tick := jiffies w + 1 + interval_ticks e\<rparr>)"
proof -
  note s = table_sim [OF assms(1)]
  have now: "now (table w) = jiffies w" by (simp add: table_def)
  let ?e = "e\<lparr>expiry_tick := jiffies w + 1 + interval_ticks e\<rparr>"
  have "flat_tick body (firing_order w) st (table w) = Inr (1, False,
      (table w)\<lparr>now := jiffies w + 1, timers := (timers (table w))(e_id e \<mapsto> ?e)\<rparr>)"
    using assms(3,4) by (simp add: assms(2) flat_tick_def flat_cancel_def flat_add_def now)
  with sim_tick [OF s, of body st] obtain w' where t: "tick body st w = Inr (1, False, w')"
    and "sim w' [] ((table w)\<lparr>now := jiffies w + 1, timers := (timers (table w))(e_id e \<mapsto> ?e)\<rparr>)"
    by (auto elim!: refines_InrE)
  then have w': "wheel_ok w'"
    "(table w)\<lparr>now := jiffies w + 1, timers := (timers (table w))(e_id e \<mapsto> ?e)\<rparr> = table w'"
    by (simp_all add: sim_table)
  then have "timers (table w') (e_id e) = Some ?e" by (simp flip: w'(2))
  with t w'(1) show ?thesis by blast
qed

theorem self_cancel_ineffective_witness:
  "\<exists>w'. tick (\<lambda>c st. Cancel 1 Ret) True (snd (schedule_periodic 1 (8 :: nat) (new_TimerWheel 1000000)))
     = Inr (1, False, w') \<and> timers (table w') 1 \<noteq> None"
proof -
  let ?v = "new_TimerWheel 1000000 :: nat TimerWheel" and ?w = "snd (schedule_periodic 1 8 (new_TimerWheel 1000000 :: nat TimerWheel))"
  let ?e = "\<lparr> e_id = 1, expiry_tick = 1, interval_ticks = 1, cb = 8 :: nat \<rparr>"
  have ok: "wheel_ok ?w" using schedule_table(2) [of ?v 1 8, OF new_wheel_ok new_wheel_empty] by auto
  have fo: "firing_order ?w = [?e]" by code_simp
  from self_cancel_ineffective [OF ok fo, of "\<lambda>c st. Cancel 1 Ret" True] show ?thesis by auto
qed

text \<open>
  C39. A callback must not cancel a timer that is due in the same tick: it would be erased
  through the wrong list, since the slot has been swapped out.
\<close>

theorem cancel_due_sibling_undefined:
  assumes "wheel_ok w" and "firing_order w = e # e' # es" and "body (cb e) st = Cancel (e_id e') k"
  shows "tick body st w = Inl EraseForeign"
proof -
  note s = table_sim [OF assms(1)]
  have d: "e' \<in> due (table w)" "e_id e' \<noteq> e_id e" using firing_order_due [OF s] assms(2) by auto
  have "timers (table w) (e_id e') \<noteq> None"
    using d(1) sim_ran [OF s] sim_timers [OF s, of e'] by (auto simp: due_def)
  then have "flat_tick body (firing_order w) st (table w) = Inl CancelFiring"
    using assms(3) d(2) by (auto simp: assms(2) flat_tick_def flat_cancel_def)
  with sim_tick [OF s, of body st] show ?thesis by simp
qed

theorem cancel_due_sibling_undefined_witness:
  "tick (\<lambda>c st. if c = 7 then Cancel 2 Ret else Ret st) True sample_wheel = Inl EraseForeign"
proof -
  have fo: "firing_order sample_wheel = [\<lparr> e_id = 1, expiry_tick = 1, interval_ticks = 0, cb = 7 \<rparr>,
      \<lparr> e_id = 2, expiry_tick = 1, interval_ticks = 1, cb = 8 \<rparr>]" by code_simp
  show ?thesis by (rule cancel_due_sibling_undefined [OF sample_wheel_ok fo]) simp
qed

end
