(* ===== verification/Timer_Runs.thy ===== *)
theory Timer_Runs
  imports Timer_Props
begin

text \<open>
  A timer of the wheel fires exactly when it should, for every delay and across every wrap-around, whatever the
  callbacks of the other timers do, as long as they leave this timer and its callback alone.
\<close>

section \<open>Callbacks that leave one timer alone\<close>

text \<open>
  A program that does not cancel a timer of \<open>K\<close>, does not schedule the callback \<open>c\<close> and schedules at most \<open>m\<close> timers;
  otherwise it schedules and cancels as it likes, depending on what the calls return. (A new id is none of \<open>K\<close>.)
\<close>

primrec tame :: "u64 set \<Rightarrow> 'c \<Rightarrow> ('w, 'c) prog \<Rightarrow> nat \<Rightarrow> bool" where
  "tame K c (Ret st) m \<longleftrightarrow> True"
| "tame K c (Schedule d c' k) m \<longleftrightarrow> c' \<noteq> c \<and> 0 < m \<and> (\<forall>j. j \<notin> K \<longrightarrow> tame K c (k j) (m - 1))"
| "tame K c (SchedulePeriodic d c' k) m \<longleftrightarrow> c' \<noteq> c \<and> 0 < m \<and> (\<forall>j. j \<notin> K \<longrightarrow> tame K c (k j) (m - 1))"
| "tame K c (Cancel j k) m \<longleftrightarrow> j \<notin> K \<and> (\<forall>b. tame K c (k b) m)"

text \<open>The callbacks with a log of their runs, in the order in which they return.\<close>

definition logged :: "('c \<Rightarrow> 'w \<Rightarrow> ('w, 'c) prog) \<Rightarrow> 'c \<Rightarrow> 'c list \<times> 'w \<Rightarrow> ('c list \<times> 'w, 'c) prog" where
  "logged body c s = map_prog (\<lambda>st. (fst s @ [c], st)) id (body c (snd s))"

lemma tame_map_prog: "tame K c (map_prog f id p) m = tame K c p m"
  by (induction p arbitrary: m) simp_all

definition below :: "'c flat \<Rightarrow> bool" where
  "below a \<longleftrightarrow> (\<forall>j. timers a j \<noteq> None \<longrightarrow> j < fresh a)"

text \<open>
  What such a program does to the table: it leaves every old timer as it is or cancels it, which it does to no timer
  of \<open>F\<close>, those due in the same tick, and of \<open>K\<close>; and it adds timers with new ids and other callbacks.
\<close>

definition frame :: "u64 set \<Rightarrow> 'c \<Rightarrow> nat \<Rightarrow> 'c flat \<Rightarrow> 'c flat \<Rightarrow> bool" where
  "frame K c m a b \<longleftrightarrow> now b = now a \<and> fresh a \<le> fresh b \<and> unat (fresh b) \<le> unat (fresh a) + m \<and>
     (\<forall>j. j < fresh a \<longrightarrow> timers b j = timers a j \<or> timers b j = None \<and> j \<notin> K) \<and>
     (\<forall>j e. timers b j = Some e \<and> fresh a \<le> j \<longrightarrow> j < fresh b \<and> cb e \<noteq> c)"

lemma frame_refl: "below a \<Longrightarrow> frame K c m a a"
  by (auto simp: frame_def below_def)

lemma frame_trans:
  assumes "frame K c m a b" and "frame K c m' b d" and "m + m' \<le> n"
  shows "frame K c n a d"
  unfolding frame_def
proof (intro conjI allI impI)
  show "now d = now a" "fresh a \<le> fresh d" "unat (fresh d) \<le> unat (fresh a) + n"
    using assms by (auto simp: frame_def)
  fix j
  show "timers d j = timers a j \<or> timers d j = None \<and> j \<notin> K" if "j < fresh a"
  proof -
    have "j < fresh b" using that assms(1) by (auto simp: frame_def intro: less_le_trans)
    then show ?thesis using that assms(1,2) unfolding frame_def by metis
  qed
  fix e
  assume j: "timers d j = Some e \<and> fresh a \<le> j"
  have "j < fresh d \<and> cb e \<noteq> c"
  proof (cases "j < fresh b")
    case True
    then have "timers b j = Some e" using j assms(2) unfolding frame_def by (metis option.distinct(1))
    moreover have "fresh b \<le> fresh d" using assms(2) by (simp add: frame_def)
    ultimately show ?thesis using j assms(1) less_le_trans [OF True] by (auto simp: frame_def)
  next
    case False
    then show ?thesis using j assms(2) by (auto simp: frame_def not_less)
  qed
  then show "j < fresh d" "cb e \<noteq> c" by simp_all
qed

lemma frame_below: "frame K c m a b \<Longrightarrow> below b"
  unfolding frame_def below_def by (metis leI less_le_trans not_None_eq)

lemma frame_schedule:
  assumes "below a" and "unat (fresh a) + 1 < 2 ^ 64" and "c' \<noteq> c"
  obtains b where "flat_schedule d iv c' a = Inr (fresh a, b)" and "frame K c 1 a b"
proof -
  have u: "unat (fresh a + 1) = unat (fresh a) + 1" using assms(2) by (simp add: unat_word_ariths)
  then have less: "j < fresh a + 1 \<longleftrightarrow> j \<le> fresh a" for j by (simp add: word_less_nat_alt word_le_nat_alt less_Suc_eq_le)
  have le: "fresh a \<le> fresh a + 1" using u by (simp add: word_le_nat_alt)
  have "timers a (fresh a) = None" using assms(1) by (auto simp: below_def)
  note eq = flat_schedule_eq [OF this, of d iv c']
  have "frame K c 1 a (a\<lparr>fresh := fresh a + 1, timers := (timers a)(fresh a \<mapsto> \<lparr> e_id = fresh a, expiry_tick = now a + d,
      interval_ticks = iv, cb = c' \<rparr>)\<rparr>)"
    using assms(1,3) u less le by (auto simp: frame_def below_def not_less dest: leD)
  with eq that show ?thesis by blast
qed

lemma frame_cancel:
  assumes "below a" and "flat_cancel F j a = Inr (r, b)" and "j \<notin> K"
  shows "frame (K \<union> F) c 0 a b"
  using assms by (auto simp: flat_cancel_def frame_def below_def split: if_splits dest: leD)

lemma frame_keys: "frame K' c m a b \<Longrightarrow> \<forall>j\<in>K. j < fresh a \<Longrightarrow> \<forall>j\<in>K. j < fresh b"
  unfolding frame_def by (meson less_le_trans)

lemma flat_run_frame:
  assumes "below a" and "tame K c p m" and "unat (fresh a) + m < 2 ^ 64" and "\<forall>j\<in>K. j < fresh a"
  shows "case flat_run p F a of Inl err \<Rightarrow> err = CancelFiring | Inr (st, b) \<Rightarrow> frame (K \<union> F) c m a b"
  using assms
proof (induction p arbitrary: a m)
  case (Ret st)
  then show ?case by (simp add: frame_refl)
next
  case (Schedule d c' k)
  then have m: "0 < m" and c: "c' \<noteq> c" and r: "unat (fresh a) + 1 < 2 ^ 64" by simp_all
  obtain b where b: "flat_schedule (max 1 d) 0 c' a = Inr (fresh a, b)" and fr: "frame (K \<union> F) c 1 a b"
    using frame_schedule [OF Schedule.prems(1) r c] by metis
  have "case flat_run (k (fresh a)) F b of Inl err \<Rightarrow> err = CancelFiring | Inr (st, d) \<Rightarrow> frame (K \<union> F) c (m - 1) b d"
    using Schedule.prems m fr by (intro Schedule.IH [OF rangeI frame_below [OF fr]] frame_keys [OF fr]) (auto simp: frame_def)
  then show ?case using b frame_trans [OF fr] m by (auto split: sum.splits)
next
  case (SchedulePeriodic d c' k)
  then have m: "0 < m" and c: "c' \<noteq> c" and r: "unat (fresh a) + 1 < 2 ^ 64" by simp_all
  obtain b where b: "flat_schedule (max 1 d) (max 1 d) c' a = Inr (fresh a, b)" and fr: "frame (K \<union> F) c 1 a b"
    using frame_schedule [OF SchedulePeriodic.prems(1) r c] by metis
  have "case flat_run (k (fresh a)) F b of Inl err \<Rightarrow> err = CancelFiring | Inr (st, d) \<Rightarrow> frame (K \<union> F) c (m - 1) b d"
    using SchedulePeriodic.prems m fr by (intro SchedulePeriodic.IH [OF rangeI frame_below [OF fr]] frame_keys [OF fr]) (auto simp: frame_def)
  then show ?case using b frame_trans [OF fr] m by (auto split: sum.splits)
next
  case (Cancel j k)
  show ?case
  proof (cases "flat_cancel F j a")
    case (Inl err)
    then show ?thesis by (auto simp: flat_cancel_def split: if_splits)
  next
    case (Inr r)
    obtain x b where x: "r = (x, b)" by force
    have fr: "frame (K \<union> F) c 0 a b" using frame_cancel [OF Cancel.prems(1)] Inr x Cancel.prems(2) by simp
    have "case flat_run (k x) F b of Inl err \<Rightarrow> err = CancelFiring | Inr (st, d) \<Rightarrow> frame (K \<union> F) c m b d"
      using Cancel.prems fr by (intro Cancel.IH [OF rangeI frame_below [OF fr]] frame_keys [OF fr]) (auto simp: frame_def)
    then show ?thesis using Inr x frame_trans [OF fr] by (auto split: sum.splits)
  qed
qed

text \<open>Putting a log around a program changes nothing else.\<close>

lemma flat_run_map: "flat_run (map_prog f id p) F a = map_sum id (map_prod f id) (flat_run p F a)"
  by (induction p arbitrary: a) (auto split: sum.splits)

lemma flat_run_logged:
  assumes "below a" and "tame K c (body c' (snd s)) m" and "unat (fresh a) + m < 2 ^ 64" and "\<forall>j\<in>K. j < fresh a"
  shows "case flat_run (logged body c' s) F a of Inl err \<Rightarrow> err = CancelFiring
    | Inr (s', b) \<Rightarrow> fst s' = fst s @ [c'] \<and> frame (K \<union> F) c m a b"
  using flat_run_frame [OF assms, of F] unfolding logged_def flat_run_map by (auto split: sum.splits)

section \<open>Firing what is due\<close>

definition after_fire :: "u64 \<Rightarrow> 'c Entry \<Rightarrow> 'c Entry option" where
  "after_fire t e = (if interval_ticks e = 0 then None else Some (e\<lparr>expiry_tick := t + interval_ticks e\<rparr>))"

text \<open>At most timer \<open>i\<close> has the callback \<open>c\<close>, and no other one.\<close>

definition only :: "u64 \<Rightarrow> 'c \<Rightarrow> 'c flat \<Rightarrow> bool" where
  "only i c a \<longleftrightarrow> (\<forall>j e. timers a j = Some e \<longrightarrow> (cb e = c \<longleftrightarrow> j = i))"

definition tracked :: "u64 set \<Rightarrow> u64 \<Rightarrow> 'c \<Rightarrow> 'c flat \<Rightarrow> bool" where
  "tracked K i c a \<longleftrightarrow> below a \<and> only i c a \<and> i < fresh a \<and> (i \<in> K \<or> timers a i = None) \<and> (\<forall>j\<in>K. j < fresh a)"

text \<open>One timer fires: its program runs, and a periodic timer is added again.\<close>

lemma flat_fire_step:
  assumes tr: "tracked K i c a" and tame: "tame K c (body (cb e) (snd s)) m" and room: "unat (fresh a) + m < 2 ^ 64"
    and e: "timers a (e_id e) = Some e" and F: "e_id e \<notin> F"
  shows "case flat_run (logged body (cb e) s) F (a\<lparr>timers := (timers a)(e_id e := None)\<rparr>) of Inl err \<Rightarrow> err = CancelFiring
    | Inr (s', b) \<Rightarrow> fst s' = fst s @ [cb e] \<and>
        (\<exists>d. (if interval_ticks e \<noteq> 0 then flat_add (e\<lparr>expiry_tick := now b + interval_ticks e\<rparr>) b else Inr b) = Inr d \<and>
           tracked K i c d \<and> now d = now a \<and> fresh a \<le> fresh d \<and> unat (fresh d) \<le> unat (fresh a) + m \<and>
           (\<forall>j\<in>F. timers a j \<noteq> None \<longrightarrow> timers d j = timers a j) \<and>
           timers d i = (if i = e_id e then after_fire (now a) e else timers a i))"
proof -
  let ?a = "a\<lparr>timers := (timers a)(e_id e := None)\<rparr>"
  have b: "below ?a" using tr by (auto simp: tracked_def below_def)
  have id: "e_id e < fresh a" using tr e by (auto simp: tracked_def below_def)
  have ic: "cb e = c \<longleftrightarrow> e_id e = i" using tr e by (auto simp: tracked_def only_def)
  have run: "case flat_run (logged body (cb e) s) F ?a of Inl err \<Rightarrow> err = CancelFiring
    | Inr (s', b) \<Rightarrow> fst s' = fst s @ [cb e] \<and> frame (K \<union> F) c m ?a b"
    using flat_run_logged [where body = body, OF b tame] room tr by (simp add: tracked_def)
  have goal: "\<exists>d. (if interval_ticks e \<noteq> 0 then flat_add (e\<lparr>expiry_tick := now b + interval_ticks e\<rparr>) b else Inr b) = Inr d \<and>
           tracked K i c d \<and> now d = now a \<and> fresh a \<le> fresh d \<and> unat (fresh d) \<le> unat (fresh a) + m \<and>
           (\<forall>j\<in>F. timers a j \<noteq> None \<longrightarrow> timers d j = timers a j) \<and>
           timers d i = (if i = e_id e then after_fire (now a) e else timers a i)"
    if fr: "frame (K \<union> F) c m ?a b" for b
  proof -
    let ?d = "b\<lparr>timers := (timers b)(e_id e := after_fire (now a) e)\<rparr>"
    have nb: "now b = now a" "fresh a \<le> fresh b" "unat (fresh b) \<le> unat (fresh a) + m" using fr by (simp_all add: frame_def)
    have old: "timers b j = timers ?a j \<or> timers b j = None \<and> j \<notin> K \<union> F" if "j < fresh a" for j
      using fr that by (simp add: frame_def)
    have new: "j < fresh b \<and> cb x \<noteq> c" if "timers b j = Some x" "fresh a \<le> j" for j x
      using fr that by (simp add: frame_def)
    have gone: "timers b (e_id e) = None" using old [OF id] by auto
    then have "timers b = (timers b)(e_id e := None)" by auto
    then have d: "(if interval_ticks e \<noteq> 0 then flat_add (e\<lparr>expiry_tick := now b + interval_ticks e\<rparr>) b else Inr b) = Inr ?d"
      using gone nb(1) by (cases b) (auto simp: flat_add_def after_fire_def)
    have i: "i < fresh a" using tr by (simp add: tracked_def)
    have ti: "timers ?d i = (if i = e_id e then after_fire (now a) e else timers a i)"
      using old [OF i] tr by (auto simp: tracked_def)
    have "below ?d" using frame_below [OF fr] id nb(2) by (auto simp: below_def)
    moreover have "only i c ?d"
      unfolding only_def
    proof (intro allI impI)
      fix j x
      assume x: "timers ?d j = Some x"
      consider "j = e_id e" | "j \<noteq> e_id e" "j < fresh a" | "j \<noteq> e_id e" "fresh a \<le> j" by (meson not_less)
      then show "cb x = c \<longleftrightarrow> j = i"
      proof cases
        case 1
        then show ?thesis using x ic by (auto simp: after_fire_def split: if_splits)
      next
        case 2
        then have "timers a j = Some x" using x old [OF 2(2)] by auto
        then show ?thesis using tr by (simp add: tracked_def only_def)
      next
        case 3
        then show ?thesis using x new [of j x] i by auto
      qed
    qed
    moreover have "i \<in> K \<or> timers ?d i = None" using ti tr e by (auto simp: tracked_def)
    moreover have "i < fresh ?d" using i nb(2) by simp
    moreover have "\<forall>j\<in>K. j < fresh ?d" using frame_keys [OF fr, of K] tr by (simp add: tracked_def)
    moreover have "timers ?d j = timers a j" if "j \<in> F" "timers a j \<noteq> None" for j
    proof -
      have "j < fresh a" using that(2) tr by (simp add: tracked_def below_def)
      then show ?thesis using old [of j] that(1) F by auto
    qed
    ultimately show ?thesis using d nb ti by (intro exI [of _ ?d]) (simp add: tracked_def)
  qed
  show ?thesis using run goal by (auto split: sum.splits)
qed

lemma flat_fire_tame:
  assumes "distinct (map e_id es)" and "\<forall>e\<in>set es. timers a (e_id e) = Some e" and "tracked K i c a"
    and tame: "\<forall>c' st. tame K c (body c' st) m" and "unat (fresh a) + length es * m < 2 ^ 64"
  shows "case flat_fire (logged body) es s a of Inl err \<Rightarrow> err = CancelFiring
    | Inr (s', b) \<Rightarrow> fst s' = fst s @ map cb es \<and> tracked K i c b \<and> now b = now a \<and> fresh a \<le> fresh b \<and>
        unat (fresh b) \<le> unat (fresh a) + length es * m \<and>
        timers b i = (if i \<in> e_id ` set es then Option.bind (timers a i) (after_fire (now a)) else timers a i)"
  using assms(1-3,5)
proof (induction es arbitrary: a s)
  case (Cons e es)
  have e: "timers a (e_id e) = Some e" and F: "e_id e \<notin> e_id ` set es" using Cons.prems by auto
  have "tame K c (body (cb e) (snd s)) m" using tame by blast
  note step = flat_fire_step [where body = body, OF Cons.prems(3) this _ e F]
  show ?case
  proof (cases "flat_run (logged body (cb e) s) (e_id ` set es) (a\<lparr>timers := (timers a)(e_id e := None)\<rparr>)")
    case (Inl err)
    then show ?thesis using step Cons.prems(4) by simp
  next
    case (Inr r)
    then obtain s1 b where r: "flat_run (logged body (cb e) s) (e_id ` set es) (a\<lparr>timers := (timers a)(e_id e := None)\<rparr>) = Inr (s1, b)"
      by (cases r) simp
    then obtain d where d: "(if interval_ticks e \<noteq> 0 then flat_add (e\<lparr>expiry_tick := now b + interval_ticks e\<rparr>) b else Inr b) = Inr d"
      and log: "fst s1 = fst s @ [cb e]" and tr: "tracked K i c d" and now: "now d = now a" and fresh: "fresh a \<le> fresh d"
        "unat (fresh d) \<le> unat (fresh a) + m"
      and rest: "\<forall>j\<in>e_id ` set es. timers a j \<noteq> None \<longrightarrow> timers d j = timers a j"
      and ti: "timers d i = (if i = e_id e then after_fire (now a) e else timers a i)"
      using step Cons.prems(4) by auto
    have "\<forall>x\<in>set es. timers d (e_id x) = Some x" using rest Cons.prems(2) by auto
    from Cons.IH [OF _ this tr, of s1] Cons.prems(1,4) fresh(2)
    have "case flat_fire (logged body) es s1 d of Inl err \<Rightarrow> err = CancelFiring
      | Inr (s', b) \<Rightarrow> fst s' = fst s1 @ map cb es \<and> tracked K i c b \<and> now b = now d \<and> fresh d \<le> fresh b \<and>
        unat (fresh b) \<le> unat (fresh d) + length es * m \<and>
        timers b i = (if i \<in> e_id ` set es then Option.bind (timers d i) (after_fire (now d)) else timers d i)" by simp
    moreover have "(if i \<in> e_id ` set es then Option.bind (timers d i) (after_fire (now a)) else timers d i) =
      (if i \<in> e_id ` set (e # es) then Option.bind (timers a i) (after_fire (now a)) else timers a i)"
      using ti e F by (cases "i = e_id e") simp_all
    ultimately show ?thesis using r d log now fresh by (auto simp del: list.set split: sum.splits)
  qed
qed simp

section \<open>Ticks\<close>

text \<open>The ids of the live timers have been handed out.\<close>

lemma below_table: "wheel_ok w \<Longrightarrow> below (table w) \<Longrightarrow> e \<in> ents w \<Longrightarrow> e_id e < next_id w"
  using sim_timers [OF table_sim] unfolding below_def table_def by fastforce

text \<open>A tick has no more to run than there are ids.\<close>

lemma firing_order_length:
  assumes "wheel_ok w" and "below (table w)"
  shows "length (firing_order w) \<le> unat (next_id w)"
proof -
  note s = table_sim [OF assms(1)]
  note fo = firing_order_due [OF s]
  have "unat (e_id e) < unat (next_id w)" if "e \<in> set (firing_order w)" for e
  proof -
    have "e \<in> ents w" using that fo(1) sim_ran [OF s] by (simp add: due_def)
    from below_table [OF assms this] show ?thesis by (simp only: word_less_nat_alt)
  qed
  then have "unat ` e_id ` set (firing_order w) \<subseteq> {..<unat (next_id w)}" by (intro subsetI) (elim imageE, simp)
  then have "card (unat ` e_id ` set (firing_order w)) \<le> unat (next_id w)" using card_mono [of "{..<unat (next_id w)}"] by simp
  moreover have "card (unat ` e_id ` set (firing_order w)) = card (e_id ` set (firing_order w))"
    by (intro card_image inj_onI) (rule word_unat_eq_iff [THEN iffD2])
  moreover have "card (e_id ` set (firing_order w)) = length (firing_order w)"
    using distinct_card [OF fo(2)] by simp
  ultimately show ?thesis by simp
qed

text \<open>A tick with such callbacks runs what is due, logs it, and treats timer \<open>i\<close> as it should.\<close>

lemma tick_tame:
  assumes ok: "wheel_ok w" and tr: "tracked K i c (table w)" and tame: "\<forall>c' st. tame K c (body c' st) m"
    and room: "unat (next_id w) * (m + 1) < 2 ^ 64"
  shows "case tick (logged body) s w of
      Inl err \<Rightarrow> err = EraseForeign \<and> flat_tick (logged body) (firing_order w) s (table w) = Inl CancelFiring
    | Inr (k, s', w') \<Rightarrow> k = length (firing_order w) \<and> fst s' = fst s @ map cb (firing_order w) \<and> wheel_ok w' \<and>
        tracked K i c (table w') \<and> jiffies w' = jiffies w + 1 \<and> unat (next_id w') \<le> unat (next_id w) + k * m \<and>
        timers (table w') i = (case timers (table w) i of None \<Rightarrow> None
          | Some e \<Rightarrow> if left (jiffies w) e = 1 then after_fire (jiffies w + 1) e else Some e)"
proof -
  let ?o = "firing_order w" and ?a = "(table w)\<lparr>now := jiffies w + 1\<rparr>"
  note s = table_sim [OF ok]
  note fo = firing_order_due [OF s]
  have now: "now (table w) = jiffies w" and fresh: "fresh (table w) = next_id w" by (simp_all add: table_def)
  have one: "left (jiffies w) e = 1 \<longleftrightarrow> expiry_tick e = jiffies w + 1" for e :: "'a Entry"
  proof
    assume "left (jiffies w) e = 1"
    then show "expiry_tick e = jiffies w + 1"
      unfolding left_def using pos_offset [of "expiry_tick e" "jiffies w"] by simp
  qed (simp add: left_def)
  have due: "\<forall>e\<in>set ?o. timers ?a (e_id e) = Some e"
    using fo(1) sim_ran [OF s] sim_timers [OF s] by (auto simp: due_def)
  have i_due: "i \<in> e_id ` set ?o \<longleftrightarrow> (\<exists>e. timers (table w) i = Some e \<and> left (jiffies w) e = 1)"
    unfolding fo(1) due_def one now using s by (auto simp: sim_def ran_def image_iff)
  have tr': "tracked K i c ?a" using tr by (simp add: tracked_def below_def only_def)
  have len: "length ?o * m \<le> unat (next_id w) * m"
    using firing_order_length [OF ok] tr by (simp add: tracked_def)
  then have "unat (fresh ?a) + length ?o * m \<le> unat (next_id w) * m + unat (next_id w)" by (simp add: fresh)
  also have "\<dots> < 2 ^ 64" using room by simp
  finally have "unat (fresh ?a) + length ?o * m < 2 ^ 64" .
  note fire = flat_fire_tame [OF fo(2) due tr' tame this, of s]
  note st = sim_tick [OF s, of "logged body" s]
  show ?thesis
  proof (cases "flat_fire (logged body) ?o s ?a")
    case (Inl err)
    then have "flat_tick (logged body) ?o s (table w) = Inl CancelFiring" using fire by (simp add: flat_tick_def now)
    then show ?thesis using st by simp
  next
    case (Inr r)
    then obtain s' b where r: "flat_fire (logged body) ?o s ?a = Inr (s', b)" by (cases r) simp
    then have "flat_tick (logged body) ?o s (table w) = Inr (length ?o, s', b)" by (simp add: flat_tick_def now)
    with st obtain w' where w': "tick (logged body) s w = Inr (length ?o, s', w')" "sim w' [] b"
      by (auto elim!: refines_InrE)
    then have t: "wheel_ok w'" "b = table w'" by (simp_all add: sim_table)
    have "timers b i = (case timers (table w) i of None \<Rightarrow> None
          | Some e \<Rightarrow> if left (jiffies w) e = 1 then after_fire (jiffies w + 1) e else Some e)"
      using fire r i_due by (auto split: option.splits)
    moreover have "now b = jiffies w'" "fresh b = next_id w'" by (simp_all add: t(2) table_def)
    ultimately show ?thesis using fire r w'(1) t by (simp add: fresh)
  qed
qed

section \<open>Counting the runs of one callback\<close>

text \<open>How often a timer due in \<open>r\<close> ticks with the given interval (0: none) runs in \<open>n\<close> ticks.\<close>

definition runs :: "nat \<Rightarrow> nat \<Rightarrow> nat \<Rightarrow> nat" where
  "runs r interval n = (if n < r then 0 else if interval = 0 then 1 else 1 + (n - r) div interval)"

lemma runs_0 [simp]: "0 < r \<Longrightarrow> runs r iv 0 = 0"
  by (simp add: runs_def)

lemma runs_later: "1 < r \<Longrightarrow> runs r iv (Suc n) = runs (r - 1) iv n"
  by (auto simp: runs_def)

lemma runs_now: "runs (Suc 0) iv (Suc n) = 1 + (if iv = 0 then 0 else runs iv iv n)"
  by (auto simp: runs_def le_div_geq)

lemma runs_self: "0 < m \<Longrightarrow> runs m m n = n div m"
  by (auto simp: runs_def le_div_geq)

text \<open>The runs that a table owes the callback \<open>c\<close>, which at most timer \<open>i\<close> has.\<close>

definition owed :: "u64 \<Rightarrow> 'c TimerWheel \<Rightarrow> nat \<Rightarrow> nat" where
  "owed i w n = (case timers (table w) i of None \<Rightarrow> 0
     | Some e \<Rightarrow> runs (left (jiffies w) e) (unat (interval_ticks e)) n)"

lemma count_firing:
  assumes ok: "wheel_ok w" and o: "only i c (table w)"
  shows "count_list (map cb (firing_order w)) c =
    (case timers (table w) i of None \<Rightarrow> 0 | Some e \<Rightarrow> if left (jiffies w) e = 1 then 1 else 0)"
proof -
  note s = table_sim [OF ok]
  note fo = firing_order_due [OF s]
  have now: "now (table w) = jiffies w" by (simp add: table_def)
  have mem: "e \<in> set (firing_order w) \<longleftrightarrow> timers (table w) (e_id e) = Some e \<and> left (jiffies w) e = 1" for e
  proof -
    have "left (jiffies w) e = 1 \<longleftrightarrow> expiry_tick e = jiffies w + 1"
    proof
      assume "left (jiffies w) e = 1"
      then show "expiry_tick e = jiffies w + 1"
        unfolding left_def using pos_offset [of "expiry_tick e" "jiffies w"] by simp
    qed (simp add: left_def)
    then show ?thesis using fo(1) sim_ran [OF s] s by (auto simp: due_def now sim_def)
  qed
  have c1: "count_list (map cb es) c = (if \<exists>e\<in>set es. e_id e = i then 1 else 0)"
    if "distinct (map e_id es)" "set es \<subseteq> set (firing_order w)" for es
    using that
  proof (induction es)
    case (Cons e es)
    have "cb e = c \<longleftrightarrow> e_id e = i" using Cons.prems(2) mem o by (auto simp: only_def)
    with Cons show ?case by (auto simp: image_iff)
  qed simp
  have ex: "(\<exists>e\<in>set (firing_order w). e_id e = i) \<longleftrightarrow>
      (\<exists>e. timers (table w) i = Some e \<and> left (jiffies w) e = 1)"
    using mem s by (auto simp: sim_def)
  show ?thesis using c1 [OF fo(2)] ex by (auto split: option.splits)
qed

text \<open>What a tick runs of the callback is what the timer owes less.\<close>

lemma owed_tick:
  assumes ok: "wheel_ok w" and o: "only i c (table w)" and j: "jiffies w1 = jiffies w + 1"
    and tm: "timers (table w1) i = (case timers (table w) i of None \<Rightarrow> None
          | Some e \<Rightarrow> if left (jiffies w) e = 1 then after_fire (jiffies w + 1) e else Some e)"
  shows "owed i w (Suc n) = count_list (map cb (firing_order w)) c + owed i w1 n"
proof (cases "timers (table w) i")
  case None
  then show ?thesis by (simp add: count_firing [OF ok o] owed_def tm)
next
  case (Some e)
  have r: "left (jiffies w) e \<noteq> 0"
    using Some ok table_sim [OF ok] by (auto simp: wheel_ok_def sim_def)
  show ?thesis
  proof (cases "left (jiffies w) e = 1")
    case True
    have "left (jiffies w + 1) (e\<lparr>expiry_tick := jiffies w + 1 + interval_ticks e\<rparr>) = unat (interval_ticks e)"
      by (simp add: left_def)
    then show ?thesis
      using Some True by (auto simp: count_firing [OF ok o] owed_def tm after_fire_def j runs_now unat_eq_0)
  next
    case False
    then show ?thesis
      using Some r by (simp add: count_firing [OF ok o] owed_def tm j left_succ runs_later)
  qed
qed

section \<open>Many ticks\<close>

text \<open>\<open>n\<close> ticks, with the number of callbacks that they run, without a bound.\<close>

fun ticks :: "('c \<Rightarrow> 'w \<Rightarrow> ('w, 'c) prog) \<Rightarrow> nat \<Rightarrow> 'w \<Rightarrow> 'c TimerWheel
    \<Rightarrow> wheel_error + (nat \<times> 'w \<times> 'c TimerWheel)" where
  "ticks body 0 st w = Inr (0, st, w)"
| "ticks body (Suc n) st w =
     (case tick body st w of
        Inl err \<Rightarrow> Inl err
      | Inr (k, st', w') \<Rightarrow> (case ticks body n st' w' of Inl err \<Rightarrow> Inl err | Inr (m, r) \<Rightarrow> Inr (k + m, r)))"

text \<open>
  Why \<open>n\<close> ticks can be undefined: at one of them a callback cancels another timer that is due then and has not
  run yet, or \<open>2 ^ 31\<close> callbacks have run.
\<close>

definition ends_undefined :: "('c \<Rightarrow> 'w \<Rightarrow> ('w, 'c) prog) \<Rightarrow> nat \<Rightarrow> nat \<Rightarrow> 'w \<Rightarrow> 'c TimerWheel \<Rightarrow> wheel_error \<Rightarrow> bool" where
  "ends_undefined body n acc s w err \<longleftrightarrow> (\<exists>j k s' v. ticks body j s w = Inr (k, s', v) \<and>
     (case err of EraseForeign \<Rightarrow> j < n \<and> flat_tick body (firing_order v) s' (table v) = Inl CancelFiring
      | CountOverflow \<Rightarrow> j \<le> n \<and> 2 ^ 31 \<le> acc + k))"

text \<open>What \<open>advance\<close> returns is an \<open>int\<close>.\<close>

lemma advance_loop_int:
  "acc < 2 ^ 31 \<Longrightarrow> advance_loop body n acc s w = Inr (k, s', w') \<Longrightarrow> k < 2 ^ 31"
  by (induction n arbitrary: acc s w) (auto split: sum.splits if_splits)

lemma ends_undefined_step:
  assumes "tick body s w = Inr (k, s1, w1)" and "ends_undefined body n (acc + k) s1 w1 err"
  shows "ends_undefined body (Suc n) acc s w err"
proof -
  obtain j l s' v where t: "ticks body j s1 w1 = Inr (l, s', v)"
    and e: "case err of EraseForeign \<Rightarrow> j < n \<and> flat_tick body (firing_order v) s' (table v) = Inl CancelFiring
      | CountOverflow \<Rightarrow> j \<le> n \<and> 2 ^ 31 \<le> acc + k + l"
    using assms(2) unfolding ends_undefined_def by blast
  have "ticks body (Suc j) s w = Inr (k + l, s', v)" using assms(1) t by simp
  then show ?thesis unfolding ends_undefined_def
    using e by (intro exI [of _ "Suc j"] exI [of _ "k + l"] exI [of _ s'] exI [of _ v]) (cases err; simp)
qed

lemma advance_tame:
  assumes "wheel_ok w" and "tracked K i c (table w)" and "acc < 2 ^ 31"
    and "unat (next_id w) \<le> 2 ^ 46 + acc * 2 ^ 16" and tame: "\<forall>c' st. tame K c (body c' st) (2 ^ 16)"
  shows "case advance_loop (logged body) n acc s w of
      Inl err \<Rightarrow> ends_undefined (logged body) n acc s w err
    | Inr (k, s', w') \<Rightarrow> jiffies w' = jiffies w + of_nat n \<and> k + length (fst s) = acc + length (fst s') \<and>
        count_list (fst s') c = count_list (fst s) c + owed i w n"
  using assms(1-4)
proof (induction n arbitrary: acc s w)
  case 0
  have "owed i w 0 = 0"
    using 0 table_sim [OF 0(1)] by (auto simp: owed_def wheel_ok_def sim_def split: option.splits)
  then show ?case by simp
next
  case (Suc n)
  have "unat (next_id w) \<le> 2 ^ 46 + 2 ^ 31 * 2 ^ 16" using Suc.prems(3,4) by simp
  then have room: "unat (next_id w) * (2 ^ 16 + 1) < 2 ^ 64" by simp
  note tick = tick_tame [OF Suc.prems(1,2) tame room, of s]
  show ?case
  proof (cases "tick (logged body) s w")
    case (Inl err)
    then have "err = EraseForeign" "flat_tick (logged body) (firing_order w) s (table w) = Inl CancelFiring"
      using tick by simp_all
    then have "ends_undefined (logged body) (Suc n) acc s w err"
      unfolding ends_undefined_def by (intro exI [of _ 0] exI [of _ s] exI [of _ w]) simp
    then show ?thesis using Inl by simp
  next
    case (Inr r)
    obtain k s1 w1 where "r = (k, s1, w1)" by (metis prod_cases3)
    note t = Inr [unfolded this]
    from tick [unfolded t] have k: "k = length (firing_order w)" and ok: "wheel_ok w1" and tr: "tracked K i c (table w1)" and j: "jiffies w1 = jiffies w + 1"
      and log: "fst s1 = fst s @ map cb (firing_order w)" and ids: "unat (next_id w1) \<le> unat (next_id w) + k * 2 ^ 16"
      and tm: "timers (table w1) i = (case timers (table w) i of None \<Rightarrow> None
          | Some e \<Rightarrow> if left (jiffies w) e = 1 then after_fire (jiffies w + 1) e else Some e)" by simp_all
    show ?thesis
    proof (cases "acc + k < 2 ^ 31")
      case False
      then have "ends_undefined (logged body) (Suc n) acc s w CountOverflow"
        unfolding ends_undefined_def using t by (intro exI [of _ 1] exI [of _ k] exI [of _ s1] exI [of _ w1]) simp
      then show ?thesis using t False by simp
    next
      case True
      have "unat (next_id w1) \<le> 2 ^ 46 + (acc + k) * 2 ^ 16" using ids Suc.prems(4) by simp
      note IH = Suc.IH [OF ok tr True this, of s1]
      have "owed i w (Suc n) = count_list (map cb (firing_order w)) c + owed i w1 n"
        using Suc.prems(2) by (intro owed_tick [OF Suc.prems(1) _ j tm]) (simp add: tracked_def)
      with IH show ?thesis using t True log k j ends_undefined_step [OF t]
        by (auto simp: algebra_simps split: sum.splits)
    qed
  qed
qed

section \<open>Properties\<close>

text \<open>The live timers have ids that were handed out, and fewer than \<open>2 ^ 46\<close> were.\<close>

definition numbered :: "'c TimerWheel \<Rightarrow> bool" where
  "numbered w \<longleftrightarrow> below (table w) \<and> unat (next_id w) < 2 ^ 46"

lemma next_id_after:
  "next_id (snd (schedule d c w)) = next_id w + 1" "next_id (snd (schedule_periodic d c w)) = next_id w + 1"
  by (simp_all add: schedule_def schedule_periodic_def wheel_insert_def count_inserted_def Let_def)

lemma fresh_table: "fresh (table w) = next_id w"
  by (simp add: table_def)

text \<open>A timer that was just added, on a wheel without its callback.\<close>

lemma added_tracked:
  assumes "numbered w" and "\<forall>j e. timers (table w) j = Some e \<longrightarrow> cb e \<noteq> c"
    and "timers (table w1) = (timers (table w))(next_id w \<mapsto> e)" and "cb e = c" and "next_id w1 = next_id w + 1"
  shows "tracked {next_id w} (next_id w) c (table w1)" and "unat (next_id w1) \<le> 2 ^ 46 + 0 * 2 ^ 16"
proof -
  have u: "unat (next_id w + 1) = unat (next_id w) + 1" using assms(1) by (simp add: numbered_def unat_word_ariths)
  then have less: "j < next_id w + 1 \<longleftrightarrow> j \<le> next_id w" for j by (simp add: word_less_nat_alt word_le_nat_alt less_Suc_eq_le)
  have lt: "j < next_id w" if "timers (table w) j \<noteq> None" for j
    using that assms(1) by (simp add: numbered_def below_def fresh_table)
  show "tracked {next_id w} (next_id w) c (table w1)"
    unfolding tracked_def below_def only_def fresh_table assms(3,5) less
    using lt assms(2,4) by (fastforce split: if_splits)
  show "unat (next_id w1) \<le> 2 ^ 46 + 0 * 2 ^ 16" using u assms(1) by (simp add: assms(5) numbered_def)
qed

lemma numbered_free: "numbered w \<Longrightarrow> timers (table w) (next_id w) = None"
  by (auto simp: numbered_def below_def fresh_table)

text \<open>
  For the instances: the wheel \<open>sample_wheel\<close> with a one-shot timer 1 and a periodic timer 2, and callbacks that
  schedule themselves again or cancel what they have just scheduled.
\<close>

definition busy_body :: "nat \<Rightarrow> nat \<Rightarrow> (nat, nat) prog" where
  "busy_body c st = (if c = 7 then Schedule 2 7 (\<lambda>j. Cancel 50 (\<lambda>b. Ret (st + 1)))
     else if c = 8 then Schedule 300 6 (\<lambda>j. Cancel j (\<lambda>b. Ret st)) else Ret st)"

lemma sample_wheel_table:
  shows "timers (table sample_wheel) = [1 \<mapsto> \<lparr> e_id = 1, expiry_tick = 1, interval_ticks = 0, cb = 7 \<rparr>,
     2 \<mapsto> \<lparr> e_id = 2, expiry_tick = 1, interval_ticks = 1, cb = 8 \<rparr>]"
    and "next_id sample_wheel = 3"
proof -
  let ?v = "new_TimerWheel 1000000 :: nat TimerWheel" and ?w = "snd (schedule 1 7 (new_TimerWheel 1000000 :: nat TimerWheel))"
  have j: "jiffies ?v = 0" "next_id ?v = 1" by (simp_all add: new_TimerWheel_def)
  have w: "wheel_ok ?w" "jiffies ?w = 0" and t: "timers (table ?w) = (timers (table ?v))(1 \<mapsto> \<lparr> e_id = 1,
      expiry_tick = 0 + max 1 1, interval_ticks = 0, cb = 7 \<rparr>)"
    using schedule_table(1) [of ?v 1 7, OF new_wheel_ok new_wheel_empty] by (auto simp: j)
  have id: "next_id ?w = 2" by (simp add: next_id_after j)
  show "next_id sample_wheel = 3" by (simp add: sample_wheel_def next_id_after id j)
  have "timers (table ?w) (next_id ?w) = None" by (simp add: t id new_wheel_empty)
  from schedule_table(2) [OF w(1) this, of 1 8]
  show "timers (table sample_wheel) = [1 \<mapsto> \<lparr> e_id = 1, expiry_tick = 1, interval_ticks = 0, cb = 7 \<rparr>,
     2 \<mapsto> \<lparr> e_id = 2, expiry_tick = 1, interval_ticks = 1, cb = 8 \<rparr>]"
    by (auto simp: sample_wheel_def t id w(2) new_wheel_empty fun_eq_iff)
qed

lemma sample_wheel_numbered: "numbered sample_wheel"
  unfolding numbered_def below_def fresh_table sample_wheel_table by auto

text \<open>One tick of \<open>advance\<close>.\<close>

lemma advance_1:
  assumes "map_sum id (\<lambda>(k, s, w). (k, s)) (tick body st w) = Inr (k, s)" and "k < 2 ^ 31"
  obtains w' where "advance body 1 st w = Inr (k, s, w')"
  using assms by (cases "tick body st w") (auto simp: advance_def)

text \<open>
  C19. A one-shot timer runs exactly once and exactly on time, for every delay: after
  \<open>schedule(d)\<close> on a wheel in any state, \<open>advance(n)\<close> has run the callback once if \<open>n\<close> is at least \<open>d\<close> (at least 1 when
  \<open>d\<close> is 0) and not at all otherwise, and returns how many callbacks it ran. This covers delays beyond the range
  of the last level and the wrap-around of the tick counter. The callbacks, this one included, schedule and cancel as
  they like, except that they do not cancel this timer, schedule its callback or schedule more than \<open>2 ^ 16\<close> timers
  in one run; fewer than \<open>2 ^ 46\<close> timers were scheduled before. The call can end in undefined behaviour in two ways
  only: at one of the ticks a callback cancels another timer that is due then, or \<open>2 ^ 31\<close> callbacks have run, so
  that the \<open>int\<close> total overflows.
\<close>

theorem one_shot_on_time:
  assumes "wheel_ok w" and "numbered w" and "\<forall>j e. timers (table w) j = Some e \<longrightarrow> cb e \<noteq> c"
    and "schedule d c w = (i, w1)" and "\<forall>c' st. tame {i} c (body c' st) (2 ^ 16)"
  shows "case advance (logged body) n ([], st) w1 of
      Inr (k, (log, st'), w2) \<Rightarrow> jiffies w2 = jiffies w + n \<and> k = length log \<and>
        count_list log c = (if max 1 d \<le> n then 1 else 0)
    | Inl err \<Rightarrow> ends_undefined (logged body) (unat n) 0 ([], st) w1 err"
proof -
  obtain w' where s: "schedule d c w = (next_id w, w')" and w': "wheel_ok w'" "jiffies w' = jiffies w"
    and t: "timers (table w') = (timers (table w))(next_id w \<mapsto> \<lparr> e_id = next_id w,
      expiry_tick = jiffies w + max 1 d, interval_ticks = 0, cb = c \<rparr>)"
    using schedule_table(1) [OF assms(1) numbered_free [OF assms(2)], of d c] by blast
  with assms(4) have w1: "w' = w1" and i: "i = next_id w" by simp_all
  have "next_id w' = next_id w + 1" using next_id_after(1) [of d c w] s by simp
  note tr = added_tracked [OF assms(2,3) t _ this]
  have "owed i w' (unat n) = (if max 1 d \<le> n then 1 else 0)"
    using t w' by (auto simp: owed_def left_def runs_def i word_le_nat_alt)
  with advance_tame [OF w'(1) tr(1) _ tr(2), of body "unat n" "([], st)"] assms(5) w'(2) show ?thesis
    by (auto simp: w1 i advance_def split: sum.splits)
qed

theorem one_shot_on_time_witness:
  "\<exists>w1 k log st w2. schedule 1 9 sample_wheel = (3, w1) \<and>
     advance (logged busy_body) 1 ([], 0) w1 = Inr (k, (log, st), w2) \<and> log = [7, 8, 9] \<and> count_list log 9 = 1"
proof -
  obtain w1 where s: "schedule 1 9 sample_wheel = (3, w1)"
    using schedule_table(1) [OF sample_wheel_ok numbered_free [OF sample_wheel_numbered], of 1 9] by (auto simp: sample_wheel_table)
  have "map_sum id (\<lambda>(k, s, w). (k, s)) (tick (logged busy_body) ([], 0) (snd (schedule 1 9 sample_wheel)))
    = Inr (3, [7, 8, 9], 1)" by code_simp
  then obtain w2 where a: "advance (logged busy_body) 1 ([], 0) w1 = Inr (3, ([7, 8, 9], 1), w2)"
    by (elim advance_1) (simp_all add: s)
  have "\<forall>j e. timers (table sample_wheel) j = Some e \<longrightarrow> cb e \<noteq> 9" by (simp add: sample_wheel_table)
  moreover have "\<forall>c' st. tame {3} 9 (busy_body c' st) (2 ^ 16)" by (simp add: busy_body_def)
  ultimately have "count_list [7, 8, 9] (9 :: nat) = 1"
    using one_shot_on_time [OF sample_wheel_ok sample_wheel_numbered _ s, of busy_body 1 "0"] a by simp
  with s a show ?thesis by blast
qed

text \<open>
  C20. A periodic timer keeps its beat: after \<open>schedule_periodic(d)\<close> on a wheel in any state, \<open>advance(n)\<close> has run the
  callback exactly \<open>n div d\<close> times (with \<open>d\<close> taken as 1 when it is 0). The other callbacks and the two ways to undefined
  behaviour are as for the one-shot timer; what the call returns is below \<open>2 ^ 31\<close>, so with \<open>d = 1\<close> and \<open>n \<ge> 2 ^ 31\<close>
  it cannot return.
\<close>

theorem periodic_on_time:
  assumes "wheel_ok w" and "numbered w" and "\<forall>j e. timers (table w) j = Some e \<longrightarrow> cb e \<noteq> c"
    and "schedule_periodic d c w = (i, w1)" and "\<forall>c' st. tame {i} c (body c' st) (2 ^ 16)"
  shows "case advance (logged body) n ([], st) w1 of
      Inr (k, (log, st'), w2) \<Rightarrow> jiffies w2 = jiffies w + n \<and> k = length log \<and> k < 2 ^ 31 \<and>
        count_list log c = unat n div unat (max 1 d)
    | Inl err \<Rightarrow> ends_undefined (logged body) (unat n) 0 ([], st) w1 err"
proof -
  obtain w' where s: "schedule_periodic d c w = (next_id w, w')" and w': "wheel_ok w'" "jiffies w' = jiffies w"
    and t: "timers (table w') = (timers (table w))(next_id w \<mapsto> \<lparr> e_id = next_id w,
      expiry_tick = jiffies w + max 1 d, interval_ticks = max 1 d, cb = c \<rparr>)"
    using schedule_table(2) [OF assms(1) numbered_free [OF assms(2)], of d c] by blast
  with assms(4) have w1: "w' = w1" and i: "i = next_id w" by simp_all
  have "next_id w' = next_id w + 1" using next_id_after(2) [of d c w] s by simp
  note tr = added_tracked [OF assms(2,3) t _ this]
  have "max 1 d \<noteq> 0" by (auto simp: max_def)
  then have "0 < unat (max 1 d)" by (simp add: unat_gt_0)
  then have "owed i w' (unat n) = unat n div unat (max 1 d)"
    using t runs_self by (simp add: owed_def i left_def w'(2))
  with advance_tame [OF w'(1) tr(1) _ tr(2), of body "unat n" "([], st)"] assms(5) w'(2)
    advance_loop_int [of 0 "logged body" "unat n" "([], st)" w'] show ?thesis
    by (auto simp: w1 i advance_def split: sum.splits)
qed

theorem periodic_on_time_witness:
  "\<exists>w1 k log st w2. schedule_periodic 1 9 sample_wheel = (3, w1) \<and>
     advance (logged busy_body) 1 ([], 0) w1 = Inr (k, (log, st), w2) \<and> log = [7, 8, 9] \<and> count_list log 9 = 1"
proof -
  obtain w1 where s: "schedule_periodic 1 9 sample_wheel = (3, w1)"
    using schedule_table(2) [OF sample_wheel_ok numbered_free [OF sample_wheel_numbered], of 1 9] by (auto simp: sample_wheel_table)
  have "map_sum id (\<lambda>(k, s, w). (k, s)) (tick (logged busy_body) ([], 0) (snd (schedule_periodic 1 9 sample_wheel)))
    = Inr (3, [7, 8, 9], 1)" by code_simp
  then obtain w2 where a: "advance (logged busy_body) 1 ([], 0) w1 = Inr (3, ([7, 8, 9], 1), w2)"
    by (elim advance_1) (simp_all add: s)
  have "\<forall>j e. timers (table sample_wheel) j = Some e \<longrightarrow> cb e \<noteq> 9" by (simp add: sample_wheel_table)
  moreover have "\<forall>c' st. tame {3} 9 (busy_body c' st) (2 ^ 16)" by (simp add: busy_body_def)
  ultimately have "count_list [7, 8, 9] (9 :: nat) = 1"
    using periodic_on_time [OF sample_wheel_ok sample_wheel_numbered _ s, of busy_body 1 "0"] a by simp
  with s a show ?thesis by blast
qed

text \<open>
  C29. A cancelled timer never runs: \<open>cancel\<close>, called outside callbacks with an id that was handed out, returns whether
  that timer is pending, removes it and changes no other timer; afterwards \<open>advance(n)\<close>, for every \<open>n\<close>, does not run the
  callback that only the cancelled timer had. The callbacks that it runs schedule and cancel as they like, except that
  they do not schedule this callback or more than \<open>2 ^ 16\<close> timers in one run; the two ways to undefined behaviour
  are those of the one-shot timer.
\<close>

theorem cancelled_never_runs:
  assumes "wheel_ok w" and "numbered w" and "i < next_id w"
    and "\<forall>j e. timers (table w) j = Some e \<longrightarrow> (cb e = c \<longleftrightarrow> j = i)" and "\<forall>c' st. tame {} c (body c' st) (2 ^ 16)"
  shows "\<exists>w1. cancel i w = Inr (timers (table w) i \<noteq> None, w1) \<and>
    timers (table w1) = (timers (table w))(i := None) \<and>
    (case advance (logged body) n ([], st) w1 of
      Inr (k, (log, st'), w2) \<Rightarrow> jiffies w2 = jiffies w + n \<and> c \<notin> set log
    | Inl err \<Rightarrow> ends_undefined (logged body) (unat n) 0 ([], st) w1 err)"
proof -
  obtain w1 where c: "cancel i w = Inr (timers (table w) i \<noteq> None, w1)" and ok: "wheel_ok w1"
    and j: "jiffies w1 = jiffies w" and id: "next_id w1 = next_id w"
    and t: "timers (table w1) = (timers (table w))(i := None)"
    using cancel_table [OF assms(1)] by blast
  have tr: "tracked {} i c (table w1)"
    using assms(2-4) by (auto simp: tracked_def below_def only_def fresh_table numbered_def t id)
  have "unat (next_id w1) \<le> 2 ^ 46 + 0 * 2 ^ 16" using assms(2) by (simp add: numbered_def id)
  from advance_tame [OF ok tr _ this, of body "unat n" "([], st)"] assms(5) j
  have "case advance (logged body) n ([], st) w1 of
      Inr (k, (log, st'), w2) \<Rightarrow> jiffies w2 = jiffies w + n \<and> c \<notin> set log
    | Inl err \<Rightarrow> ends_undefined (logged body) (unat n) 0 ([], st) w1 err"
    by (auto simp: advance_def owed_def t count_list_0_iff split: sum.splits)
  with c t show ?thesis by blast
qed

theorem cancelled_never_runs_witness:
  "\<exists>w1 k log st w2. cancel 2 sample_wheel = Inr (True, w1) \<and>
     advance (logged busy_body) 1 ([], 0) w1 = Inr (k, (log, st), w2) \<and> log = [7] \<and> 8 \<notin> set log"
proof -
  have c: "\<forall>j e. timers (table sample_wheel) j = Some e \<longrightarrow> (cb e = 8 \<longleftrightarrow> j = 2)" by (simp add: sample_wheel_table)
  have tame: "\<forall>c' st. tame {} 8 (busy_body c' st) (2 ^ 16)" by (simp add: busy_body_def)
  have "2 < next_id sample_wheel" by (simp add: sample_wheel_table)
  from cancelled_never_runs [OF sample_wheel_ok sample_wheel_numbered this c tame, of 1 0]
  obtain w1 where w1: "cancel 2 sample_wheel = Inr (True, w1)"
    and r: "case advance (logged busy_body) 1 ([], 0) w1 of
      Inr (k, (log, st'), w2) \<Rightarrow> jiffies w2 = jiffies sample_wheel + 1 \<and> 8 \<notin> set log
    | Inl err \<Rightarrow> ends_undefined (logged busy_body) (unat (1 :: u64)) 0 ([], 0) w1 err"
    by (auto simp: sample_wheel_table)
  have "map_sum id (\<lambda>(k, s, w). (k, s)) (tick (logged busy_body) ([], 0) (snd (projr (cancel 2 sample_wheel))))
    = Inr (1, [7], 1)" by code_simp
  then obtain w2 where "advance (logged busy_body) 1 ([], 0) w1 = Inr (1, ([7], 1), w2)"
    by (elim advance_1) (simp_all add: w1)
  with w1 r show ?thesis by fastforce
qed

end
