(* ===== verification/Epoll_Timer.thy ===== *)
theory Epoll_Timer
  imports Prelude "HOL-Library.Signed_Division" "HOL-Library.Multiset"
begin

text \<open>
  The timer manager of \<open>epoll_timer.cpp\<close>: a heap of entries with lazy deletion, the table of the live
  timers, and one \<open>timerfd\<close> that is set to the earliest deadline. Nanoseconds are \<open>int64_t\<close>; a sum that
  leaves that range is undefined and ends the call with \<open>SignedOverflow\<close>. A thrown exception
  is an \<open>Inl\<close> result beside the state it leaves behind.
\<close>

section \<open>State\<close>

record 'c EEntry =
  ee_id :: u64
  ee_expiry :: int
  ee_interval :: int
  ee_cb :: 'c

record EStats =
  es_fired :: u64
  es_cancelled :: u64
  es_rearms :: u64
  es_overruns :: u64

text \<open>
  \<open>et_armed\<close> is the value the \<open>timerfd\<close> was last set to, seconds and nanoseconds; \<open>et_readings\<close> counts the
  readings of the clock and \<open>et_issued\<close> the identifiers handed out.
\<close>

record 'c EpollTimer =
  et_heap :: "'c EEntry list"
  et_active :: "u64 \<rightharpoonup> 'c EEntry"
  et_running :: bool
  et_next_id :: u64
  et_stats :: EStats
  et_armed :: "(int \<times> int) option"
  et_readings :: nat
  et_issued :: nat

datatype epoll_error = SignedOverflow | System_Error int string

text \<open>
  The surroundings: which of the least elements the heap has on top, the readings of
  \<open>CLOCK_MONOTONIC\<close>, and what \<open>timerfd_settime\<close> answers, 0 or the error number.
\<close>

record 'c et_env =
  top_index :: "'c EEntry list \<Rightarrow> nat"
  clock :: "nat \<Rightarrow> int \<times> int"
  settime :: "int \<times> int \<Rightarrow> int"

text \<open>What a callback does with the timer, besides its effect on the client's state.\<close>

datatype ('w, 'c) et_prog =
    EDone 'w
  | ESchedule int 'c "u64 \<Rightarrow> ('w, 'c) et_prog"
  | EPeriodic int 'c "u64 \<Rightarrow> ('w, 'c) et_prog"
  | ECancel u64 "bool \<Rightarrow> ('w, 'c) et_prog"
  | EStop "('w, 'c) et_prog"

definition kInvalidTimer :: u64 where "kInvalidTimer = 0"

definition new_EpollTimer :: "'c EpollTimer" where
  "new_EpollTimer = \<lparr> et_heap = [], et_active = (\<lambda>_. None), et_running = False, et_next_id = 1,
     et_stats = \<lparr> es_fired = 0, es_cancelled = 0, es_rearms = 0, es_overruns = 0 \<rparr>,
     et_armed = None, et_readings = 0, et_issued = 0 \<rparr>"

section \<open>The heap\<close>

definition top_pos :: "'c et_env \<Rightarrow> 'c EEntry list \<Rightarrow> nat" where
  "top_pos env h = top_index env h mod length h"

lemma top_pos_less [simp]: "h \<noteq> [] \<Longrightarrow> top_pos env h < length h"
  by (simp add: top_pos_def)

definition heap_top :: "'c et_env \<Rightarrow> 'c EEntry list \<Rightarrow> 'c EEntry" where
  "heap_top env h = h ! top_pos env h"

definition heap_pop :: "'c et_env \<Rightarrow> 'c EEntry list \<Rightarrow> 'c EEntry list" where
  "heap_pop env h = take (top_pos env h) h @ drop (Suc (top_pos env h)) h"

definition heap_push :: "'c EEntry \<Rightarrow> 'c EEntry list \<Rightarrow> 'c EEntry list" where
  "heap_push e h = h @ [e]"

lemma heap_split:
  assumes "h \<noteq> []"
  obtains xs ys where "h = xs @ heap_top env h # ys" and "heap_pop env h = xs @ ys"
  using id_take_nth_drop [OF top_pos_less [OF assms]] that unfolding heap_top_def heap_pop_def by metis

lemma heap_mset: "h \<noteq> [] \<Longrightarrow> mset h = add_mset (heap_top env h) (mset (heap_pop env h))"
  by (metis heap_split mset.simps(2) mset_append union_mset_add_mset_right)

lemma heap_length: "h \<noteq> [] \<Longrightarrow> length h = Suc (length (heap_pop env h))"
  using heap_mset [of h env] by (metis size_add_mset size_mset)

lemma heap_pop_shorter: "h \<noteq> [] \<Longrightarrow> length (heap_pop env h) < length h"
  using heap_length [of h env] by simp

lemma heap_set: "h \<noteq> [] \<Longrightarrow> set h = insert (heap_top env h) (set (heap_pop env h))"
  using heap_mset [of h env] by (metis set_mset_add_mset_insert set_mset_mset)

lemma heap_distinct:
  assumes "h \<noteq> []"
  shows "distinct (map ee_id h) \<longleftrightarrow>
     ee_id (heap_top env h) \<notin> ee_id ` set (heap_pop env h) \<and> distinct (map ee_id (heap_pop env h))"
proof -
  obtain xs ys where h: "h = xs @ heap_top env h # ys" "heap_pop env h = xs @ ys" using heap_split [OF assms] .
  show ?thesis by (subst h(1), unfold h(2)) auto
qed

section \<open>Operations\<close>

definition add_i64 :: "int \<Rightarrow> int \<Rightarrow> epoll_error + int" where
  "add_i64 a b = (if - (2 ^ 63) \<le> a + b \<and> a + b < 2 ^ 63 then Inr (a + b) else Inl SignedOverflow)"

definition to_itimerspec :: "int \<Rightarrow> int \<times> int" where
  "to_itimerspec ns = (ns sdiv 1000000000, ns smod 1000000000)"

definition et_now_ns :: "'c et_env \<Rightarrow> 'c EpollTimer \<Rightarrow> int \<times> 'c EpollTimer" where
  "et_now_ns env t = (case clock env (et_readings t) of (sec, nsec) \<Rightarrow>
     (sec * 1000000000 + nsec, t\<lparr>et_readings := Suc (et_readings t)\<rparr>))"

definition rearm_timerfd :: "'c et_env \<Rightarrow> int \<Rightarrow> 'c EpollTimer \<Rightarrow> (epoll_error + unit) \<times> 'c EpollTimer" where
  "rearm_timerfd env ns t =
     (let ts = to_itimerspec ns in
      if settime env ts \<noteq> 0 then (Inl (System_Error (settime env ts) ''timerfd_settime''), t)
      else (Inr (), t\<lparr>et_armed := Some ts,
              et_stats := (et_stats t)\<lparr>es_rearms := es_rearms (et_stats t) + 1\<rparr>\<rparr>))"

definition add_timer :: "'c et_env \<Rightarrow> int \<Rightarrow> int \<Rightarrow> 'c \<Rightarrow> 'c EpollTimer \<Rightarrow> (epoll_error + u64) \<times> 'c EpollTimer" where
  "add_timer env delay interval c t =
     (let i = et_next_id t; t = t\<lparr>et_next_id := i + 1, et_issued := Suc (et_issued t)\<rparr> in
      case et_now_ns env t of (now, t) \<Rightarrow>
      case add_i64 now delay of
        Inl err \<Rightarrow> (Inl err, t)
      | Inr x \<Rightarrow>
          let e = \<lparr> ee_id = i, ee_expiry = x, ee_interval = interval, ee_cb = c \<rparr>;
              need_rearm = (et_heap t = [] \<or> x < ee_expiry (heap_top env (et_heap t)));
              t = t\<lparr>et_active := (et_active t)(i \<mapsto> e), et_heap := heap_push e (et_heap t)\<rparr> in
          if need_rearm
          then (case rearm_timerfd env x t of (Inl err, t) \<Rightarrow> (Inl err, t) | (Inr _, t) \<Rightarrow> (Inr i, t))
          else (Inr i, t))"

definition et_schedule :: "'c et_env \<Rightarrow> int \<Rightarrow> 'c \<Rightarrow> 'c EpollTimer \<Rightarrow> (epoll_error + u64) \<times> 'c EpollTimer" where
  "et_schedule env delay_ns c t = add_timer env delay_ns 0 c t"

definition et_schedule_periodic :: "'c et_env \<Rightarrow> int \<Rightarrow> 'c \<Rightarrow> 'c EpollTimer \<Rightarrow> (epoll_error + u64) \<times> 'c EpollTimer" where
  "et_schedule_periodic env interval_ns c t = add_timer env interval_ns interval_ns c t"

definition et_cancel :: "u64 \<Rightarrow> 'c EpollTimer \<Rightarrow> bool \<times> 'c EpollTimer" where
  "et_cancel i t =
     (case et_active t i of
        None \<Rightarrow> (False, t)
      | Some _ \<Rightarrow> (True, t\<lparr>et_active := (et_active t)(i := None),
                    et_stats := (et_stats t)\<lparr>es_cancelled := es_cancelled (et_stats t) + 1\<rparr>\<rparr>))"

definition et_stop :: "'c EpollTimer \<Rightarrow> 'c EpollTimer" where
  "et_stop t = t\<lparr>et_running := False\<rparr>"

definition et_pending :: "'c EpollTimer \<Rightarrow> nat" where
  "et_pending t = card (dom (et_active t))"

text \<open>A callback's program.\<close>

primrec run_et :: "'c et_env \<Rightarrow> ('w, 'c) et_prog \<Rightarrow> 'c EpollTimer \<Rightarrow> (epoll_error + 'w) \<times> 'c EpollTimer" where
  "run_et env (EDone w) t = (Inr w, t)"
| "run_et env (ESchedule d c k) t =
     (case et_schedule env d c t of (Inl err, t') \<Rightarrow> (Inl err, t') | (Inr i, t') \<Rightarrow> run_et env (k i) t')"
| "run_et env (EPeriodic d c k) t =
     (case et_schedule_periodic env d c t of (Inl err, t') \<Rightarrow> (Inl err, t') | (Inr i, t') \<Rightarrow> run_et env (k i) t')"
| "run_et env (ECancel i k) t = (case et_cancel i t of (b, t') \<Rightarrow> run_et env (k b) t')"
| "run_et env (EStop p) t = run_et env p (et_stop t)"

text \<open>The next deadline of a periodic timer that is behind: past \<open>now\<close>, on the original cadence.\<close>

function skip_ahead :: "int \<Rightarrow> int \<Rightarrow> int \<Rightarrow> epoll_error + int" where
  "skip_ahead now interval x =
     (if 0 < interval \<and> x \<le> now
      then (case add_i64 x interval of Inl err \<Rightarrow> Inl err | Inr y \<Rightarrow> skip_ahead now interval y)
      else Inr x)"
  by pat_completeness auto
termination
  by (relation "measure (\<lambda>(now, interval, x). nat (now + 1 - x))") (auto simp: add_i64_def split: if_splits)

declare skip_ahead.simps [simp del]

definition next_expiry :: "int \<Rightarrow> 'c EEntry \<Rightarrow> epoll_error + int" where
  "next_expiry now e =
     (case add_i64 (ee_expiry e) (ee_interval e) of Inl err \<Rightarrow> Inl err | Inr x \<Rightarrow> skip_ahead now (ee_interval e) x)"

definition stale :: "'c EpollTimer \<Rightarrow> 'c EEntry \<Rightarrow> bool" where
  "stale t e = (case et_active t (ee_id e) of None \<Rightarrow> True | Some a \<Rightarrow> ee_expiry a \<noteq> ee_expiry e)"

definition count_fired :: "'c EpollTimer \<Rightarrow> 'c EpollTimer" where
  "count_fired t = t\<lparr>et_stats := (et_stats t)\<lparr>es_fired := es_fired (et_stats t) + 1\<rparr>\<rparr>"

text \<open>
  The loop of \<open>drain_expired\<close>, with a bound on its rounds: callbacks that keep adding timers that are due
  already make it run on. \<open>None\<close> is a loop that has not ended within the bound.
\<close>

fun drain_loop :: "'c et_env \<Rightarrow> ('c \<Rightarrow> 'w \<Rightarrow> ('w, 'c) et_prog) \<Rightarrow> nat \<Rightarrow> int \<Rightarrow> nat \<Rightarrow> 'w \<Rightarrow> 'c EpollTimer
    \<Rightarrow> ((epoll_error + (nat \<times> 'w)) \<times> 'c EpollTimer) option" where
  "drain_loop env body 0 now cnt w t = None"
| "drain_loop env body (Suc fuel) now cnt w t =
     (if et_heap t = [] then Some (Inr (cnt, w), t)
      else let top = heap_top env (et_heap t) in
      if stale t top then drain_loop env body fuel now cnt w (t\<lparr>et_heap := heap_pop env (et_heap t)\<rparr>)
      else if now < ee_expiry top then Some (Inr (cnt, w), t)
      else case run_et env (body (ee_cb top) w)
             (t\<lparr>et_heap := heap_pop env (et_heap t), et_active := (et_active t)(ee_id top := None)\<rparr>) of
        (Inl err, t) \<Rightarrow> Some (Inl err, t)
      | (Inr w, t) \<Rightarrow>
          if 0 < ee_interval top
          then (case next_expiry now top of
                  Inl err \<Rightarrow> Some (Inl err, count_fired t)
                | Inr x \<Rightarrow> let e = top\<lparr>ee_expiry := x\<rparr>; t = count_fired t in
                    drain_loop env body fuel now (cnt + 1) w
                      (t\<lparr>et_active := (et_active t)(ee_id e \<mapsto> e), et_heap := heap_push e (et_heap t)\<rparr>))
          else drain_loop env body fuel now (cnt + 1) w (count_fired t))"

function rearm_loop :: "'c et_env \<Rightarrow> 'c EpollTimer \<Rightarrow> (epoll_error + unit) \<times> 'c EpollTimer" where
  "rearm_loop env t =
     (if et_heap t = [] then (Inr (), t)
      else let top = heap_top env (et_heap t) in
      if stale t top then rearm_loop env (t\<lparr>et_heap := heap_pop env (et_heap t)\<rparr>)
      else rearm_timerfd env (ee_expiry top) t)"
  by pat_completeness auto
termination
  by (relation "measure (\<lambda>(env, t). length (et_heap t))") (auto simp: heap_pop_shorter)

declare rearm_loop.simps [simp del]

definition drain_expired :: "'c et_env \<Rightarrow> ('c \<Rightarrow> 'w \<Rightarrow> ('w, 'c) et_prog) \<Rightarrow> nat \<Rightarrow> 'w \<Rightarrow> 'c EpollTimer
    \<Rightarrow> ((epoll_error + (nat \<times> 'w)) \<times> 'c EpollTimer) option" where
  "drain_expired env body fuel w t =
     (case et_now_ns env t of (now, t) \<Rightarrow>
      case drain_loop env body fuel now 0 w t of
        None \<Rightarrow> None
      | Some (Inl err, t) \<Rightarrow> Some (Inl err, t)
      | Some (Inr r, t) \<Rightarrow> (case rearm_loop env t of (Inl err, t) \<Rightarrow> Some (Inl err, t) | (Inr _, t) \<Rightarrow> Some (Inr r, t)))"

text \<open>
  What \<open>epoll_wait\<close> returns, an error number or the number of events, and the \<open>read\<close> of the \<open>timerfd\<close>: its
  result and the counter.
\<close>

definition EINTR :: int where "EINTR = 4"

definition run_once :: "'c et_env \<Rightarrow> ('c \<Rightarrow> 'w \<Rightarrow> ('w, 'c) et_prog) \<Rightarrow> nat \<Rightarrow> int + int \<Rightarrow> int \<times> u64 \<Rightarrow> 'w
    \<Rightarrow> 'c EpollTimer \<Rightarrow> ((epoll_error + (nat \<times> 'w)) \<times> 'c EpollTimer) option" where
  "run_once env body fuel wait rd w t =
     (case wait of
        Inl errno \<Rightarrow> if errno = EINTR then Some (Inr (0, w), t)
                     else Some (Inl (System_Error errno ''epoll_wait''), t)
      | Inr n \<Rightarrow>
          if n = 0 then Some (Inr (0, w), t)
          else case rd of (rc, overruns) \<Rightarrow>
            let t = (if rc = 8 \<and> 1 < overruns
                     then t\<lparr>et_stats := (et_stats t)\<lparr>es_overruns := es_overruns (et_stats t) + (overruns - 1)\<rparr>\<rparr>
                     else t) in
            drain_expired env body fuel w t)"

text \<open>
  The rounds of \<open>run\<close>: whether another thread called \<open>stop\<close> before the test of the flag, and the results
  of the system calls. A loop that has used up its list is still running: \<open>None\<close>.
\<close>

fun run_rounds :: "'c et_env \<Rightarrow> ('c \<Rightarrow> 'w \<Rightarrow> ('w, 'c) et_prog) \<Rightarrow> nat \<Rightarrow> (bool \<times> (int + int) \<times> int \<times> u64) list \<Rightarrow> 'w
    \<Rightarrow> 'c EpollTimer \<Rightarrow> ((epoll_error + 'w) \<times> 'c EpollTimer) option" where
  "run_rounds env body fuel [] w t = None"
| "run_rounds env body fuel ((stopped, wait, rd) # rs) w t =
     (let t = (if stopped then et_stop t else t) in
      if \<not> et_running t then Some (Inr w, t)
      else case run_once env body fuel wait rd w t of
        None \<Rightarrow> None
      | Some (Inl err, t) \<Rightarrow> Some (Inl err, t)
      | Some (Inr (n, w), t) \<Rightarrow> run_rounds env body fuel rs w t)"

definition et_run :: "'c et_env \<Rightarrow> ('c \<Rightarrow> 'w \<Rightarrow> ('w, 'c) et_prog) \<Rightarrow> nat \<Rightarrow> (bool \<times> (int + int) \<times> int \<times> u64) list \<Rightarrow> 'w
    \<Rightarrow> 'c EpollTimer \<Rightarrow> ((epoll_error + 'w) \<times> 'c EpollTimer) option" where
  "et_run env body fuel rs w t = run_rounds env body fuel rs w (t\<lparr>et_running := True\<rparr>)"

section \<open>Construction and destruction\<close>

record et_open_env =
  epoll_create_ret :: int
  epoll_create_errno :: int
  timerfd_create_ret :: int
  timerfd_create_errno :: int
  epoll_ctl_ret :: int
  epoll_ctl_errno :: int

datatype et_call = Epoll_Create1 int | Timerfd_Create int | Epoll_Ctl_Add int int | Close_Fd int

text \<open>The descriptors are the epoll instance and the \<open>timerfd\<close>.\<close>

definition open_EpollTimer :: "et_open_env \<Rightarrow> (epoll_error + (int \<times> int) \<times> 'c EpollTimer) \<times> et_call list" where
  "open_EpollTimer env =
     (let efd = epoll_create_ret env; tfd = timerfd_create_ret env in
      if efd < 0 then (Inl (System_Error (epoll_create_errno env) ''epoll_create1''), [Epoll_Create1 efd])
      else if tfd < 0
      then (Inl (System_Error (timerfd_create_errno env) ''timerfd_create''),
            [Epoll_Create1 efd, Timerfd_Create tfd, Close_Fd efd])
      else if epoll_ctl_ret env < 0
      then (Inl (System_Error (epoll_ctl_errno env) ''epoll_ctl(ADD)''),
            [Epoll_Create1 efd, Timerfd_Create tfd, Epoll_Ctl_Add efd tfd, Close_Fd tfd, Close_Fd efd])
      else (Inr ((efd, tfd), new_EpollTimer), [Epoll_Create1 efd, Timerfd_Create tfd, Epoll_Ctl_Add efd tfd]))"

definition close_EpollTimer :: "int \<times> int \<Rightarrow> et_call list" where
  "close_EpollTimer fds =
     (if 0 \<le> snd fds then [Close_Fd (snd fds)] else []) @ (if 0 \<le> fst fds then [Close_Fd (fst fds)] else [])"

section \<open>Entries on and off the heap\<close>

text \<open>The top of the heap is one of the earliest entries.\<close>

definition min_heap :: "'c et_env \<Rightarrow> bool" where
  "min_heap env \<longleftrightarrow> (\<forall>h. h \<noteq> [] \<longrightarrow> (\<forall>e\<in>set h. ee_expiry (heap_top env h) \<le> ee_expiry e))"

text \<open>\<open>timerfd_settime\<close> accepts every time that is not negative.\<close>

definition settime_ok :: "'c et_env \<Rightarrow> bool" where
  "settime_ok env \<longleftrightarrow> (\<forall>s n. settime env (s, n) = 0 \<longleftrightarrow> 0 \<le> s \<and> 0 \<le> n \<and> n < 1000000000)"

lemma to_itimerspec_nonneg:
  assumes "0 \<le> x"
  shows "to_itimerspec x = (x div 1000000000, x mod 1000000000)"
  using assms by (simp add: to_itimerspec_def signed_divide_int_def smod_int_alt_def sgn_if)

lemma settime_iff:
  assumes "settime_ok env"
  shows "settime env (to_itimerspec x) = 0 \<longleftrightarrow> 0 \<le> x"
proof (cases "0 \<le> x")
  case True
  then show ?thesis using assms by (simp add: to_itimerspec_nonneg settime_ok_def pos_imp_zdiv_nonneg_iff)
next
  case False
  have "x = (x sdiv 1000000000) * 1000000000 + x smod 1000000000" by (simp only: sdiv_mult_smod_eq)
  then have "\<not> (0 \<le> x sdiv 1000000000 \<and> 0 \<le> x smod 1000000000)" using False by linarith
  then show ?thesis using assms False by (auto simp: to_itimerspec_def settime_ok_def)
qed

end
