(* ===== verification/Epoll_Inv.thy ===== *)
theory Epoll_Inv
  imports Epoll_Timer
begin

text \<open>
  The invariant of the epoll timer under all its operations, with callbacks that schedule and
  cancel timers: the heap holds at most one entry for an identifier, the live timers are on it,
  and the \<open>timerfd\<close> is set to the earliest entry.
\<close>

section \<open>The invariant\<close>

definition issued_id :: "nat \<Rightarrow> u64" where
  "issued_id k = of_nat (Suc k)"

definition et_core :: "'c EpollTimer \<Rightarrow> bool" where
  "et_core t \<longleftrightarrow> distinct (map ee_id (et_heap t)) \<and>
     (\<forall>e\<in>set (et_heap t). \<exists>k<et_issued t. ee_id e = issued_id k) \<and>
     et_next_id t = issued_id (et_issued t) \<and>
     (\<forall>i e. et_active t i = Some e \<longrightarrow> ee_id e = i \<and> e \<in> set (et_heap t)) \<and>
     (\<forall>e\<in>set (et_heap t). 0 \<le> ee_expiry e)"

text \<open>The part of it that does not depend on the deadlines.\<close>

definition et_struct :: "'c EpollTimer \<Rightarrow> bool" where
  "et_struct t \<longleftrightarrow> distinct (map ee_id (et_heap t)) \<and>
     (\<forall>e\<in>set (et_heap t). \<exists>k<et_issued t. ee_id e = issued_id k) \<and>
     et_next_id t = issued_id (et_issued t) \<and>
     (\<forall>i e. et_active t i = Some e \<longrightarrow> ee_id e = i \<and> e \<in> set (et_heap t))"

lemma core_struct: "et_core t \<longleftrightarrow> et_struct t \<and> (\<forall>e\<in>set (et_heap t). 0 \<le> ee_expiry e)"
  by (auto simp: et_core_def et_struct_def)

text \<open>The deadline of the \<open>timerfd\<close> is that of the top of the heap.\<close>

definition et_armed_ok :: "'c et_env \<Rightarrow> 'c EpollTimer \<Rightarrow> bool" where
  "et_armed_ok env t \<longleftrightarrow>
     (et_heap t \<noteq> [] \<longrightarrow> et_armed t = Some (to_itimerspec (ee_expiry (heap_top env (et_heap t)))))"

abbreviation few_ids :: "'c EpollTimer \<Rightarrow> bool" where
  "few_ids t \<equiv> et_issued t < 2 ^ 64 - 1"

lemma issued_id_inj:
  assumes "j < 2 ^ 64 - 1" and "k < 2 ^ 64 - 1"
  shows "issued_id j = issued_id k \<longleftrightarrow> j = k"
proof -
  have "unat (issued_id i) = Suc i" if "i < 2 ^ 64 - 1" for i
    using that unfolding issued_id_def by (simp only: unat_of_nat) simp
  with assms show ?thesis by (metis Suc_inject)
qed

lemma add_timer_cases:
  assumes "add_timer env d iv c t = (Inr i, t')"
  obtains x where "i = et_next_id t" "et_next_id t' = et_next_id t + 1" "et_issued t' = Suc (et_issued t)"
    "et_active t' = (et_active t)(i \<mapsto> \<lparr> ee_id = i, ee_expiry = x, ee_interval = iv, ee_cb = c \<rparr>)"
    "et_heap t' = et_heap t @ [\<lparr> ee_id = i, ee_expiry = x, ee_interval = iv, ee_cb = c \<rparr>]"
    "x = fst (et_now_ns env t) + d"
    "if et_heap t = [] \<or> x < ee_expiry (heap_top env (et_heap t))
     then settime env (to_itimerspec x) = 0 \<and> et_armed t' = Some (to_itimerspec x) else et_armed t' = et_armed t"
  using assms by (auto simp: add_timer_def et_now_ns_def rearm_timerfd_def heap_push_def add_i64_def Let_def
      split: if_splits prod.splits)

lemma heap_top_in: "h \<noteq> [] \<Longrightarrow> heap_top env h \<in> set h"
  using heap_set by blast

text \<open>The deadline of the top after an insertion.\<close>

lemma heap_top_snoc:
  assumes "min_heap env"
  shows "ee_expiry (heap_top env (h @ [e])) =
    (if h = [] \<or> ee_expiry e < ee_expiry (heap_top env h) then ee_expiry e else ee_expiry (heap_top env h))"
proof -
  have le: "\<forall>a\<in>set (h @ [e]). ee_expiry (heap_top env (h @ [e])) \<le> ee_expiry a"
    using assms unfolding min_heap_def by (metis snoc_eq_iff_butlast)
  have "heap_top env (h @ [e]) \<in> set (h @ [e])" by (rule heap_top_in) simp
  then consider "ee_expiry (heap_top env (h @ [e])) = ee_expiry e" | "heap_top env (h @ [e]) \<in> set h" by auto
  then show ?thesis
  proof cases
    case 1
    then show ?thesis using le heap_top_in [of h env] by fastforce
  next
    case 2
    then have "h \<noteq> []" by auto
    then have "ee_expiry (heap_top env h) \<le> ee_expiry (heap_top env (h @ [e]))"
      using assms 2 unfolding min_heap_def by blast
    then show ?thesis using le heap_top_in [OF \<open>h \<noteq> []\<close>, of env] by fastforce
  qed
qed

lemma add_timer_inv:
  assumes env: "min_heap env" "settime_ok env" and core: "et_core t"
    and add: "add_timer env d iv c t = (Inr i, t')" and few: "few_ids t'"
  shows "et_core t' \<and> (et_armed_ok env t \<longrightarrow> et_armed_ok env t')"
proof -
  obtain x where t': "i = et_next_id t" "et_next_id t' = et_next_id t + 1" "et_issued t' = Suc (et_issued t)"
    "et_active t' = (et_active t)(i \<mapsto> \<lparr> ee_id = i, ee_expiry = x, ee_interval = iv, ee_cb = c \<rparr>)"
    "et_heap t' = et_heap t @ [\<lparr> ee_id = i, ee_expiry = x, ee_interval = iv, ee_cb = c \<rparr>]"
    and arm: "if et_heap t = [] \<or> x < ee_expiry (heap_top env (et_heap t))
     then settime env (to_itimerspec x) = 0 \<and> et_armed t' = Some (to_itimerspec x) else et_armed t' = et_armed t"
    using add_timer_cases [OF add] by metis
  have i: "i = issued_id (et_issued t)" using core t'(1) by (simp add: et_core_def)
  have "i \<notin> ee_id ` set (et_heap t)"
  proof
    assume "i \<in> ee_id ` set (et_heap t)"
    then obtain k where "k < et_issued t" "i = issued_id k" using core unfolding et_core_def by (metis imageE)
    then show False using i few t'(3) issued_id_inj [of k "et_issued t"] by simp
  qed
  then have d: "distinct (map ee_id (et_heap t'))" using core t'(5) by (auto simp: et_core_def)
  have "0 \<le> x"
  proof (cases "et_heap t = [] \<or> x < ee_expiry (heap_top env (et_heap t))")
    case True
    then show ?thesis using arm settime_iff [OF env(2)] by simp
  next
    case False
    then have "heap_top env (et_heap t) \<in> set (et_heap t)" by (simp add: heap_top_in)
    then show ?thesis using False core by (force simp: et_core_def)
  qed
  moreover have "et_next_id t' = issued_id (et_issued t')" using core t'(2,3) by (simp add: et_core_def issued_id_def)
  moreover have "\<forall>e\<in>set (et_heap t'). \<exists>k<et_issued t'. ee_id e = issued_id k"
  proof
    fix e
    assume "e \<in> set (et_heap t')"
    then consider "e \<in> set (et_heap t)" | "ee_id e = i" using t'(5) by auto
    then show "\<exists>k<et_issued t'. ee_id e = issued_id k"
    proof cases
      case 1
      then obtain k where "k < et_issued t" "ee_id e = issued_id k" using core by (auto simp: et_core_def)
      then show ?thesis using t'(3) by (auto intro: less_SucI)
    qed (use i t'(3) in auto)
  qed
  ultimately have "et_core t'" using core t' i d unfolding et_core_def by (auto split: if_splits)
  moreover have "et_armed_ok env t'" if "et_armed_ok env t"
    using that arm t'(5) by (auto simp: et_armed_ok_def heap_top_snoc [OF env(1)] split: if_splits)
  ultimately show ?thesis by blast
qed

lemma cancel_inv:
  assumes "et_core t" and "et_cancel i t = (b, t')"
  shows "et_core t'" and "et_armed_ok env t \<Longrightarrow> et_armed_ok env t'" and "et_issued t' = et_issued t" and "et_heap t' = et_heap t"
  using assms by (auto simp: et_cancel_def et_core_def et_armed_ok_def split: option.splits if_splits)

text \<open>New entries on the heap have new identifiers, and the count of identifiers only grows.\<close>

definition grown :: "'c EpollTimer \<Rightarrow> 'c EpollTimer \<Rightarrow> bool" where
  "grown t t' \<longleftrightarrow> et_issued t \<le> et_issued t' \<and>
     (\<forall>e\<in>set (et_heap t'). e \<in> set (et_heap t) \<or> (\<exists>k. et_issued t \<le> k \<and> k < et_issued t' \<and> ee_id e = issued_id k))"

lemma grown_refl: "grown t t"
  by (simp add: grown_def)

lemma grown_trans: "grown t u \<Longrightarrow> grown u v \<Longrightarrow> grown t v"
  unfolding grown_def by (meson le_trans order_less_le_trans)

lemma add_timer_grown:
  assumes "et_core t" and "add_timer env d iv c t = (Inr i, t')"
  shows "grown t t'"
proof (rule add_timer_cases [OF assms(2)])
  fix x
  assume "i = et_next_id t" "et_issued t' = Suc (et_issued t)"
    "et_heap t' = et_heap t @ [\<lparr> ee_id = i, ee_expiry = x, ee_interval = iv, ee_cb = c \<rparr>]"
  then show ?thesis using assms(1) by (auto simp: grown_def et_core_def)
qed

lemma add_timer_issued: "et_issued (snd (add_timer env d iv c t)) = Suc (et_issued t)"
  by (simp add: add_timer_def et_now_ns_def rearm_timerfd_def Let_def split: prod.splits sum.splits)

lemma run_et_issued: "et_issued t \<le> et_issued (snd (run_et env p t))"
proof (induction p arbitrary: t)
  case (ESchedule d c k)
  obtain r t1 where "add_timer env d 0 c t = (r, t1)" by force
  moreover from this have "et_issued t1 = Suc (et_issued t)" using add_timer_issued by (metis snd_conv)
  ultimately show ?case using ESchedule [of _ t1] by (auto simp: et_schedule_def split: sum.splits intro: Suc_leD)
next
  case (EPeriodic d c k)
  obtain r t1 where "add_timer env d d c t = (r, t1)" by force
  moreover from this have "et_issued t1 = Suc (et_issued t)" using add_timer_issued by (metis snd_conv)
  ultimately show ?case using EPeriodic [of _ t1] by (auto simp: et_schedule_periodic_def split: sum.splits intro: Suc_leD)
next
  case (ECancel i k)
  obtain b t1 where "et_cancel i t = (b, t1)" by force
  moreover from this have "et_issued t1 = et_issued t" by (auto simp: et_cancel_def split: option.splits)
  ultimately show ?case using ECancel [of "k b" t1] by simp
next
  case (EStop p)
  show ?case using EStop [of "et_stop t"] by (simp add: et_stop_def)
qed simp

text \<open>A callback's program keeps the invariant.\<close>

definition good_end :: "'c et_env \<Rightarrow> 'c EpollTimer \<Rightarrow> 'c EpollTimer \<Rightarrow> bool" where
  "good_end env t t' \<longleftrightarrow> et_core t' \<and> grown t t' \<and> (et_armed_ok env t \<longrightarrow> et_armed_ok env t')"

lemma good_end_trans: "good_end env t u \<Longrightarrow> good_end env u v \<Longrightarrow> good_end env t v"
  unfolding good_end_def using grown_trans by blast

lemma add_timer_good:
  assumes "min_heap env" "settime_ok env" "et_core t" "add_timer env d iv c t = (Inr i, t')" "few_ids t'"
  shows "good_end env t t'"
  using add_timer_inv [OF assms] add_timer_grown [OF assms(3,4)] by (simp add: good_end_def)

lemma run_et_good:
  assumes env: "min_heap env" "settime_ok env" and "et_core t" and "run_et env p t = (Inr w, t')" and few: "few_ids t'"
  shows "good_end env t t'"
  using assms(3,4)
proof (induction p arbitrary: t)
  case (EDone v)
  then show ?case by (simp add: good_end_def grown_refl)
next
  case (ESchedule d c k)
  obtain r t1 where s: "add_timer env d 0 c t = (r, t1)" by force
  then obtain i where i: "r = Inr i" "run_et env (k i) t1 = (Inr w, t')"
    using ESchedule.prems(2) by (auto simp: et_schedule_def split: sum.splits)
  have "few_ids t1" using run_et_issued [of t1 env "k i"] i(2) few by simp
  then have "good_end env t t1" using add_timer_good [OF env ESchedule.prems(1)] s i(1) by blast
  then show ?case using ESchedule.IH [OF _ _ i(2)] good_end_trans by (auto simp: good_end_def)
next
  case (EPeriodic d c k)
  obtain r t1 where s: "add_timer env d d c t = (r, t1)" by force
  then obtain i where i: "r = Inr i" "run_et env (k i) t1 = (Inr w, t')"
    using EPeriodic.prems(2) by (auto simp: et_schedule_periodic_def split: sum.splits)
  have "few_ids t1" using run_et_issued [of t1 env "k i"] i(2) few by simp
  then have "good_end env t t1" using add_timer_good [OF env EPeriodic.prems(1)] s i(1) by blast
  then show ?case using EPeriodic.IH [OF _ _ i(2)] good_end_trans by (auto simp: good_end_def)
next
  case (ECancel j k)
  obtain b t1 where s: "et_cancel j t = (b, t1)" by force
  have "good_end env t t1" using cancel_inv [OF ECancel.prems(1) s] by (simp add: good_end_def grown_def)
  moreover have "run_et env (k b) t1 = (Inr w, t')" using ECancel.prems(2) s by simp
  ultimately show ?case using ECancel.IH good_end_trans by (metis good_end_def rangeI)
next
  case (EStop p)
  have "good_end env t (et_stop t)"
    using EStop.prems(1) by (simp add: good_end_def et_stop_def et_core_def grown_def et_armed_ok_def)
  moreover have "run_et env p (et_stop t) = (Inr w, t')" using EStop.prems(2) by simp
  ultimately show ?case using EStop.IH good_end_trans by (metis good_end_def)
qed

section \<open>Draining\<close>

definition take_top :: "'c et_env \<Rightarrow> 'c EpollTimer \<Rightarrow> 'c EpollTimer" where
  "take_top env t = t\<lparr>et_heap := heap_pop env (et_heap t),
     et_active := (et_active t)(ee_id (heap_top env (et_heap t)) := None)\<rparr>"

definition put_timer :: "'c EEntry \<Rightarrow> 'c EpollTimer \<Rightarrow> 'c EpollTimer" where
  "put_timer e t = t\<lparr>et_active := (et_active t)(ee_id e \<mapsto> e), et_heap := heap_push e (et_heap t)\<rparr>"

text \<open>The ways a drain that does not throw can begin.\<close>

lemma drain_loopE:
  assumes "drain_loop env body fuel now cnt w t = Some (Inr r, t')"
  obtains (empty) "et_heap t = []" "r = (cnt, w)" "t' = t"
  | (skip) f where "fuel = Suc f" "et_heap t \<noteq> []" "stale t (heap_top env (et_heap t))"
      "drain_loop env body f now cnt w (t\<lparr>et_heap := heap_pop env (et_heap t)\<rparr>) = Some (Inr r, t')"
  | (later) "et_heap t \<noteq> []" "\<not> stale t (heap_top env (et_heap t))" "now < ee_expiry (heap_top env (et_heap t))"
      "r = (cnt, w)" "t' = t"
  | (once) f w1 t1 where "fuel = Suc f" "et_heap t \<noteq> []" "\<not> stale t (heap_top env (et_heap t))"
      "run_et env (body (ee_cb (heap_top env (et_heap t))) w) (take_top env t) = (Inr w1, t1)"
      "drain_loop env body f now (cnt + 1) w1 (count_fired t1) = Some (Inr r, t')"
  | (again) f w1 t1 x where "fuel = Suc f" "et_heap t \<noteq> []" "\<not> stale t (heap_top env (et_heap t))"
      "run_et env (body (ee_cb (heap_top env (et_heap t))) w) (take_top env t) = (Inr w1, t1)"
      "0 < ee_interval (heap_top env (et_heap t))" "next_expiry now (heap_top env (et_heap t)) = Inr x"
      "drain_loop env body f now (cnt + 1) w1
         (put_timer ((heap_top env (et_heap t))\<lparr>ee_expiry := x\<rparr>) (count_fired t1)) = Some (Inr r, t')"
proof (cases fuel)
  case 0
  then show ?thesis using assms by simp
next
  case (Suc f)
  let ?top = "heap_top env (et_heap t)"
  consider (a) "et_heap t = []" | (b) "et_heap t \<noteq> []" "stale t ?top"
    | (c) "et_heap t \<noteq> []" "\<not> stale t ?top" "now < ee_expiry ?top"
    | (d) "et_heap t \<noteq> []" "\<not> stale t ?top" "\<not> now < ee_expiry ?top" by blast
  then show ?thesis
  proof cases
    case a
    then show ?thesis by (intro empty) (use assms Suc in simp_all)
  next
    case b
    then show ?thesis by (intro skip [OF Suc]) (use assms Suc in \<open>simp_all add: Let_def\<close>)
  next
    case c
    then show ?thesis by (intro later) (use assms Suc in \<open>simp_all add: Let_def\<close>)
  next
    case False: d
    obtain q t1 where q: "run_et env (body (ee_cb (heap_top env (et_heap t))) w) (take_top env t) = (q, t1)" by force
    show ?thesis
    proof (cases q)
      case (Inl err)
      then show ?thesis using assms Suc False q by (simp add: Let_def take_top_def)
    next
      case (Inr w1)
      then show ?thesis using assms Suc False q again [OF Suc _ _ q [unfolded Inr]] once [OF Suc _ _ q [unfolded Inr]]
        by (auto simp: Let_def take_top_def put_timer_def split: if_splits sum.splits)
    qed
  qed
qed

lemma drain_loop_issued:
  "drain_loop env body fuel now cnt w t = Some (Inr r, t') \<Longrightarrow> et_issued t \<le> et_issued t'"
proof (induction fuel arbitrary: cnt w t)
  case (Suc f)
  have *: "et_issued t \<le> et_issued t1" if "run_et env p (take_top env t) = (Inr w1, t1)" for p w1 t1
    using run_et_issued [of "take_top env t" env p] that by (simp add: take_top_def)
  from Suc.prems show ?case
  proof (cases rule: drain_loopE)
    case skip
    then show ?thesis using Suc.IH by fastforce
  next
    case once
    then show ?thesis using * Suc.IH le_trans by (fastforce simp: count_fired_def)
  next
    case again
    then show ?thesis using * Suc.IH le_trans by (fastforce simp: count_fired_def put_timer_def)
  qed auto
qed simp

lemma pop_stale_struct:
  assumes "et_struct t" and "et_heap t \<noteq> []" and "stale t (heap_top env (et_heap t))"
  shows "et_struct (t\<lparr>et_heap := heap_pop env (et_heap t)\<rparr>)"
proof -
  have "e \<noteq> heap_top env (et_heap t)" if "et_active t i = Some e" for i e
    using that assms(1,3) by (auto simp: et_struct_def stale_def)
  then show ?thesis using assms(1) heap_set [OF assms(2), of env] heap_distinct [OF assms(2), of env]
    by (auto simp: et_struct_def)
qed

lemma pop_stale_core:
  assumes "et_core t" and "et_heap t \<noteq> []" and "stale t (heap_top env (et_heap t))"
  shows "et_core (t\<lparr>et_heap := heap_pop env (et_heap t)\<rparr>)"
  using assms pop_stale_struct [of t env] heap_set [OF assms(2), of env] by (simp add: core_struct)

lemma take_top_struct:
  assumes "et_struct t" and "et_heap t \<noteq> []"
  shows "et_struct (take_top env t)"
    and "ee_id (heap_top env (et_heap t)) \<notin> ee_id ` set (et_heap (take_top env t))"
  using assms heap_set [OF assms(2), of env] heap_distinct [OF assms(2), of env]
  by (auto simp: et_struct_def take_top_def)

lemma take_top_core:
  assumes "et_core t" and "et_heap t \<noteq> []"
  shows "et_core (take_top env t)"
    and "ee_id (heap_top env (et_heap t)) \<notin> ee_id ` set (et_heap (take_top env t))"
  using take_top_struct [of t env] assms heap_set [OF assms(2), of env]
  by (simp_all add: core_struct take_top_def)

lemma grown_keeps_id:
  assumes "et_struct t" "et_heap t \<noteq> []" "grown (take_top env t) t1" "few_ids t1"
  shows "ee_id (heap_top env (et_heap t)) \<notin> ee_id ` set (et_heap t1)"
    and "\<exists>k<et_issued t1. ee_id (heap_top env (et_heap t)) = issued_id k"
proof -
  let ?i = "ee_id (heap_top env (et_heap t))"
  have le: "et_issued t \<le> et_issued t1" using assms(3) by (simp add: grown_def take_top_def)
  obtain k where k: "k < et_issued t" "?i = issued_id k"
    using assms(1) heap_top_in [OF assms(2), of env] unfolding et_struct_def by metis
  from k(1) le have "k < et_issued t1" by simp
  with k(2) show "\<exists>k<et_issued t1. ?i = issued_id k" by metis
  show "?i \<notin> ee_id ` set (et_heap t1)"
  proof
    assume "?i \<in> ee_id ` set (et_heap t1)"
    then obtain e where e: "e \<in> set (et_heap t1)" "ee_id e = ?i" by (metis imageE)
    then have "e \<notin> set (et_heap (take_top env t))" using take_top_struct(2) [OF assms(1,2)] by (metis imageI)
    then obtain j where "et_issued t \<le> j" "j < et_issued t1" "ee_id e = issued_id j"
      using assms(3) e(1) by (auto simp: grown_def take_top_def)
    then show False using k e(2) issued_id_inj [of j k] assms(4) by auto
  qed
qed

lemma put_timer_core:
  assumes "et_core t" "ee_id e \<notin> ee_id ` set (et_heap t)" "\<exists>k<et_issued t. ee_id e = issued_id k" "0 \<le> ee_expiry e"
  shows "et_core (put_timer e t)"
  using assms by (auto simp: et_core_def put_timer_def heap_push_def split: if_splits)

lemma count_fired_simps [simp]:
  "et_heap (count_fired t) = et_heap t" "et_active (count_fired t) = et_active t"
  "et_issued (count_fired t) = et_issued t" "et_core (count_fired t) = et_core t"
  by (simp_all add: count_fired_def et_core_def)

text \<open>The catch-up of a periodic timer.\<close>

lemma skip_ahead_ge: "skip_ahead now iv x = Inr y \<Longrightarrow> x \<le> y \<and> (0 < iv \<longrightarrow> now < y)"
proof (induction now iv x rule: skip_ahead.induct)
  case (1 now iv x)
  then show ?case by (subst (asm) skip_ahead.simps) (fastforce simp: add_i64_def split: if_splits)
qed

lemma skip_ahead_value:
  assumes "0 < iv" and "now + iv < 2 ^ 63" and "- (2 ^ 63) \<le> x"
  shows "skip_ahead now iv x = Inr (if x \<le> now then x + iv * ((now - x) div iv + 1) else x)"
  using assms
proof (induction now iv x rule: skip_ahead.induct)
  case (1 now iv x)
  show ?case
  proof (cases "x \<le> now")
    case False
    then show ?thesis by (simp add: skip_ahead.simps [of now iv x])
  next
    case True
    have add: "add_i64 x iv = Inr (x + iv)" using True "1.prems" by (simp add: add_i64_def)
    have "(now - x) div iv = (now - (x + iv)) div iv + 1" if "x + iv \<le> now"
      using div_add_self2 [of iv "now - (x + iv)"] "1.prems"(1) by simp
    moreover have "(now - x) div iv = 0" if "\<not> x + iv \<le> now" using that True by (intro div_pos_pos_trivial) auto
    ultimately show ?thesis
      using 1(1) [OF _ add] True "1.prems" by (auto simp: skip_ahead.simps [of now iv x] add algebra_simps)
  qed
qed

lemma next_expiry_ge:
  "next_expiry now e = Inr x \<Longrightarrow> 0 < ee_interval e \<Longrightarrow> ee_expiry e < x \<and> now < x"
  using skip_ahead_ge by (fastforce simp: next_expiry_def add_i64_def split: if_splits)

lemma next_expiry_value:
  assumes "0 < ee_interval e" "ee_expiry e \<le> now" "0 \<le> ee_expiry e" "now + ee_interval e < 2 ^ 63"
  shows "next_expiry now e = Inr (ee_expiry e + ee_interval e * ((now - ee_expiry e) div ee_interval e + 1))"
proof -
  let ?x = "ee_expiry e" let ?iv = "ee_interval e"
  have "next_expiry now e = skip_ahead now ?iv (?x + ?iv)" using assms by (simp add: next_expiry_def add_i64_def)
  also have "\<dots> = skip_ahead now ?iv ?x" using assms by (simp add: skip_ahead.simps [of now ?iv ?x] add_i64_def)
  finally show ?thesis using skip_ahead_value [of ?iv now ?x] assms by simp
qed

lemma drain_loop_core:
  assumes env: "min_heap env" "settime_ok env" and "et_core t"
    and "drain_loop env body fuel now cnt w t = Some (Inr r, t')" and few: "few_ids t'"
  shows "et_core t'"
  using assms(3,4)
proof (induction fuel arbitrary: cnt w t)
  case (Suc f)
  have good: "et_core t1" "grown (take_top env t) t1" if "run_et env p (take_top env t) = (Inr w1, t1)" "few_ids t1" "et_heap t \<noteq> []"
    for p w1 t1 using run_et_good [OF env take_top_core(1) that(1,2)] Suc.prems(1) that(3) by (auto simp: good_end_def)
  from Suc.prems(2) show ?case
  proof (cases rule: drain_loopE)
    case (skip f')
    then show ?thesis using Suc.IH pop_stale_core [OF Suc.prems(1)] by auto
  next
    case (once f' w1 t1)
    have "few_ids t1" using drain_loop_issued [OF once(5)] few by simp
    then have "et_core (count_fired t1)" using good(1) [OF once(4) _ once(2)] by simp
    then show ?thesis using Suc.IH once(1,5) by blast
  next
    case (again f' w1 t1 x)
    have few1: "few_ids t1" using drain_loop_issued [OF again(7)] few by (simp add: put_timer_def)
    note g = good [OF again(4) few1 again(2)]
    have "heap_top env (et_heap t) \<in> set (et_heap t)" using again(2) by (rule heap_top_in)
    then have "0 \<le> x" using next_expiry_ge [OF again(6,5)] Suc.prems(1) by (force simp: et_core_def)
    then have "et_core (put_timer ((heap_top env (et_heap t))\<lparr>ee_expiry := x\<rparr>) (count_fired t1))"
      using g(1) grown_keeps_id [OF Suc.prems(1) [unfolded core_struct, THEN conjunct1] again(2) g(2) few1]
      by (intro put_timer_core) auto
    then show ?thesis using Suc.IH again(1,7) by auto
  qed (use Suc.prems(1) in auto)
qed simp

lemma rearm_loop_inv:
  assumes env: "settime_ok env" and "et_core t" and "rearm_loop env t = (Inr u, t')"
  shows "et_core t' \<and> et_armed_ok env t' \<and> et_active t' = et_active t \<and> et_issued t' = et_issued t"
  using assms(2,3)
proof (induction "length (et_heap t)" arbitrary: t rule: less_induct)
  case less
  show ?case
  proof (cases "et_heap t \<noteq> [] \<and> stale t (heap_top env (et_heap t))")
    case True
    let ?t = "t\<lparr>et_heap := heap_pop env (et_heap t)\<rparr>"
    have "length (et_heap ?t) < length (et_heap t)" using True by (simp add: heap_pop_shorter)
    moreover have "et_core ?t" using True pop_stale_core [OF less.prems(1)] by blast
    moreover have "rearm_loop env ?t = (Inr u, t')" using less.prems(2) True by (simp add: rearm_loop.simps [of env t])
    ultimately show ?thesis using less.hyps [of ?t] by simp
  next
    case False
    then show ?thesis using less.prems
      by (auto simp: rearm_loop.simps [of env t] rearm_timerfd_def Let_def et_core_def et_armed_ok_def split: if_splits)
  qed
qed

lemma rearm_loop_issued: "et_issued (snd (rearm_loop env t)) = et_issued t"
proof (induction "length (et_heap t)" arbitrary: t rule: less_induct)
  case less
  show ?case using less [of "t\<lparr>et_heap := heap_pop env (et_heap t)\<rparr>"] heap_pop_shorter [of "et_heap t" env]
    by (simp add: rearm_loop.simps [of env t] rearm_timerfd_def Let_def)
qed

section \<open>Histories of calls\<close>

text \<open>The calls of a client, the drains with a bound on their rounds; an exception ends the history.\<close>

datatype 'c et_op = Op_Schedule int 'c | Op_Periodic int 'c | Op_Cancel u64 | Op_Drain nat

definition et_op_step :: "'c et_env \<Rightarrow> ('c \<Rightarrow> 'w \<Rightarrow> ('w, 'c) et_prog) \<Rightarrow> 'c et_op \<Rightarrow> 'w \<Rightarrow> 'c EpollTimer
    \<Rightarrow> ('w \<times> 'c EpollTimer) option" where
  "et_op_step env body oper w t =
     (case oper of
        Op_Schedule d c \<Rightarrow> (case et_schedule env d c t of (Inr i, t') \<Rightarrow> Some (w, t') | _ \<Rightarrow> None)
      | Op_Periodic d c \<Rightarrow> (case et_schedule_periodic env d c t of (Inr i, t') \<Rightarrow> Some (w, t') | _ \<Rightarrow> None)
      | Op_Cancel i \<Rightarrow> Some (w, snd (et_cancel i t))
      | Op_Drain fuel \<Rightarrow> (case drain_expired env body fuel w t of Some (Inr (n, w'), t') \<Rightarrow> Some (w', t') | _ \<Rightarrow> None))"

fun et_history :: "'c et_env \<Rightarrow> ('c \<Rightarrow> 'w \<Rightarrow> ('w, 'c) et_prog) \<Rightarrow> 'c et_op list \<Rightarrow> 'w \<Rightarrow> 'c EpollTimer
    \<Rightarrow> ('w \<times> 'c EpollTimer) option" where
  "et_history env body [] w t = Some (w, t)"
| "et_history env body (oper # ops) w t =
     (case et_op_step env body oper w t of None \<Rightarrow> None | Some (w', t') \<Rightarrow> et_history env body ops w' t')"

lemma drain_expired_parts:
  assumes "drain_expired env body fuel w t = Some (Inr r, t')" and "et_now_ns env t = (now, t0)"
  obtains t1 where "drain_loop env body fuel now 0 w t0 = Some (Inr r, t1)" "rearm_loop env t1 = (Inr (), t')"
  using assms by (auto simp: drain_expired_def split: option.splits sum.splits prod.splits)

lemma drain_expired_issued:
  assumes "drain_expired env body fuel w t = Some (Inr r, t')"
  shows "et_issued t \<le> et_issued t'"
proof -
  obtain now t0 where t0: "et_now_ns env t = (now, t0)" by force
  then have "et_issued t0 = et_issued t" by (auto simp: et_now_ns_def split: prod.splits)
  moreover obtain t1 where "drain_loop env body fuel now 0 w t0 = Some (Inr r, t1)" "rearm_loop env t1 = (Inr (), t')"
    using drain_expired_parts [OF assms t0] .
  ultimately show ?thesis using drain_loop_issued rearm_loop_issued [of env t1] by fastforce
qed

lemma drain_expired_inv:
  assumes env: "min_heap env" "settime_ok env" and core: "et_core t"
    and "drain_expired env body fuel w t = Some (Inr r, t')" and few: "few_ids t'"
  shows "et_core t' \<and> et_armed_ok env t'"
proof -
  obtain now t0 where t0: "et_now_ns env t = (now, t0)" by force
  then have c0: "et_core t0" "et_issued t0 = et_issued t"
    using core by (auto simp: et_now_ns_def et_core_def split: prod.splits)
  obtain t1 where t1: "drain_loop env body fuel now 0 w t0 = Some (Inr r, t1)" "rearm_loop env t1 = (Inr (), t')"
    using drain_expired_parts [OF assms(4) t0] .
  have "few_ids t1" using few rearm_loop_issued [of env t1] t1(2) by simp
  then have "et_core t1" using drain_loop_core [OF env c0(1) t1(1)] by blast
  then show "et_core t' \<and> et_armed_ok env t'" using rearm_loop_inv [OF env(2) _ t1(2)] by blast
qed

lemma et_op_step_inv:
  assumes env: "min_heap env" "settime_ok env" and inv: "et_core t \<and> et_armed_ok env t"
    and step: "et_op_step env body oper w t = Some (w', t')" and few: "few_ids t'"
  shows "et_core t' \<and> et_armed_ok env t'"
proof (cases oper)
  case (Op_Schedule d c)
  then obtain i where "add_timer env d 0 c t = (Inr i, t')"
    using step by (auto simp: et_op_step_def et_schedule_def split: prod.splits sum.splits)
  then show ?thesis using add_timer_inv [OF env] inv few by blast
next
  case (Op_Periodic d c)
  then obtain i where "add_timer env d d c t = (Inr i, t')"
    using step by (auto simp: et_op_step_def et_schedule_periodic_def split: prod.splits sum.splits)
  then show ?thesis using add_timer_inv [OF env] inv few by blast
next
  case (Op_Cancel i)
  then have "et_cancel i t = (fst (et_cancel i t), t')" using step by (auto simp: et_op_step_def)
  then show ?thesis using cancel_inv inv by blast
next
  case (Op_Drain fuel)
  then obtain r where "drain_expired env body fuel w t = Some (Inr r, t')"
    using step by (auto simp: et_op_step_def split: option.splits prod.splits sum.splits)
  from drain_expired_inv [OF env conjunct1 [OF inv] this few] show ?thesis .
qed

lemma et_op_step_issued: "et_op_step env body oper w t = Some (w', t') \<Longrightarrow> et_issued t \<le> et_issued t'"
proof (cases oper)
  case (Op_Drain fuel)
  assume "et_op_step env body oper w t = Some (w', t')"
  then obtain r where "drain_expired env body fuel w t = Some (Inr r, t')"
    using Op_Drain by (auto simp: et_op_step_def split: option.splits prod.splits sum.splits)
  then show ?thesis by (rule drain_expired_issued)
qed (use add_timer_issued [of env _ _ _ t] in \<open>auto simp: et_op_step_def et_schedule_def et_schedule_periodic_def
   et_cancel_def split: prod.splits sum.splits option.splits intro: Suc_leD dest!: arg_cong [where f = "\<lambda>p. et_issued (snd p)"]\<close>)

lemma et_history_issued: "et_history env body ops w t = Some (w', t') \<Longrightarrow> et_issued t \<le> et_issued t'"
proof (induction ops arbitrary: w t)
  case (Cons oper ops)
  then show ?case using et_op_step_issued by (fastforce split: option.splits intro: le_trans)
qed simp

lemma et_history_inv:
  assumes env: "min_heap env" "settime_ok env" and "et_core t \<and> et_armed_ok env t"
    and "et_history env body ops w t = Some (w', t')" and few: "few_ids t'"
  shows "et_core t' \<and> et_armed_ok env t'"
  using assms(3,4)
proof (induction ops arbitrary: w t)
  case (Cons oper ops)
  then obtain w1 t1 where s: "et_op_step env body oper w t = Some (w1, t1)" "et_history env body ops w1 t1 = Some (w', t')"
    by (auto split: option.splits)
  have "et_issued t1 \<le> et_issued t'" using et_history_issued s(2) .
  then have "et_core t1 \<and> et_armed_ok env t1" using et_op_step_inv [OF env Cons.prems(1) s(1)] few by simp
  then show ?case using Cons.IH s(2) by blast
qed simp

end
