(* ===== verification/Epoll_Props.thy ===== *)
theory Epoll_Props
  imports Epoll_Inv
begin

text \<open>
  What \<open>drain_expired\<close> does when the callbacks leave the timer alone, and the properties of the epoll
  timer.
\<close>

section \<open>Draining with callbacks that leave the timer alone\<close>

definition quiet_cb :: "('c \<Rightarrow> 'w \<Rightarrow> 'w) \<Rightarrow> 'c \<Rightarrow> 'w \<Rightarrow> ('w, 'c) et_prog" where
  "quiet_cb f c w = EDone (f c w)"

lemma run_quiet [simp]: "run_et env (quiet_cb f c w) t = (Inr (f c w), t)"
  by (simp add: quiet_cb_def)

definition due_now :: "int \<Rightarrow> 'c EpollTimer \<Rightarrow> 'c EEntry set" where
  "due_now now t = {e \<in> ran (et_active t). ee_expiry e \<le> now}"

text \<open>The live timers after a drain at \<open>now\<close>: a periodic one goes on at its first deadline after \<open>now\<close>.\<close>

definition catch_up :: "int \<Rightarrow> 'c EEntry \<Rightarrow> int" where
  "catch_up now e = ee_expiry e + ee_interval e * ((now - ee_expiry e) div ee_interval e + 1)"

definition after_drain :: "int \<Rightarrow> (u64 \<rightharpoonup> 'c EEntry) \<Rightarrow> (u64 \<rightharpoonup> 'c EEntry)" where
  "after_drain now act i = (case act i of None \<Rightarrow> None
     | Some e \<Rightarrow> if now < ee_expiry e then Some e
                 else if 0 < ee_interval e then Some (e\<lparr>ee_expiry := catch_up now e\<rparr>) else None)"

text \<open>The entries a drain takes off the heap.\<close>

definition old_count :: "int \<Rightarrow> 'c EpollTimer \<Rightarrow> nat" where
  "old_count now t = size (filter_mset (\<lambda>e. ee_expiry e \<le> now \<or> stale t e) (mset (et_heap t)))"

lemma old_count_pop:
  assumes "et_heap t \<noteq> []" and "et_core t" and "let e = heap_top env (et_heap t) in ee_expiry e \<le> now \<or> stale t e"
    and "\<And>i. i \<noteq> ee_id (heap_top env (et_heap t)) \<Longrightarrow> act i = et_active t i"
  shows "old_count now t = Suc (old_count now (t\<lparr>et_heap := heap_pop env (et_heap t), et_active := act\<rparr>))"
proof -
  let ?t = "t\<lparr>et_heap := heap_pop env (et_heap t), et_active := act\<rparr>"
  have "stale ?t e = stale t e" if "e \<in> set (heap_pop env (et_heap t))" for e
  proof -
    have "ee_id e \<noteq> ee_id (heap_top env (et_heap t))"
      using that assms(2) heap_distinct [OF assms(1), of env] unfolding et_core_def by (metis imageI)
    then show ?thesis using assms(4) by (simp add: stale_def)
  qed
  then have "filter_mset (\<lambda>e. ee_expiry e \<le> now \<or> stale ?t e) (mset (heap_pop env (et_heap t)))
    = filter_mset (\<lambda>e. ee_expiry e \<le> now \<or> stale t e) (mset (heap_pop env (et_heap t)))"
    by (intro filter_mset_cong) auto
  then show ?thesis using assms(3) heap_mset [OF assms(1), of env] by (simp add: old_count_def Let_def)
qed

lemma old_count_put:
  assumes "now < ee_expiry e" and "ee_id e \<notin> ee_id ` set (et_heap t)"
  shows "old_count now (put_timer e t) = old_count now t"
proof -
  have "stale (put_timer e t) a = stale t a" if "a \<in> set (et_heap t)" for a
  proof -
    have "ee_id a \<noteq> ee_id e" using that assms(2) by (metis imageI)
    then show ?thesis by (simp add: stale_def put_timer_def)
  qed
  then have "filter_mset (\<lambda>a. ee_expiry a \<le> now \<or> stale (put_timer e t) a) (mset (et_heap t))
    = filter_mset (\<lambda>a. ee_expiry a \<le> now \<or> stale t a) (mset (et_heap t))"
    by (intro filter_mset_cong) auto
  moreover have "\<not> stale (put_timer e t) e" by (simp add: stale_def put_timer_def)
  moreover have "mset (et_heap (put_timer e t)) = add_mset e (mset (et_heap t))" by (simp add: put_timer_def heap_push_def)
  ultimately show ?thesis using assms(1) by (simp add: old_count_def)
qed

lemma live_top:
  assumes "et_core t" and "et_heap t \<noteq> []" and "\<not> stale t (heap_top env (et_heap t))"
  shows "et_active t (ee_id (heap_top env (et_heap t))) = Some (heap_top env (et_heap t))"
proof -
  let ?top = "heap_top env (et_heap t)"
  obtain a where a: "et_active t (ee_id ?top) = Some a" using assms(3) by (auto simp: stale_def split: option.splits)
  then have "a \<in> set (et_heap t)" "ee_id a = ee_id ?top" using assms(1) by (auto simp: et_core_def)
  then have "a = ?top" using assms(1) heap_top_in [OF assms(2), of env]
    by (auto simp: et_core_def distinct_map dest: inj_onD)
  with a show ?thesis by simp
qed

definition drains_to :: "int \<Rightarrow> ('c \<Rightarrow> 'w \<Rightarrow> 'w) \<Rightarrow> nat \<Rightarrow> 'w \<Rightarrow> 'c EpollTimer
    \<Rightarrow> ((epoll_error + (nat \<times> 'w)) \<times> 'c EpollTimer) option \<Rightarrow> bool" where
  "drains_to now f cnt w t res \<longleftrightarrow> (\<exists>es t'. res = Some (Inr (cnt + length es, foldl (\<lambda>w e. f (ee_cb e) w) w es), t') \<and>
     distinct es \<and> set es = due_now now t \<and> sorted (map ee_expiry es) \<and>
     et_active t' = after_drain now (et_active t) \<and> et_core t' \<and> et_issued t' = et_issued t)"

lemma nothing_due:
  assumes "et_core t" and "\<forall>e\<in>set (et_heap t). now < ee_expiry e"
  shows "due_now now t = {}" and "after_drain now (et_active t) = et_active t"
proof -
  have "now < ee_expiry e" if "et_active t i = Some e" for i e using assms that by (auto simp: et_core_def)
  then show "due_now now t = {}" "after_drain now (et_active t) = et_active t"
    by (fastforce simp: due_now_def ran_def, auto simp: after_drain_def fun_eq_iff split: option.splits)
qed

text \<open>One round that runs a due timer: what is due is the rest, and the outcome is the same.\<close>

lemma ran_take:
  assumes "et_active t i = Some e" and "et_core t"
  shows "ran ((et_active t)(i := None)) = ran (et_active t) - {e}"
proof -
  have "j = i" if "et_active t j = Some e" for j using that assms unfolding et_core_def by metis
  moreover have "j \<noteq> i" if "et_active t j = Some a" "a \<noteq> e" for a j using that assms(1) by auto
  moreover have "a \<in> ran ((et_active t)(i := None)) \<longleftrightarrow> (\<exists>j. j \<noteq> i \<and> et_active t j = Some a)" for a
    by (auto simp: ran_def split: if_splits)
  ultimately show ?thesis by (auto simp: ran_def set_eq_iff)
qed

lemma due_take:
  assumes "et_core t" "et_heap t \<noteq> []" "\<not> stale t (heap_top env (et_heap t))"
  shows "due_now now (take_top env t) = due_now now t - {heap_top env (et_heap t)}"
  using ran_take [OF live_top [OF assms] assms(1)] by (auto simp: due_now_def take_top_def)

lemma due_put:
  assumes "now < ee_expiry e" and "et_active t (ee_id e) = None"
  shows "due_now now (put_timer e t) = due_now now t"
  using assms by (auto simp: due_now_def put_timer_def)

lemma after_once:
  assumes "et_active t (ee_id e) = Some e" "ee_expiry e \<le> now" "\<not> 0 < ee_interval e"
  shows "after_drain now ((et_active t)(ee_id e := None)) = after_drain now (et_active t)"
  using assms by (auto simp: after_drain_def fun_eq_iff)

lemma after_again:
  assumes "et_active t (ee_id e) = Some e" "ee_expiry e \<le> now" "0 < ee_interval e" "now < catch_up now e"
  shows "after_drain now ((et_active t)(ee_id e \<mapsto> e\<lparr>ee_expiry := catch_up now e\<rparr>)) = after_drain now (et_active t)"
  using assms by (auto simp: after_drain_def fun_eq_iff)

lemma quiet_round:
  assumes env: "min_heap env" and core: "et_core t" and top: "heap_top env (et_heap t) \<in> due_now now t"
    and t1: "due_now now t1 = due_now now t - {heap_top env (et_heap t)}"
      "after_drain now (et_active t1) = after_drain now (et_active t)" "et_issued t1 = et_issued t"
    and res: "drains_to now f (Suc cnt) (f (ee_cb (heap_top env (et_heap t))) w) t1 res"
  shows "drains_to now f cnt w t res"
proof -
  let ?top = "heap_top env (et_heap t)"
  obtain es t' where es: "res = Some (Inr (Suc cnt + length es, foldl (\<lambda>w e. f (ee_cb e) w) (f (ee_cb ?top) w) es), t')"
    "distinct es" "set es = due_now now t - {?top}" "sorted (map ee_expiry es)"
    "et_active t' = after_drain now (et_active t)" "et_core t'" "et_issued t' = et_issued t"
    using res t1 unfolding drains_to_def by metis
  have "ee_expiry ?top \<le> ee_expiry e" if "e \<in> set es" for e
  proof -
    have "e \<in> set (et_heap t)" using that es(3) core by (auto simp: due_now_def ran_def et_core_def)
    then show ?thesis using env unfolding min_heap_def by (metis empty_iff empty_set)
  qed
  then show ?thesis unfolding drains_to_def using es top by (intro exI [of _ "?top # es"] exI [of _ t']) auto
qed

lemma drain_quiet:
  assumes env: "min_heap env" "settime_ok env" and "et_core t" and "few_ids t"
    and "\<forall>e\<in>set (et_heap t). now + ee_interval e < 2 ^ 63" and "old_count now t < fuel"
  shows "drains_to now f cnt w t (drain_loop env (quiet_cb f) fuel now cnt w t)"
  using assms(3-)
proof (induction fuel arbitrary: cnt w t)
  case (Suc fuel)
  let ?top = "heap_top env (et_heap t)"
  note core = Suc.prems(1)
  consider (a) "et_heap t = [] \<or> et_heap t \<noteq> [] \<and> \<not> stale t ?top \<and> now < ee_expiry ?top"
    | (b) "et_heap t \<noteq> []" "stale t ?top" | (d) "et_heap t \<noteq> []" "\<not> stale t ?top" "ee_expiry ?top \<le> now"
    by linarith
  then show ?case
  proof cases
    case a
    then have "\<forall>e\<in>set (et_heap t). now < ee_expiry e"
      using env(1) unfolding min_heap_def by (metis empty_iff empty_set less_le_trans)
    then show ?thesis using a core nothing_due [OF core] by (auto simp: drains_to_def Let_def)
  next
    case b
    let ?t = "t\<lparr>et_heap := heap_pop env (et_heap t)\<rparr>"
    have "old_count now t = Suc (old_count now ?t)"
      using old_count_pop [OF b(1) core, of env now "et_active t"] b by (simp add: Let_def)
    moreover have "set (et_heap ?t) \<subseteq> set (et_heap t)" using heap_set [OF b(1), of env] by auto
    ultimately have "drains_to now f cnt w ?t (drain_loop env (quiet_cb f) fuel now cnt w ?t)"
      using Suc.prems by (intro Suc.IH pop_stale_core [OF core b]) auto
    then show ?thesis using b by (simp add: drains_to_def due_now_def Let_def)
  next
    case d
    let ?t = "count_fired (take_top env t)"
    note live = live_top [OF core d(1,2)]
    have top: "?top \<in> set (et_heap t)" using d(1) by (rule heap_top_in)
    have ct: "et_core ?t" "?top \<in> due_now now t"
      using take_top_core(1) [OF core d(1)] live d(3) by (auto simp: due_now_def ran_def)
    have old: "old_count now t = Suc (old_count now ?t)"
      using old_count_pop [OF d(1) core, of env now "(et_active t)(ee_id ?top := None)"] d(3)
      by (simp add: Let_def old_count_def stale_def take_top_def)
    have du: "due_now now ?t = due_now now t - {?top}"
      using due_take [OF core d(1,2), of now] by (simp add: due_now_def)
    have sub: "set (et_heap ?t) \<subseteq> set (et_heap t)" using heap_set [OF d(1), of env] by (auto simp: take_top_def)
    show ?thesis
    proof (cases "0 < ee_interval ?top")
      case False
      have "drains_to now f (Suc cnt) (f (ee_cb ?top) w) ?t
        (drain_loop env (quiet_cb f) fuel now (Suc cnt) (f (ee_cb ?top) w) ?t)"
        using Suc.prems old sub by (intro Suc.IH ct(1)) (auto simp: take_top_def)
      from quiet_round [OF env(1) core ct(2) du _ _ this] after_once [OF live d(3) False] d False show ?thesis
        by (simp add: Let_def take_top_def)
    next
      case True
      let ?e = "?top\<lparr>ee_expiry := catch_up now ?top\<rparr>"
      have nx: "next_expiry now ?top = Inr (catch_up now ?top)"
        unfolding catch_up_def using True d(3) core top Suc.prems(3) by (intro next_expiry_value) (auto simp: et_core_def)
      have later: "now < ee_expiry ?e" "0 \<le> ee_expiry ?e"
        using next_expiry_ge [OF nx True] core top by (auto simp: et_core_def)
      have fresh: "ee_id ?e \<notin> ee_id ` set (et_heap ?t)" "\<exists>k<et_issued ?t. ee_id ?e = issued_id k"
        using grown_keeps_id [OF core [unfolded core_struct, THEN conjunct1] d(1) grown_refl, of env] Suc.prems(2) by (simp_all add: take_top_def)
      have "drains_to now f (Suc cnt) (f (ee_cb ?top) w) (put_timer ?e ?t)
        (drain_loop env (quiet_cb f) fuel now (Suc cnt) (f (ee_cb ?top) w) (put_timer ?e ?t))"
      proof (intro Suc.IH put_timer_core [OF ct(1) fresh later(2)])
        show "few_ids (put_timer ?e ?t)" using Suc.prems(2) by (simp add: put_timer_def take_top_def)
        show "\<forall>e\<in>set (et_heap (put_timer ?e ?t)). now + ee_interval e < 2 ^ 63"
          using Suc.prems(3) sub top by (auto simp: put_timer_def heap_push_def)
        show "old_count now (put_timer ?e ?t) < fuel"
          using old_count_put [OF later(1) fresh(1)] old Suc.prems(4) by simp
      qed
      moreover have "due_now now (put_timer ?e ?t) = due_now now t - {?top}"
        using due_put [OF later(1), of ?t] du by (simp add: take_top_def)
      moreover have "after_drain now (et_active (put_timer ?e ?t)) = after_drain now (et_active t)"
        using after_again [OF live d(3) True] later(1) by (simp add: put_timer_def take_top_def)
      moreover have "et_issued (put_timer ?e ?t) = et_issued t" by (simp add: put_timer_def take_top_def)
      ultimately have "drains_to now f cnt w t
        (drain_loop env (quiet_cb f) fuel now (Suc cnt) (f (ee_cb ?top) w) (put_timer ?e ?t))"
        by (intro quiet_round [OF env(1) core ct(2)])
      then show ?thesis using d True nx by (simp add: Let_def take_top_def put_timer_def)
    qed
  qed
qed simp

text \<open>Whatever the callbacks do with the timer: a drain that comes to its end has left no live timer that is due.\<close>

lemma drain_loop_none_due:
  assumes env: "min_heap env"
  shows "drain_loop env body fuel now cnt w t = Some (Inr r, t') \<Longrightarrow> et_core t' \<Longrightarrow> et_active t' i = Some e \<Longrightarrow> now < ee_expiry e"
proof (induction fuel arbitrary: cnt w t)
  case (Suc fuel)
  have top: "now < ee_expiry e" if "et_heap t = [] \<or> now < ee_expiry (heap_top env (et_heap t))" "t' = t"
  proof -
    have "e \<in> set (et_heap t)" using Suc.prems(2,3) that(2) by (auto simp: et_core_def)
    then show ?thesis using env that(1) unfolding min_heap_def by (metis empty_iff empty_set less_le_trans)
  qed
  from Suc.prems(1) show ?case
  proof (cases rule: drain_loopE)
    case skip
    then show ?thesis using Suc.IH Suc.prems(2,3) by simp
  next
    case once
    then show ?thesis using Suc.IH Suc.prems(2,3) by simp
  next
    case again
    then show ?thesis using Suc.IH Suc.prems(2,3) by simp
  qed (use top in auto)
qed simp

lemma drain_expired_none_due:
  assumes env: "min_heap env" "settime_ok env" and core: "et_core t"
    and d: "drain_expired env body fuel w t = Some (Inr r, t')" and few: "few_ids t'" and e: "et_active t' i = Some e"
  shows "fst (et_now_ns env t) < ee_expiry e"
proof -
  obtain now t0 where t0: "et_now_ns env t = (now, t0)" by force
  then have c0: "et_core t0" using core by (auto simp: et_now_ns_def et_core_def split: prod.splits)
  obtain t1 where t1: "drain_loop env body fuel now 0 w t0 = Some (Inr r, t1)" "rearm_loop env t1 = (Inr (), t')"
    using drain_expired_parts [OF d t0] .
  have "few_ids t1" using few rearm_loop_issued [of env t1] t1(2) by simp
  then have core1: "et_core t1" using drain_loop_core [OF env c0 t1(1)] by blast
  then have "et_active t1 i = Some e" using rearm_loop_inv [OF env(2) _ t1(2)] e by simp
  from drain_loop_none_due [OF env(1) t1(1) core1 this] show ?thesis by (simp add: t0)
qed

lemma rearm_loop_ok:
  assumes env: "settime_ok env" and "et_core t"
  shows "\<exists>t'. rearm_loop env t = (Inr (), t')"
  using assms(2)
proof (induction "length (et_heap t)" arbitrary: t rule: less_induct)
  case less
  let ?top = "heap_top env (et_heap t)"
  let ?t = "t\<lparr>et_heap := heap_pop env (et_heap t)\<rparr>"
  consider "et_heap t = []" | "et_heap t \<noteq> []" "stale t ?top" | "et_heap t \<noteq> []" "\<not> stale t ?top" by blast
  then show ?case
  proof cases
    case 2
    have "length (et_heap ?t) < length (et_heap t)" using heap_pop_shorter [OF 2(1), of env] by simp
    then obtain t' where "rearm_loop env ?t = (Inr (), t')" using less.hyps pop_stale_core [OF less.prems 2] by blast
    then show ?thesis using 2 by (simp add: rearm_loop.simps [of env t])
  next
    case 3
    have "0 \<le> ee_expiry ?top" using less.prems heap_top_in [OF 3(1), of env] by (auto simp: et_core_def)
    then show ?thesis using 3 settime_iff [OF env] by (simp add: rearm_loop.simps [of env t] rearm_timerfd_def Let_def)
  qed (simp add: rearm_loop.simps [of env t])
qed

lemma old_count_le: "old_count now t \<le> length (et_heap t)"
  unfolding old_count_def by (metis size_filter_mset_lesseq size_mset)

lemma new_EpollTimer_inv: "et_core new_EpollTimer \<and> et_armed_ok env new_EpollTimer"
  by (simp add: new_EpollTimer_def et_core_def et_armed_ok_def issued_id_def)

section \<open>A concrete environment\<close>

fun first_min :: "'c EEntry list \<Rightarrow> nat" where
  "first_min [] = 0"
| "first_min [e] = 0"
| "first_min (e # es) = (let i = first_min es in if ee_expiry e \<le> ee_expiry (es ! i) then 0 else Suc i)"

lemma first_min_least:
  "h \<noteq> [] \<Longrightarrow> first_min h < length h \<and> (\<forall>e\<in>set h. ee_expiry (h ! first_min h) \<le> ee_expiry e)"
  by (induction h rule: first_min.induct) (auto simp: Let_def)

text \<open>The clock reads \<open>n\<close> seconds at its reading \<open>n\<close>.\<close>

definition sample_et :: "'c et_env" where
  "sample_et = \<lparr> top_index = first_min, clock = (\<lambda>n. (int n, 0)),
     settime = (\<lambda>(s, n). if 0 \<le> s \<and> 0 \<le> n \<and> n < 1000000000 then 0 else 22) \<rparr>"

lemma sample_et_heap: "min_heap sample_et"
  unfolding min_heap_def
proof (intro allI impI)
  fix h :: "'c EEntry list"
  assume "h \<noteq> []"
  from first_min_least [OF this] show "\<forall>e\<in>set h. ee_expiry (heap_top sample_et h) \<le> ee_expiry e"
    by (simp add: heap_top_def top_pos_def sample_et_def)
qed

lemma sample_et_settime: "settime_ok sample_et"
  by (simp add: settime_ok_def sample_et_def)

definition sample_timer :: "nat EpollTimer" where
  "sample_timer = snd (et_schedule sample_et 1000000000 7 new_EpollTimer)"

lemmas sample_et_defs = sample_timer_def sample_et_def et_schedule_def add_timer_def et_now_ns_def add_i64_def
  rearm_timerfd_def to_itimerspec_def heap_push_def heap_top_def top_pos_def new_EpollTimer_def Let_def

lemma distinct_filter_id:
  "distinct (map ee_id h) \<Longrightarrow> e \<in> set h \<Longrightarrow> filter (\<lambda>a. ee_id a = ee_id e) h = [e]"
proof (induction h)
  case (Cons a h)
  have "filter (\<lambda>b. ee_id b = ee_id a) h = []" using Cons.prems(1) by (auto simp: filter_empty_conv) (metis imageI)
  then show ?case using Cons by auto
qed simp

section \<open>Properties\<close>

text \<open>
  C21. A drain runs exactly what is due. With callbacks that leave the timer alone (\<open>quiet_cb\<close>), \<open>drain_expired\<close>
  ends after at most one round per heap entry and one more; it runs the live timers whose deadline has
  passed, each once, in the order of their deadlines, whatever the heap does with ties; cancelled
  timers do not run. Afterwards a one-shot timer that ran is gone, a periodic one is set to its first
  deadline after the current time on its original cadence, all others are unchanged, and the
  \<open>timerfd\<close> is set to the earliest entry. With callbacks that schedule and cancel timers as they like, a drain that
  returns has left no live timer that was due at the time it read, and the \<open>timerfd\<close> is set to the earliest entry
  too; such callbacks can make it throw or go on for ever.
\<close>

theorem epoll_drain_correct:
  assumes "min_heap env" and "settime_ok env" and core: "et_core t" and few: "few_ids t"
    and room: "\<forall>e\<in>set (et_heap t). fst (et_now_ns env t) + ee_interval e < 2 ^ 63"
    and fuel: "length (et_heap t) < fuel" and now: "now = fst (et_now_ns env t)"
  shows "(\<exists>es t'. drain_expired env (quiet_cb f) fuel w t
      = Some (Inr (length es, foldl (\<lambda>w e. f (ee_cb e) w) w es), t')
    \<and> distinct es \<and> set es = {e. e \<in> ran (et_active t) \<and> ee_expiry e \<le> now} \<and> sorted (map ee_expiry es)
    \<and> et_active t' = (\<lambda>i. case et_active t i of None \<Rightarrow> None
        | Some e \<Rightarrow> if now < ee_expiry e then Some e
            else if 0 < ee_interval e
            then Some (e\<lparr>ee_expiry := ee_expiry e + ee_interval e * ((now - ee_expiry e) div ee_interval e + 1)\<rparr>)
            else None)
    \<and> et_core t' \<and> et_armed_ok env t') \<and>
    (\<forall>body fuel w r t'. drain_expired env body fuel w t = Some (Inr r, t') \<and> few_ids t' \<longrightarrow>
       (\<forall>i e. et_active t' i = Some e \<longrightarrow> now < ee_expiry e) \<and> et_core t' \<and> et_armed_ok env t')"
proof (rule conjI)
  show "\<forall>body fuel w r t'. drain_expired env body fuel w t = Some (Inr r, t') \<and> few_ids t' \<longrightarrow>
       (\<forall>i e. et_active t' i = Some e \<longrightarrow> now < ee_expiry e) \<and> et_core t' \<and> et_armed_ok env t'"
    using drain_expired_none_due [OF assms(1,2) core] drain_expired_inv [OF assms(1,2) core] unfolding now by metis
  obtain t0 where t0: "et_now_ns env t = (now, t0)" using now by (metis prod.collapse)
  have c0: "et_core t0" "et_heap t0 = et_heap t" "et_active t0 = et_active t" "et_issued t0 = et_issued t"
    using t0 core by (auto simp: et_now_ns_def et_core_def split: prod.splits)
  have "old_count now t0 < fuel" using old_count_le [of now t0] fuel c0(2) by simp
  then have "drains_to now f 0 w t0 (drain_loop env (quiet_cb f) fuel now 0 w t0)"
    using drain_quiet [OF assms(1,2) c0(1), of now fuel f 0 w] few room now c0 by simp
  then obtain es t1 where es: "drain_loop env (quiet_cb f) fuel now 0 w t0
      = Some (Inr (length es, foldl (\<lambda>w e. f (ee_cb e) w) w es), t1)"
    "distinct es" "set es = due_now now t0" "sorted (map ee_expiry es)"
    "et_active t1 = after_drain now (et_active t0)" "et_core t1"
    unfolding drains_to_def by auto
  obtain t' where t': "rearm_loop env t1 = (Inr (), t')" using rearm_loop_ok [OF assms(2) es(6)] by blast
  note inv = rearm_loop_inv [OF assms(2) es(6) t']
  have "drain_expired env (quiet_cb f) fuel w t = Some (Inr (length es, foldl (\<lambda>w e. f (ee_cb e) w) w es), t')"
    using t0 es(1) t' by (simp add: drain_expired_def)
  moreover have "et_active t' = after_drain now (et_active t)" using inv es(5) c0(3) by simp
  ultimately show "\<exists>es t'. drain_expired env (quiet_cb f) fuel w t
      = Some (Inr (length es, foldl (\<lambda>w e. f (ee_cb e) w) w es), t')
    \<and> distinct es \<and> set es = {e. e \<in> ran (et_active t) \<and> ee_expiry e \<le> now} \<and> sorted (map ee_expiry es)
    \<and> et_active t' = (\<lambda>i. case et_active t i of None \<Rightarrow> None
        | Some e \<Rightarrow> if now < ee_expiry e then Some e
            else if 0 < ee_interval e
            then Some (e\<lparr>ee_expiry := ee_expiry e + ee_interval e * ((now - ee_expiry e) div ee_interval e + 1)\<rparr>)
            else None)
    \<and> et_core t' \<and> et_armed_ok env t'" using es(2-4) inv c0(3)
    by (intro exI [of _ es] exI [of _ t']) (auto simp: due_now_def after_drain_def catch_up_def fun_eq_iff split: option.splits)
qed

theorem epoll_drain_correct_witness:
  "\<exists>t'. drain_expired sample_et (quiet_cb (\<lambda>c l. l @ [c])) 2 [] sample_timer = Some (Inr (1, [7]), t') \<and> et_active t' 1 = None"
proof -
  let ?e = "\<lparr> ee_id = 1, ee_expiry = 1000000000, ee_interval = 0, ee_cb = 7 :: nat \<rparr>"
  have s: "et_heap sample_timer = [?e]" "et_active sample_timer = [1 \<mapsto> ?e]" "et_issued sample_timer = 1"
    "et_next_id sample_timer = 2" "fst (et_now_ns sample_et sample_timer) = 1000000000"
    by (simp_all add: sample_et_defs)
  have core: "et_core sample_timer" using s by (auto simp: et_core_def issued_id_def)
  have few: "few_ids sample_timer" and fuel: "length (et_heap sample_timer) < 2"
    and room: "\<forall>e\<in>set (et_heap sample_timer). fst (et_now_ns sample_et sample_timer) + ee_interval e < 2 ^ 63"
    using s by simp_all
  obtain es t' where es: "drain_expired sample_et (quiet_cb (\<lambda>c l. l @ [c])) 2 [] sample_timer
      = Some (Inr (length es, foldl (\<lambda>w e. w @ [ee_cb e]) [] es), t')" "distinct es"
    "set es = {e. e \<in> ran (et_active sample_timer) \<and> ee_expiry e \<le> 1000000000}"
    "et_active t' = (\<lambda>i. case et_active sample_timer i of None \<Rightarrow> None
        | Some e \<Rightarrow> if 1000000000 < ee_expiry e then Some e
            else if 0 < ee_interval e
            then Some (e\<lparr>ee_expiry := ee_expiry e + ee_interval e * ((1000000000 - ee_expiry e) div ee_interval e + 1)\<rparr>)
            else None)"
    using epoll_drain_correct [OF sample_et_heap sample_et_settime core few room fuel s(5) [symmetric], of "\<lambda>c l. l @ [c]" "[]"]
    by (elim conjE exE) blast
  have "set es = {?e}" unfolding es(3) s(2) by (auto simp: ran_def)
  moreover from this have "length es = 1" using distinct_card [OF es(2)] by simp
  ultimately have "es = [?e]" by (cases es) simp_all
  moreover have "et_active t' 1 = None" unfolding es(4) s(2) by simp
  ultimately show ?thesis using es(1) by simp
qed

text \<open>
  C22. The timer never wakes up too late. After any sequence of calls that schedule, cancel and
  drain, with callbacks that themselves schedule and cancel, none of which throws or runs on for ever, every live
  timer has exactly one entry on the heap, and the \<open>timerfd\<close> is set to a time that is not after its deadline and is
  itself the deadline of a heap entry. It is on exactly if no entry has the deadline 0: that time would switch it
  off. Fewer than \<open>2^64 - 1\<close> identifiers were handed out.
\<close>

theorem epoll_never_late:
  assumes "min_heap env" and "settime_ok env" and h: "et_history env body ops w new_EpollTimer = Some (w', t)"
    and few: "et_issued t < 2 ^ 64 - 1" and e: "et_active t i = Some e"
  shows "ee_id e = i \<and> filter (\<lambda>a. ee_id a = i) (et_heap t) = [e]
    \<and> (\<exists>m. et_armed t = Some (m div 1000000000, m mod 1000000000) \<and> 0 \<le> m \<and> m \<le> ee_expiry e \<and> m \<in> ee_expiry ` set (et_heap t))
    \<and> (et_armed t \<noteq> Some (0, 0) \<longleftrightarrow> 0 \<notin> ee_expiry ` set (et_heap t))"
proof -
  have inv: "et_core t" "et_armed_ok env t"
    using et_history_inv [OF assms(1,2) new_EpollTimer_inv h few] by auto
  have i: "ee_id e = i" "e \<in> set (et_heap t)" using inv(1) e by (auto simp: et_core_def)
  then have ne: "et_heap t \<noteq> []" by auto
  let ?m = "ee_expiry (heap_top env (et_heap t))"
  have m: "0 \<le> ?m" using heap_top_in [OF ne, of env] inv(1) by (auto simp: et_core_def)
  have armed: "et_armed t = Some (?m div 1000000000, ?m mod 1000000000)"
    using inv(2) ne to_itimerspec_nonneg [OF m] by (simp add: et_armed_ok_def)
  have least: "?m \<le> ee_expiry a" if "a \<in> set (et_heap t)" for a using assms(1) ne that by (auto simp: min_heap_def)
  have top: "?m \<in> ee_expiry ` set (et_heap t)" using heap_top_in [OF ne, of env] by simp
  have "(?m div 1000000000, ?m mod 1000000000) = (0, 0) \<longleftrightarrow> ?m = 0"
    using mult_div_mod_eq [of 1000000000 ?m] by (metis add.right_neutral div_0 mod_0 mult_zero_right prod.inject)
  moreover have "?m = 0 \<longleftrightarrow> 0 \<in> ee_expiry ` set (et_heap t)"
  proof
    assume "0 \<in> ee_expiry ` set (et_heap t)"
    then have "?m \<le> 0" using least by fastforce
    with m show "?m = 0" by simp
  qed (use top in simp)
  ultimately have "et_armed t \<noteq> Some (0, 0) \<longleftrightarrow> 0 \<notin> ee_expiry ` set (et_heap t)" by (simp only: armed option.inject)
  moreover have "filter (\<lambda>a. ee_id a = i) (et_heap t) = [e]"
    using i inv(1) distinct_filter_id by (auto simp: et_core_def)
  ultimately show ?thesis using i armed m least [OF i(2)] top by blast
qed

theorem epoll_never_late_witness:
  "\<exists>w t. et_history sample_et (\<lambda>c w. EDone w) [Op_Schedule 5000000000 (8 :: nat), Op_Periodic 2000000000 9] () new_EpollTimer = Some (w, t)
    \<and> (\<exists>m. et_armed t = Some (m div 1000000000, m mod 1000000000) \<and> 0 \<le> m \<and> m \<le> 5000000000)"
proof -
  let ?h = "et_history sample_et (\<lambda>c w. EDone w) [Op_Schedule 5000000000 (8 :: nat), Op_Periodic 2000000000 9] () new_EpollTimer"
  obtain t where t: "?h = Some ((), t)" "et_issued t = 2" "map_option ee_expiry (et_active t 1) = Some 5000000000"
    by (simp add: et_op_step_def et_schedule_periodic_def sample_et_defs)
  then obtain e where e: "et_active t 1 = Some e" "ee_expiry e = 5000000000" by auto
  have "et_issued t < 2 ^ 64 - 1" using t(2) by simp
  from epoll_never_late [OF sample_et_heap sample_et_settime t(1) this e(1)] t(1) show ?thesis unfolding e(2) by blast
qed

end
