(* ===== verification/Epoll_Sessions.thy ===== *)
theory Epoll_Sessions
  imports Epoll_Props
begin

text \<open>
  The epoll timer through exceptions: a client that catches what a call throws and goes on has a timer whose live
  timers are all on the heap, once. Also \<open>push_entry\<close>, which nothing calls.
\<close>

section \<open>Sessions\<close>

text \<open>
  What a call leaves behind, whether it returns or throws a \<open>system_error\<close> that the client catches; nothing is said
  after a signed overflow, which is undefined.
\<close>

definition caught :: "(epoll_error + 'a) \<times> 'c EpollTimer \<Rightarrow> 'c EpollTimer option" where
  "caught r = (if fst r = Inl SignedOverflow then None else Some (snd r))"

text \<open>One call; \<open>None\<close> is also a drain that has not ended.\<close>

definition et_call :: "'c et_env \<Rightarrow> ('c \<Rightarrow> 'w \<Rightarrow> ('w, 'c) et_prog) \<Rightarrow> 'c et_op \<Rightarrow> 'w \<Rightarrow> 'c EpollTimer \<Rightarrow> 'c EpollTimer option" where
  "et_call env body oper w t =
     (case oper of
        Op_Schedule d c \<Rightarrow> caught (et_schedule env d c t)
      | Op_Periodic d c \<Rightarrow> caught (et_schedule_periodic env d c t)
      | Op_Cancel i \<Rightarrow> Some (snd (et_cancel i t))
      | Op_Drain fuel \<Rightarrow> Option.bind (drain_expired env body fuel w t) caught)"

text \<open>The client's state may be another one at each call.\<close>

fun et_session :: "'c et_env \<Rightarrow> ('c \<Rightarrow> 'w \<Rightarrow> ('w, 'c) et_prog) \<Rightarrow> ('c et_op \<times> 'w) list \<Rightarrow> 'c EpollTimer \<Rightarrow> 'c EpollTimer option" where
  "et_session env body [] t = Some t"
| "et_session env body ((oper, w) # ops) t =
     (case et_call env body oper w t of None \<Rightarrow> None | Some t' \<Rightarrow> et_session env body ops t')"

section \<open>Every operation keeps the structure, thrown or not\<close>

text \<open>From one state to a later one: the identifiers only grow and, unless they wrap, the structure is kept.\<close>

definition keeps :: "'c EpollTimer \<Rightarrow> 'c EpollTimer \<Rightarrow> bool" where
  "keeps t t' \<longleftrightarrow> et_issued t \<le> et_issued t' \<and> (et_struct t \<and> few_ids t' \<longrightarrow> et_struct t' \<and> grown t t')"

lemma keeps_trans: "keeps t u \<Longrightarrow> keeps u v \<Longrightarrow> keeps t v"
  unfolding keeps_def using grown_trans by (meson le_less_trans le_trans)

text \<open>An operation that touches neither the heap nor the table of the live timers.\<close>

lemma keeps_same:
  assumes "et_heap t' = et_heap t" "et_active t' = et_active t" "et_next_id t' = et_next_id t" "et_issued t' = et_issued t"
  shows "keeps t t'"
  using assms by (simp add: keeps_def et_struct_def grown_def)

lemma rearm_keeps: "keeps t (snd (rearm_timerfd env x t))"
  by (rule keeps_same) (simp_all add: rearm_timerfd_def Let_def)

text \<open>A new identifier, with or without an entry under it.\<close>

lemma new_id_keeps:
  assumes "et_next_id t' = et_next_id t + 1" and "et_issued t' = Suc (et_issued t)"
    and "et_heap t' = et_heap t \<and> et_active t' = et_active t \<or>
      ee_id e = et_next_id t \<and> et_heap t' = et_heap t @ [e] \<and> et_active t' = (et_active t)(ee_id e \<mapsto> e)"
  shows "keeps t t'"
  unfolding keeps_def
proof (intro conjI impI)
  show "et_issued t \<le> et_issued t'" using assms(2) by simp
  assume s: "et_struct t \<and> few_ids t'"
  then have next': "et_next_id t' = issued_id (et_issued t')" and old: "\<forall>e\<in>set (et_heap t). \<exists>k<et_issued t. ee_id e = issued_id k"
    and d: "distinct (map ee_id (et_heap t))" and i: "et_next_id t = issued_id (et_issued t)"
    and act: "\<forall>j a. et_active t j = Some a \<longrightarrow> ee_id a = j \<and> a \<in> set (et_heap t)"
    using assms(1,2) by (simp_all add: et_struct_def issued_id_def)
  have fresh: "et_next_id t \<notin> ee_id ` set (et_heap t)"
  proof
    assume "et_next_id t \<in> ee_id ` set (et_heap t)"
    then obtain k where "k < et_issued t" "et_next_id t = issued_id k" using old by (metis imageE)
    then show False using i s assms(2) issued_id_inj [of k "et_issued t"] by simp
  qed
  have added: "a \<in> set (et_heap t) \<or> ee_id a = issued_id (et_issued t)" if "a \<in> set (et_heap t')" for a
    using that assms(3) i by auto
  have ids: "\<exists>k<et_issued t'. ee_id a = issued_id k" if a: "a \<in> set (et_heap t')" for a
  proof -
    consider "a \<in> set (et_heap t)" | "ee_id a = issued_id (et_issued t)" using added [OF a] by blast
    then show ?thesis
    proof cases
      case 1
      then obtain k where "k < et_issued t" "ee_id a = issued_id k" using old by blast
      then show ?thesis using assms(2) by (auto intro: less_SucI)
    qed (use assms(2) in auto)
  qed
  have "distinct (map ee_id (et_heap t'))" using assms(3) d fresh by auto
  moreover have "\<forall>j a. et_active t' j = Some a \<longrightarrow> ee_id a = j \<and> a \<in> set (et_heap t')"
    using assms(3) act by (auto split: if_splits)
  ultimately show "et_struct t'" using next' ids by (simp add: et_struct_def)
  show "grown t t'" using added unfolding grown_def assms(2) by (metis le_SucI lessI order_refl)
qed

lemma add_timer_keeps: "keeps t (snd (add_timer env d iv c t))"
proof -
  let ?t = "t\<lparr>et_next_id := et_next_id t + 1, et_issued := Suc (et_issued t)\<rparr>"
  obtain now t1 where n: "et_now_ns env ?t = (now, t1)" by force
  then have t1: "et_heap t1 = et_heap t" "et_active t1 = et_active t" "et_next_id t1 = et_next_id t + 1"
    "et_issued t1 = Suc (et_issued t)" by (auto simp: et_now_ns_def split: prod.splits)
  show ?thesis
  proof (cases "add_i64 now d")
    case (Inl err)
    then show ?thesis using t1 by (intro new_id_keeps) (simp_all add: add_timer_def n Let_def)
  next
    case (Inr x)
    let ?e = "\<lparr> ee_id = et_next_id t, ee_expiry = x, ee_interval = iv, ee_cb = c \<rparr>"
    have put: "keeps t (put_timer ?e t1)"
      using t1 by (intro new_id_keeps [where e = ?e]) (simp_all add: put_timer_def heap_push_def)
    obtain r t2 where r: "rearm_timerfd env x (put_timer ?e t1) = (r, t2)" by force
    have "keeps t t2" using keeps_trans [OF put rearm_keeps [of _ env x]] r by simp
    moreover have "snd (add_timer env d iv c t) \<in> {put_timer ?e t1, t2}"
      using Inr r by (cases r) (auto simp: add_timer_def n Let_def put_timer_def)
    ultimately show ?thesis using put by auto
  qed
qed

lemma cancel_keeps: "keeps t (snd (et_cancel i t))"
  by (auto simp: keeps_def et_struct_def grown_def et_cancel_def split: option.splits if_splits)

lemma run_et_keeps: "keeps t (snd (run_et env p t))"
proof (induction p arbitrary: t)
  case (EDone w)
  show ?case by (simp add: keeps_same)
next
  case (ESchedule d c k)
  obtain r t1 where r: "et_schedule env d c t = (r, t1)" by force
  then have "keeps t t1" using add_timer_keeps [of t env d 0 c] by (simp add: et_schedule_def)
  then show ?case using keeps_trans [OF _ ESchedule.IH [OF rangeI]] r by (cases r) simp_all
next
  case (EPeriodic d c k)
  obtain r t1 where r: "et_schedule_periodic env d c t = (r, t1)" by force
  then have "keeps t t1" using add_timer_keeps [of t env d d c] by (simp add: et_schedule_periodic_def)
  then show ?case using keeps_trans [OF _ EPeriodic.IH [OF rangeI]] r by (cases r) simp_all
next
  case (ECancel i k)
  obtain b t1 where "et_cancel i t = (b, t1)" by force
  with cancel_keeps [of t i] show ?case using keeps_trans [OF _ ECancel.IH [OF rangeI]] by simp
next
  case (EStop p)
  have "keeps t (et_stop t)" by (rule keeps_same) (simp_all add: et_stop_def)
  then show ?case using keeps_trans [OF _ EStop.IH] by simp
qed

lemma put_timer_struct:
  assumes "et_struct t" "ee_id e \<notin> ee_id ` set (et_heap t)" "\<exists>k<et_issued t. ee_id e = issued_id k"
  shows "et_struct (put_timer e t)"
  using assms by (auto simp: et_struct_def put_timer_def heap_push_def split: if_splits)

lemma count_fired_keeps: "keeps t (count_fired t)"
  by (rule keeps_same) (simp_all add: count_fired_def)

text \<open>One round of a drain: the top leaves the heap, its callback runs, and a periodic timer comes back.\<close>

definition struct_to :: "'c EpollTimer \<Rightarrow> 'c EpollTimer \<Rightarrow> bool" where
  "struct_to t t' \<longleftrightarrow> et_issued t \<le> et_issued t' \<and> (et_struct t \<and> few_ids t' \<longrightarrow> et_struct t')"

lemma struct_to_trans: "struct_to t u \<Longrightarrow> struct_to u v \<Longrightarrow> struct_to t v"
  unfolding struct_to_def by (meson le_less_trans le_trans)

lemma keeps_struct_to: "keeps t t' \<Longrightarrow> struct_to t t'"
  by (simp add: keeps_def struct_to_def)

lemma round_struct:
  assumes "et_heap t \<noteq> []" and "run_et env p (take_top env t) = (q, t1)"
  shows "struct_to t (count_fired t1)" and "struct_to t t1"
    and "struct_to t (put_timer ((heap_top env (et_heap t))\<lparr>ee_expiry := x\<rparr>) (count_fired t1))"
proof -
  have k: "keeps (take_top env t) t1" using run_et_keeps [of "take_top env t" env p] assms(2) by simp
  have top: "struct_to t (take_top env t)" using take_top_struct(1) [OF _ assms(1)] by (simp add: struct_to_def take_top_def)
  show t1: "struct_to t t1" by (rule struct_to_trans [OF top keeps_struct_to [OF k]])
  show cf: "struct_to t (count_fired t1)" by (rule struct_to_trans [OF t1 keeps_struct_to [OF count_fired_keeps]])
  show "struct_to t (put_timer ((heap_top env (et_heap t))\<lparr>ee_expiry := x\<rparr>) (count_fired t1))"
    unfolding struct_to_def
  proof (intro conjI impI)
    show "et_issued t \<le> et_issued (put_timer ((heap_top env (et_heap t))\<lparr>ee_expiry := x\<rparr>) (count_fired t1))"
      using t1 by (simp add: struct_to_def put_timer_def)
    assume s: "et_struct t \<and> few_ids (put_timer ((heap_top env (et_heap t))\<lparr>ee_expiry := x\<rparr>) (count_fired t1))"
    then have few: "few_ids t1" by (simp add: put_timer_def)
    then have "grown (take_top env t) t1" using k s take_top_struct(1) [OF _ assms(1)] by (simp add: keeps_def)
    from grown_keeps_id [OF _ assms(1) this few] s
    show "et_struct (put_timer ((heap_top env (et_heap t))\<lparr>ee_expiry := x\<rparr>) (count_fired t1))"
      using cf few by (intro put_timer_struct) (auto simp: struct_to_def)
  qed
qed

lemma drain_loop_struct: "drain_loop env body fuel now cnt w t = Some (r, t') \<Longrightarrow> struct_to t t'"
proof (induction fuel arbitrary: cnt w t)
  case (Suc f)
  let ?top = "heap_top env (et_heap t)"
  consider (halt) "et_heap t = [] \<or> \<not> stale t ?top \<and> now < ee_expiry ?top" | (skip) "et_heap t \<noteq> []" "stale t ?top"
    | (due) "et_heap t \<noteq> []" "\<not> stale t ?top" "\<not> now < ee_expiry ?top" by blast
  then show ?case
  proof cases
    case halt
    then show ?thesis using Suc.prems by (auto simp: Let_def struct_to_def split: if_splits)
  next
    case skip
    have "struct_to t (t\<lparr>et_heap := heap_pop env (et_heap t)\<rparr>)"
      using pop_stale_struct [OF _ skip] by (simp add: struct_to_def)
    moreover have "struct_to (t\<lparr>et_heap := heap_pop env (et_heap t)\<rparr>) t'"
      using Suc.prems skip by (intro Suc.IH) (simp add: Let_def)
    ultimately show ?thesis by (rule struct_to_trans)
  next
    case due
    obtain q t1 where q: "run_et env (body (ee_cb ?top) w) (take_top env t) = (q, t1)" by force
    note s = round_struct [OF due(1) q]
    show ?thesis
    proof (cases q)
      case (Inl err)
      then show ?thesis using Suc.prems due q s(2) by (simp add: Let_def take_top_def)
    next
      case (Inr w1)
      have rest: "struct_to t t'" if "struct_to t u" "drain_loop env body f now n v u = Some (r, t')" for u n v
        by (rule struct_to_trans [OF that(1) Suc.IH [OF that(2)]])
      show ?thesis
      proof (cases "0 < ee_interval ?top")
        case False
        then show ?thesis using Suc.prems due q Inr rest [OF s(1)] by (simp add: Let_def take_top_def)
      next
        case True
        show ?thesis
        proof (cases "next_expiry now ?top")
          case (Inl err)
          then show ?thesis using Suc.prems due q \<open>q = Inr w1\<close> True s(1) by (simp add: Let_def take_top_def)
        next
          case (Inr x)
          have "drain_loop env body f now (cnt + 1) w1 (put_timer (?top\<lparr>ee_expiry := x\<rparr>) (count_fired t1)) = Some (r, t')"
            using Suc.prems due q \<open>q = Inr w1\<close> True Inr by (simp add: Let_def take_top_def put_timer_def)
          then show ?thesis by (rule rest [OF s(3)])
        qed
      qed
    qed
  qed
qed simp

lemma rearm_loop_struct: "struct_to t (snd (rearm_loop env t))"
proof (induction env t rule: rearm_loop.induct)
  case (1 env t)
  let ?top = "heap_top env (et_heap t)"
  consider "et_heap t = []" | "et_heap t \<noteq> []" "stale t ?top" | "et_heap t \<noteq> []" "\<not> stale t ?top" by blast
  then show ?case
  proof cases
    case 2
    have "struct_to t (t\<lparr>et_heap := heap_pop env (et_heap t)\<rparr>)"
      using pop_stale_struct [OF _ 2] by (simp add: struct_to_def)
    then show ?thesis using struct_to_trans 1 2 by (simp add: rearm_loop.simps [of env t]) blast
  next
    case 3
    then show ?thesis using keeps_struct_to [OF rearm_keeps] by (simp add: rearm_loop.simps [of env t])
  qed (simp add: rearm_loop.simps [of env t] struct_to_def)
qed

lemma drain_expired_struct:
  assumes "drain_expired env body fuel w t = Some (r, t')"
  shows "struct_to t t'"
proof -
  obtain now t0 where t0: "et_now_ns env t = (now, t0)" by force
  then have "keeps t t0" by (intro keeps_same) (auto simp: et_now_ns_def split: prod.splits)
  then have s0: "struct_to t t0" by (rule keeps_struct_to)
  obtain q t1 where q: "drain_loop env body fuel now 0 w t0 = Some (q, t1)"
    using assms t0 by (auto simp: drain_expired_def split: option.splits)
  have s1: "struct_to t t1" by (rule struct_to_trans [OF s0 drain_loop_struct [OF q]])
  have s2: "struct_to t (snd (rearm_loop env t1))" by (rule struct_to_trans [OF s1 rearm_loop_struct])
  show ?thesis using assms t0 q s1 s2 by (auto simp: drain_expired_def split: sum.splits prod.splits)
qed

lemma et_call_struct:
  assumes "et_call env body oper w t = Some t'"
  shows "struct_to t t'"
proof -
  have add: "struct_to t t'" if "caught (add_timer env d iv c t) = Some t'" for d iv c
    using keeps_struct_to [OF add_timer_keeps [of t env d iv c]] that by (simp add: caught_def split: if_splits)
  show ?thesis
  proof (cases oper)
    case (Op_Cancel i)
    then show ?thesis using assms keeps_struct_to [OF cancel_keeps [of t i]] by (simp add: et_call_def)
  next
    case (Op_Drain fuel)
    then obtain r where "drain_expired env body fuel w t = Some (r, t')"
      using assms by (cases "drain_expired env body fuel w t") (auto simp: et_call_def caught_def split: if_splits)
    then show ?thesis by (rule drain_expired_struct)
  qed (use assms add in \<open>simp_all add: et_call_def et_schedule_def et_schedule_periodic_def\<close>)
qed

lemma et_session_struct: "et_session env body ops t = Some t' \<Longrightarrow> struct_to t t'"
proof (induction ops arbitrary: t)
  case Nil
  then show ?case by (simp add: struct_to_def)
next
  case (Cons a ops)
  obtain oper w where "a = (oper, w)" by force
  with Cons.prems obtain t1 where t1: "et_call env body oper w t = Some t1" "et_session env body ops t1 = Some t'"
    by (auto split: option.splits)
  show ?case by (rule struct_to_trans [OF et_call_struct [OF t1(1)] Cons.IH [OF t1(2)]])
qed

section \<open>Properties\<close>

text \<open>
  C23. No timer is lost, exceptions included. Whatever sequence of calls a client makes, with callbacks that schedule
  and cancel timers, when \<open>timerfd_settime\<close> refuses times and the client catches what the calls throw and goes on:
  every live timer is in the table under its own identifier and has exactly one entry on the heap, which is this
  one; no identifier is on the heap twice; so no more timers are pending than entries are on the heap. Fewer than
  \<open>2^64 - 1\<close> identifiers were handed out, and no sum of times has overflowed.
\<close>

theorem epoll_no_timer_lost:
  assumes "et_session env body ops new_EpollTimer = Some t" and "et_issued t < 2 ^ 64 - 1"
  shows "(\<forall>i e. et_active t i = Some e \<longrightarrow> ee_id e = i \<and> filter (\<lambda>a. ee_id a = i) (et_heap t) = [e]) \<and>
    distinct (map ee_id (et_heap t)) \<and> et_pending t \<le> length (et_heap t)"
proof -
  have "et_struct (new_EpollTimer :: 'a EpollTimer)" by (simp add: et_struct_def new_EpollTimer_def issued_id_def)
  then have s: "et_struct t" using et_session_struct [OF assms(1)] assms(2) by (simp add: struct_to_def)
  then have d: "distinct (map ee_id (et_heap t))"
    and act: "\<forall>i e. et_active t i = Some e \<longrightarrow> ee_id e = i \<and> e \<in> set (et_heap t)" by (simp_all add: et_struct_def)
  have "dom (et_active t) \<subseteq> ee_id ` set (et_heap t)" using act by auto
  then have "card (dom (et_active t)) \<le> card (ee_id ` set (et_heap t))" by (intro card_mono) simp_all
  also have "\<dots> = length (et_heap t)" using distinct_card [OF d] by simp
  finally have "et_pending t \<le> length (et_heap t)" by (simp add: et_pending_def)
  then show ?thesis using act d distinct_filter_id [OF d] by auto
qed

theorem epoll_no_timer_lost_witness:
  "\<exists>t. et_session sample_et (\<lambda>c w. EDone w) [(Op_Schedule (-5) (8 :: nat), ()), (Op_Schedule 5000000000 9, ())] new_EpollTimer = Some t
     \<and> fst (et_schedule sample_et (-5) (8 :: nat) new_EpollTimer) = Inl (System_Error 22 ''timerfd_settime'')
     \<and> et_pending t = 2 \<and> et_pending t \<le> length (et_heap t)"
proof -
  let ?s = "et_session sample_et (\<lambda>c w. EDone w) [(Op_Schedule (-5) (8 :: nat), ()), (Op_Schedule 5000000000 9, ())] new_EpollTimer"
  let ?f = "\<lambda>t. (et_issued t, et_active t 1 = None, et_active t 2 = None, map ee_id (et_heap t))"
  have "map_option ?f ?s = Some (2, False, False, [1, 2])" by code_simp
  then obtain t where t: "?s = Some t" and f: "?f t = (2, False, False, [1, 2])" by auto
  from epoll_no_timer_lost [OF t] f
  have all: "\<forall>i e. et_active t i = Some e \<longrightarrow> ee_id e = i \<and> filter (\<lambda>a. ee_id a = i) (et_heap t) = [e]"
    and le: "et_pending t \<le> length (et_heap t)" by auto
  have "i \<in> {1, 2}" if "et_active t i = Some e" for i e
  proof -
    have "e \<in> set (filter (\<lambda>a. ee_id a = i) (et_heap t))" using all that by simp
    then have "i \<in> set (map ee_id (et_heap t))" by auto
    moreover have "map ee_id (et_heap t) = [1, 2]" using f by simp
    ultimately show ?thesis by (simp only:) simp
  qed
  then have "dom (et_active t) = {1, 2}" using f by auto
  then have "et_pending t = 2" by (simp add: et_pending_def)
  moreover have "fst (et_schedule sample_et (-5) (8 :: nat) new_EpollTimer) = Inl (System_Error 22 ''timerfd_settime'')"
    by code_simp
  ultimately show ?thesis using t le by blast
qed

section \<open>An operation nothing calls\<close>

text \<open>
  \<open>push_entry\<close> is declared and defined but not called. Its test reads \<open>active_[heap_.top().id]\<close>, which inserts a
  default entry when the top was cancelled. \<open>first\<close> is the key \<open>active_.begin()\<close> has, and \<open>nocb\<close> an empty callback.
\<close>

definition push_entry :: "'c et_env \<Rightarrow> ((u64 \<rightharpoonup> 'c EEntry) \<Rightarrow> u64) \<Rightarrow> 'c \<Rightarrow> 'c EEntry \<Rightarrow> 'c EpollTimer \<Rightarrow> (epoll_error + unit) \<times> 'c EpollTimer" where
  "push_entry env first nocb e t =
     (let t = t\<lparr>et_active := (et_active t)(ee_id e \<mapsto> e), et_heap := heap_push e (et_heap t)\<rparr>;
          top = heap_top env (et_heap t) in
      if ee_id top = first (et_active t) then rearm_timerfd env (ee_expiry top) t
      else let a = (case et_active t (ee_id top) of Some a \<Rightarrow> a
                    | None \<Rightarrow> \<lparr> ee_id = kInvalidTimer, ee_expiry = 0, ee_interval = 0, ee_cb = nocb \<rparr>);
               t = t\<lparr>et_active := (et_active t)(ee_id top \<mapsto> a)\<rparr> in
           if ee_expiry top = ee_expiry a then rearm_timerfd env (ee_expiry top) t else (Inr (), t))"

text \<open>
  When the top is live, it does what \<open>schedule\<close> does, with a superfluous setting of the \<open>timerfd\<close> when the new
  entry is not the earliest; when the top is a cancelled timer, a live entry under its identifier comes back.
\<close>

lemma push_entry_live:
  fixes t :: "'c EpollTimer" and e :: "'c EEntry"
  defines "h \<equiv> heap_push e (et_heap t)"
  assumes "((et_active t)(ee_id e \<mapsto> e)) (ee_id (heap_top env h)) = Some (heap_top env h)"
  shows "push_entry env first nocb e t = rearm_timerfd env (ee_expiry (heap_top env h)) (put_timer e t)"
proof -
  have "(put_timer e t)\<lparr>et_active := (et_active (put_timer e t))(ee_id (heap_top env h) \<mapsto> heap_top env h)\<rparr> = put_timer e t"
    using assms(2) by (simp add: put_timer_def h_def [symmetric] fun_upd_idem)
  then show ?thesis using assms(2) by (auto simp: push_entry_def Let_def put_timer_def h_def)
qed

lemma push_entry_phantom:
  assumes "et_active t (ee_id (heap_top env (heap_push e (et_heap t)))) = None"
    and "ee_id (heap_top env (heap_push e (et_heap t))) \<noteq> ee_id e"
    and "first ((et_active t)(ee_id e \<mapsto> e)) \<noteq> ee_id (heap_top env (heap_push e (et_heap t)))"
    and "push_entry env first nocb e t = (r, t')"
  shows "\<exists>a. et_active t' (ee_id (heap_top env (heap_push e (et_heap t)))) = Some a \<and> ee_id a = kInvalidTimer"
  using assms by (auto simp: push_entry_def Let_def rearm_timerfd_def split: if_splits)

end
