(* ===== verification/Tcp_Protocol.thy ===== *)
theory Tcp_Protocol
  imports Prelude
begin

text \<open>
  The message framing of \<open>protocol.cpp\<close> over a byte stream. The system calls \<open>recv\<close> and \<open>send\<close> are
  parameters of the model; they may deliver or accept any non-empty part of what is asked,
  and fail at any time. What the code relies on is stated by \<open>recv_law\<close> and \<open>send_law\<close>.
\<close>

section \<open>Messages\<close>

definition kMaxPayloadBytes :: u32 where "kMaxPayloadBytes = 65535"

text \<open>A status byte outside the five listed ones is still a value of the enumeration type.\<close>

datatype StatusCode = Status_Ok | Status_Error | Status_Timeout | Status_Invalid | Status_Busy | Unlisted u8

definition status_byte :: "StatusCode \<Rightarrow> u8" where
  "status_byte st = (case st of Status_Ok \<Rightarrow> 0 | Status_Error \<Rightarrow> 1 | Status_Timeout \<Rightarrow> 2
     | Status_Invalid \<Rightarrow> 3 | Status_Busy \<Rightarrow> 4 | Unlisted b \<Rightarrow> b)"

definition status_of :: "u8 \<Rightarrow> StatusCode" where
  "status_of b = (if b = 0 then Status_Ok else if b = 1 then Status_Error else if b = 2 then Status_Timeout
     else if b = 3 then Status_Invalid else if b = 4 then Status_Busy else Unlisted b)"

record Request =
  rq_id :: u32
  rq_type :: u8
  rq_payload :: bytes

record Response =
  rs_id :: u32
  rs_status :: StatusCode
  rs_payload :: bytes

section \<open>Exact transfers\<close>

text \<open>
  \<open>recv n s\<close> returns the bytes received, none for a result of 0 or less; \<open>send b s\<close> returns how
  many bytes it took, 0 for a result of 0 or less.
\<close>

type_synonym 's recv_fun = "nat \<Rightarrow> 's \<Rightarrow> bytes \<times> 's"
type_synonym 's send_fun = "bytes \<Rightarrow> 's \<Rightarrow> nat \<times> 's"

text \<open>The bytes received are returned also when the call fails half-way.\<close>

function recv_exact :: "'s recv_fun \<Rightarrow> nat \<Rightarrow> 's \<Rightarrow> bool \<times> bytes \<times> 's" where
  "recv_exact recv n s =
     (if n = 0 then (True, [], s)
      else case recv n s of (c, s') \<Rightarrow>
        if c = [] then (False, [], s')
        else case recv_exact recv (n - length c) s' of (ok, bs, s'') \<Rightarrow> (ok, c @ bs, s''))"
  by pat_completeness auto
termination
  by (relation "measure (\<lambda>(recv, n, s). n)") auto

function send_exact :: "'s send_fun \<Rightarrow> bytes \<Rightarrow> 's \<Rightarrow> bool \<times> 's" where
  "send_exact send buf s =
     (if buf = [] then (True, s)
      else case send buf s of (r, s') \<Rightarrow>
        if r = 0 then (False, s') else send_exact send (drop r buf) s')"
  by pat_completeness auto
termination
  by (relation "measure (\<lambda>(send, buf, s). length buf)") auto

declare recv_exact.simps [simp del]
declare send_exact.simps [simp del]

section \<open>Requests and responses\<close>

text \<open>\<open>htonl\<close> and \<open>ntohl\<close> between the value and its four bytes on the wire.\<close>

definition send_request :: "'s send_fun \<Rightarrow> Request \<Rightarrow> 's \<Rightarrow> bool \<times> 's" where
  "send_request send req s =
     (if unat kMaxPayloadBytes < length (rq_payload req) then (False, s)
      else let body_len = 5 + of_nat (length (rq_payload req)) :: u32 in
      case send_exact send (be32_bytes body_len) s of (ok, s) \<Rightarrow> if \<not> ok then (False, s) else
      case send_exact send (be32_bytes (rq_id req)) s of (ok, s) \<Rightarrow> if \<not> ok then (False, s) else
      case send_exact send [rq_type req] s of (ok, s) \<Rightarrow> if \<not> ok then (False, s) else
      if rq_payload req \<noteq> []
      then case send_exact send (rq_payload req) s of (ok, s) \<Rightarrow> if \<not> ok then (False, s) else (True, s)
      else (True, s))"

definition send_response :: "'s send_fun \<Rightarrow> Response \<Rightarrow> 's \<Rightarrow> bool \<times> 's" where
  "send_response send resp s =
     (if unat kMaxPayloadBytes < length (rs_payload resp) then (False, s)
      else let body_len = 5 + of_nat (length (rs_payload resp)) :: u32 in
      case send_exact send (be32_bytes body_len) s of (ok, s) \<Rightarrow> if \<not> ok then (False, s) else
      case send_exact send (be32_bytes (rs_id resp)) s of (ok, s) \<Rightarrow> if \<not> ok then (False, s) else
      case send_exact send [status_byte (rs_status resp)] s of (ok, s) \<Rightarrow> if \<not> ok then (False, s) else
      if rs_payload resp \<noteq> []
      then case send_exact send (rs_payload resp) s of (ok, s) \<Rightarrow> if \<not> ok then (False, s) else (True, s)
      else (True, s))"

definition recv_request :: "'s recv_fun \<Rightarrow> Request \<Rightarrow> 's \<Rightarrow> bool \<times> Request \<times> 's" where
  "recv_request recv out s =
     (case recv_exact recv 4 s of (ok, net_len, s) \<Rightarrow> if \<not> ok then (False, out, s) else
      let body_len = be32_of net_len in
      if body_len < 5 \<or> kMaxPayloadBytes < body_len - 5 then (False, out, s) else
      case recv_exact recv 4 s of (ok, net_id, s) \<Rightarrow> if \<not> ok then (False, out, s) else
      let out = out\<lparr>rq_id := be32_of net_id\<rparr> in
      case recv_exact recv 1 s of (ok, ty, s) \<Rightarrow> if \<not> ok then (False, out, s) else
      let out = out\<lparr>rq_type := ty ! 0\<rparr>;
          payload_len = unat (body_len - 5);
          out = out\<lparr>rq_payload := take payload_len (rq_payload out)
                   @ replicate (payload_len - length (rq_payload out)) 0\<rparr> in
      if 0 < payload_len
      then case recv_exact recv payload_len s of (ok, bs, s) \<Rightarrow>
             (ok, out\<lparr>rq_payload := bs @ drop (length bs) (rq_payload out)\<rparr>, s)
      else (True, out, s))"

definition recv_response :: "'s recv_fun \<Rightarrow> Response \<Rightarrow> 's \<Rightarrow> bool \<times> Response \<times> 's" where
  "recv_response recv out s =
     (case recv_exact recv 4 s of (ok, net_len, s) \<Rightarrow> if \<not> ok then (False, out, s) else
      let body_len = be32_of net_len in
      if body_len < 5 \<or> kMaxPayloadBytes < body_len - 5 then (False, out, s) else
      case recv_exact recv 4 s of (ok, net_id, s) \<Rightarrow> if \<not> ok then (False, out, s) else
      let out = out\<lparr>rs_id := be32_of net_id\<rparr> in
      case recv_exact recv 1 s of (ok, st, s) \<Rightarrow> if \<not> ok then (False, out, s) else
      let out = out\<lparr>rs_status := status_of (st ! 0)\<rparr>;
          payload_len = unat (body_len - 5);
          out = out\<lparr>rs_payload := take payload_len (rs_payload out)
                   @ replicate (payload_len - length (rs_payload out)) 0\<rparr> in
      if 0 < payload_len
      then case recv_exact recv payload_len s of (ok, bs, s) \<Rightarrow>
             (ok, out\<lparr>rs_payload := bs @ drop (length bs) (rs_payload out)\<rparr>, s)
      else (True, out, s))"

section \<open>The stream\<close>

text \<open>
  \<open>inp s\<close> is what is still to be received and \<open>outp s\<close> what has been sent. A call to \<open>recv\<close> takes
  a part of the first \<open>n\<close> bytes off the input; \<open>send\<close> appends a part of its argument to the
  output. \<open>recv_live\<close> and \<open>send_live\<close>: the calls do not fail while there is something to do.
\<close>

definition recv_law :: "'s recv_fun \<Rightarrow> ('s \<Rightarrow> bytes) \<Rightarrow> bool" where
  "recv_law recv inp \<longleftrightarrow> (\<forall>n s. 0 < n \<longrightarrow>
     length (fst (recv n s)) \<le> n \<and> inp s = fst (recv n s) @ inp (snd (recv n s)))"

definition recv_live :: "'s recv_fun \<Rightarrow> ('s \<Rightarrow> bytes) \<Rightarrow> bool" where
  "recv_live recv inp \<longleftrightarrow> (\<forall>n s. 0 < n \<and> inp s \<noteq> [] \<longrightarrow> fst (recv n s) \<noteq> [])"

definition send_law :: "'s send_fun \<Rightarrow> ('s \<Rightarrow> bytes) \<Rightarrow> bool" where
  "send_law send outp \<longleftrightarrow> (\<forall>b s. b \<noteq> [] \<longrightarrow>
     fst (send b s) \<le> length b \<and> outp (snd (send b s)) = outp s @ take (fst (send b s)) b)"

definition send_live :: "'s send_fun \<Rightarrow> bool" where
  "send_live send \<longleftrightarrow> (\<forall>b s. b \<noteq> [] \<longrightarrow> fst (send b s) \<noteq> 0)"

text \<open>The bytes of a message on the wire.\<close>

definition frame :: "u32 \<Rightarrow> u8 \<Rightarrow> bytes \<Rightarrow> bytes" where
  "frame i b payload = be32_bytes (of_nat (5 + length payload)) @ be32_bytes i @ [b] @ payload"

definition request_bytes :: "Request \<Rightarrow> bytes" where
  "request_bytes req = frame (rq_id req) (rq_type req) (rq_payload req)"

definition response_bytes :: "Response \<Rightarrow> bytes" where
  "response_bytes resp = frame (rs_id resp) (status_byte (rs_status resp)) (rs_payload resp)"

lemma recv_exact_result:
  assumes "recv_law recv inp" and "recv_exact recv n s = (ok, bs, s')"
  shows "inp s = bs @ inp s' \<and> length bs \<le> n \<and> (ok \<longrightarrow> length bs = n)"
  using assms(2)
proof (induction n arbitrary: s ok bs s' rule: less_induct)
  case (less n)
  show ?case
  proof (cases "n = 0")
    case True
    then show ?thesis using less.prems by (simp add: recv_exact.simps)
  next
    case False
    obtain c s1 where r: "recv n s = (c, s1)" by force
    have c: "length c \<le> n" "inp s = c @ inp s1" using assms(1) False r unfolding recv_law_def by (metis fst_conv snd_conv neq0_conv)+
    show ?thesis
    proof (cases "c = []")
      case True
      then show ?thesis using less.prems False r c by (simp add: recv_exact.simps [of recv n])
    next
      case ne: False
      obtain ok1 bs1 where r1: "recv_exact recv (n - length c) s1 = (ok1, bs1, s')" and o: "ok = ok1" "bs = c @ bs1"
        using less.prems False r ne by (auto simp: recv_exact.simps [of recv n] split: prod.splits)
      have "n - length c < n" using ne False by (cases c) auto
      from less.IH [OF this r1] c o show ?thesis by auto
    qed
  qed
qed

lemma recv_exact_live:
  assumes "recv_law recv inp" and "recv_live recv inp"
  shows "fst (recv_exact recv n s) \<longleftrightarrow> n \<le> length (inp s)"
proof (induction n arbitrary: s rule: less_induct)
  case (less n)
  show ?case
  proof (cases "n = 0")
    case True
    then show ?thesis by (simp add: recv_exact.simps)
  next
    case False
    obtain c s1 where r: "recv n s = (c, s1)" by force
    have c: "length c \<le> n" "inp s = c @ inp s1"
      using assms(1) False r unfolding recv_law_def by (metis fst_conv snd_conv neq0_conv)+
    have live: "c \<noteq> []" if "inp s \<noteq> []"
      using assms(2) that False r unfolding recv_live_def by (metis fst_conv neq0_conv)
    show ?thesis
    proof (cases "c = []")
      case True
      then have "inp s = []" using live by blast
      then show ?thesis using True False r by (simp add: recv_exact.simps [of recv n])
    next
      case ne: False
      then have "n - length c < n" using False by (cases c) auto
      then show ?thesis using less.IH [of "n - length c" s1] r ne False c
        by (auto simp: recv_exact.simps [of recv n] split: prod.splits)
    qed
  qed
qed

lemma send_exact_result:
  assumes "send_law send outp" and "send_exact send buf s = (ok, s')"
  shows "\<exists>k. outp s' = outp s @ take k buf \<and> k \<le> length buf \<and> (ok \<longrightarrow> k = length buf)"
    and "send_live send \<Longrightarrow> ok"
proof -
  have "(\<exists>k. outp s' = outp s @ take k buf \<and> k \<le> length buf \<and> (ok \<longrightarrow> k = length buf)) \<and> (send_live send \<longrightarrow> ok)"
    using assms(2)
  proof (induction "length buf" arbitrary: buf s rule: less_induct)
    case less
    show ?case
    proof (cases "buf = []")
      case True
      then show ?thesis using less.prems by (simp add: send_exact.simps)
    next
      case False
      obtain r s1 where r: "send buf s = (r, s1)" by force
      have l: "r \<le> length buf" "outp s1 = outp s @ take r buf"
        using assms(1) False r unfolding send_law_def by (metis fst_conv snd_conv)+
      show ?thesis
      proof (cases "r = 0")
        case True
        then have "\<not> send_live send" using False r unfolding send_live_def by (metis fst_conv)
        then show ?thesis using True less.prems False r l by (auto simp: send_exact.simps [of send buf])
      next
        case ne: False
        have "send_exact send (drop r buf) s1 = (ok, s')"
          using less.prems False r ne by (simp add: send_exact.simps [of send buf])
        moreover have "length (drop r buf) < length buf" using False ne by simp
        ultimately obtain k where k: "outp s' = outp s1 @ take k (drop r buf)" "k \<le> length buf - r"
          "ok \<longrightarrow> k = length buf - r" "send_live send \<longrightarrow> ok" using less.hyps by force
        have "outp s' = outp s @ take (r + k) buf" using k(1) l(2) by (simp add: take_add)
        then show ?thesis using k l(1) by (intro conjI exI [of _ "r + k"]) auto
      qed
    qed
  qed
  then show "\<exists>k. outp s' = outp s @ take k buf \<and> k \<le> length buf \<and> (ok \<longrightarrow> k = length buf)"
    and "send_live send \<Longrightarrow> ok" by auto
qed

section \<open>Frames\<close>

text \<open>The part that both receiving functions share, without the caller's object.\<close>

definition recv_frame :: "'s recv_fun \<Rightarrow> 's \<Rightarrow> (u32 \<times> u8 \<times> bytes) option \<times> 's" where
  "recv_frame recv s =
     (case recv_exact recv 4 s of (ok, net_len, s) \<Rightarrow> if \<not> ok then (None, s) else
      let body_len = be32_of net_len in
      if body_len < 5 \<or> kMaxPayloadBytes < body_len - 5 then (None, s) else
      case recv_exact recv 4 s of (ok, net_id, s) \<Rightarrow> if \<not> ok then (None, s) else
      case recv_exact recv 1 s of (ok, b, s) \<Rightarrow> if \<not> ok then (None, s) else
      case recv_exact recv (unat (body_len - 5)) s of (ok, bs, s) \<Rightarrow>
        (if ok then Some (be32_of net_id, b ! 0, bs) else None, s))"

lemma recv_exact_0: "recv_exact recv 0 s = (True, [], s)"
  by (simp add: recv_exact.simps)

lemma recv_request_frame:
  assumes "recv_law recv inp"
  shows "case recv_frame recv s of
      (Some (i, b, bs), s') \<Rightarrow> recv_request recv out s = (True, \<lparr> rq_id = i, rq_type = b, rq_payload = bs \<rparr>, s')
    | (None, s') \<Rightarrow> \<not> fst (recv_request recv out s) \<and> snd (snd (recv_request recv out s)) = s'"
proof -
  obtain ok1 b1 s1 where r1: "recv_exact recv 4 s = (ok1, b1, s1)" by (metis prod_cases3)
  obtain ok2 b2 s2 where r2: "recv_exact recv 4 s1 = (ok2, b2, s2)" by (metis prod_cases3)
  obtain ok3 b3 s3 where r3: "recv_exact recv 1 s2 = (ok3, b3, s3)" by (metis prod_cases3)
  obtain ok4 b4 s4 where r4: "recv_exact recv (unat (be32_of b1 - 5)) s3 = (ok4, b4, s4)" by (metis prod_cases3)
  have len: "ok4 \<Longrightarrow> length b4 = unat (be32_of b1 - 5)" using recv_exact_result [OF assms r4] by blast
  show ?thesis
  proof (cases "be32_of b1 - 5 = 0")
    case True
    then have "ok4" "b4 = []" "s4 = s3" using r4 by (simp_all add: recv_exact_0)
    then show ?thesis using r1 r2 r3 r4 True by (cases out) (simp add: recv_frame_def recv_request_def Let_def)
  next
    case False
    then have "0 < unat (be32_of b1 - 5)" by (simp add: unat_gt_0)
    then show ?thesis using r1 r2 r3 r4 len by (cases out) (simp add: recv_frame_def recv_request_def Let_def)
  qed
qed

lemma recv_response_frame:
  assumes "recv_law recv inp"
  shows "case recv_frame recv s of
      (Some (i, b, bs), s') \<Rightarrow>
        recv_response recv out s = (True, \<lparr> rs_id = i, rs_status = status_of b, rs_payload = bs \<rparr>, s')
    | (None, s') \<Rightarrow> \<not> fst (recv_response recv out s) \<and> snd (snd (recv_response recv out s)) = s'"
proof -
  obtain ok1 b1 s1 where r1: "recv_exact recv 4 s = (ok1, b1, s1)" by (metis prod_cases3)
  obtain ok2 b2 s2 where r2: "recv_exact recv 4 s1 = (ok2, b2, s2)" by (metis prod_cases3)
  obtain ok3 b3 s3 where r3: "recv_exact recv 1 s2 = (ok3, b3, s3)" by (metis prod_cases3)
  obtain ok4 b4 s4 where r4: "recv_exact recv (unat (be32_of b1 - 5)) s3 = (ok4, b4, s4)" by (metis prod_cases3)
  have len: "ok4 \<Longrightarrow> length b4 = unat (be32_of b1 - 5)" using recv_exact_result [OF assms r4] by blast
  show ?thesis
  proof (cases "be32_of b1 - 5 = 0")
    case True
    then have "ok4" "b4 = []" "s4 = s3" using r4 by (simp_all add: recv_exact_0)
    then show ?thesis using r1 r2 r3 r4 True by (cases out) (simp add: recv_frame_def recv_response_def Let_def)
  next
    case False
    then have "0 < unat (be32_of b1 - 5)" by (simp add: unat_gt_0)
    then show ?thesis using r1 r2 r3 r4 len by (cases out) (simp add: recv_frame_def recv_response_def Let_def)
  qed
qed

lemma length_field:
  assumes "\<not> body < 5" and "\<not> kMaxPayloadBytes < body - 5" and "n = unat (body - 5)"
  shows "of_nat (5 + n) = body" and "n \<le> 65535"
proof -
  have "of_nat (5 + n) = 5 + (body - 5)" by (simp add: assms(3))
  then show "of_nat (5 + n) = body" by simp
  show "n \<le> 65535" using assms(2,3) by (simp add: kMaxPayloadBytes_def word_less_nat_alt)
qed

text \<open>Whatever is accepted was a frame, and nothing else has been read.\<close>

lemma recv_frame_sound:
  assumes law: "recv_law recv inp" and "recv_frame recv s = (Some (i, b, bs), s')"
  shows "inp s = frame i b bs @ inp s' \<and> length bs \<le> 65535"
proof -
  obtain ok1 b1 s1 where r1: "recv_exact recv 4 s = (ok1, b1, s1)" by (metis prod_cases3)
  obtain ok2 b2 s2 where r2: "recv_exact recv 4 s1 = (ok2, b2, s2)" by (metis prod_cases3)
  obtain ok3 b3 s3 where r3: "recv_exact recv 1 s2 = (ok3, b3, s3)" by (metis prod_cases3)
  obtain ok4 b4 s4 where r4: "recv_exact recv (unat (be32_of b1 - 5)) s3 = (ok4, b4, s4)" by (metis prod_cases3)
  have ok: ok1 ok2 ok3 ok4 "\<not> be32_of b1 < 5" "\<not> kMaxPayloadBytes < be32_of b1 - 5"
    and out: "i = be32_of b2" "b = b3 ! 0" "bs = b4" "s' = s4"
    using assms(2) r1 r2 r3 r4 by (auto simp: recv_frame_def Let_def split: if_splits)
  note x = recv_exact_result [OF law r1] recv_exact_result [OF law r2] recv_exact_result [OF law r3]
    recv_exact_result [OF law r4]
  have n: "length b4 = unat (be32_of b1 - 5)" using x ok by blast
  have b3: "length b3 = Suc 0" using x(3) ok by simp
  have b1: "length b1 = 4" using x(1) ok by blast
  have b2: "length b2 = 4" using x(2) ok by blast
  have l: "be32_bytes (of_nat (5 + length b4)) = b1"
    by (simp only: length_field(1) [OF ok(5,6) n] be32_bytes_of [OF b1])
  have i: "be32_bytes i = b2" by (simp only: out be32_bytes_of [OF b2])
  have "b3 = [b]" using b3 out(2) by (cases b3) simp_all
  then have "inp s = b1 @ b2 @ [b] @ b4 @ inp s4" using x by simp
  also have "\<dots> = frame i b bs @ inp s'" by (simp only: frame_def l i out(3,4) append_assoc)
  finally show ?thesis using length_field(2) [OF ok(5,6) n] out(3) by simp
qed

text \<open>A frame at the head of a live stream is accepted, however it is fragmented.\<close>

lemma take_exact:
  assumes "recv_law recv inp" and "recv_live recv inp" and "inp s = bs @ rest" and "length bs = n"
  obtains s' where "recv_exact recv n s = (True, bs, s')" and "inp s' = rest"
proof -
  obtain ok c s' where r: "recv_exact recv n s = (ok, c, s')" by (metis prod_cases3)
  have ok using recv_exact_live [OF assms(1,2), of n s] r assms(3,4) by simp
  then have "c @ inp s' = bs @ rest" and "length c = length bs"
    using recv_exact_result [OF assms(1) r] assms(3,4) by simp_all
  then have "c = bs" "inp s' = rest" by simp_all
  with r \<open>ok\<close> have "recv_exact recv n s = (True, bs, s')" by simp
  then show ?thesis using \<open>inp s' = rest\<close> by (rule that)
qed

lemma recv_frame_complete:
  assumes law: "recv_law recv inp" and live: "recv_live recv inp"
    and inp: "inp s = frame i b bs @ rest" and len: "length bs \<le> 65535"
  obtains s' where "recv_frame recv s = (Some (i, b, bs), s')" and "inp s' = rest"
proof -
  let ?body = "of_nat (5 + length bs) :: u32"
  have "unat ?body = 5 + length bs" using len by (simp only: unat_of_nat) simp
  moreover from this have "unat (?body - 5) = length bs"
    by (subst unat_sub_le) (simp_all add: word_le_nat_alt)
  ultimately have body: "\<not> ?body < 5" "\<not> kMaxPayloadBytes < ?body - 5" "unat (?body - 5) = length bs"
    using len by (simp_all add: word_less_nat_alt kMaxPayloadBytes_def)
  obtain s1 where r1: "recv_exact recv 4 s = (True, be32_bytes ?body, s1)" "inp s1 = be32_bytes i @ [b] @ bs @ rest"
    by (rule take_exact [OF law live, of s "be32_bytes ?body" "be32_bytes i @ [b] @ bs @ rest" 4])
       (simp_all only: inp frame_def append_assoc length_be32)
  obtain s2 where r2: "recv_exact recv 4 s1 = (True, be32_bytes i, s2)" "inp s2 = [b] @ bs @ rest"
    by (rule take_exact [OF law live r1(2)]) simp_all
  obtain s3 where r3: "recv_exact recv 1 s2 = (True, [b], s3)" "inp s3 = bs @ rest"
    by (rule take_exact [OF law live r2(2)]) simp_all
  obtain s4 where r4: "recv_exact recv (length bs) s3 = (True, bs, s4)" "inp s4 = rest"
    by (rule take_exact [OF law live r3(2)]) simp_all
  have "recv_frame recv s = (Some (i, b, bs), s4)"
    using r1 r2 r3 r4 body by (simp add: recv_frame_def Let_def)
  then show ?thesis using r4(2) by (rule that)
qed

lemma frame_inj:
  assumes "frame i b bs @ r = frame j c cs @ q" and "length bs \<le> 65535" and "length cs \<le> 65535"
  shows "i = j \<and> b = c \<and> bs = cs \<and> r = q"
proof -
  have "be32_bytes (of_nat (5 + length bs)) = be32_bytes (of_nat (5 + length cs))" "be32_bytes i = be32_bytes j"
    and tl: "b = c" "bs @ r = cs @ q"
    using assms(1) by (auto simp: frame_def)
  then have n: "of_nat (5 + length bs) = (of_nat (5 + length cs) :: u32)" and i: "i = j"
    by (metis be32_roundtrip)+
  have "unat (of_nat (5 + length xs) :: u32) = 5 + length xs" if "length xs \<le> 65535" for xs :: bytes
    using that by (simp only: unat_of_nat) simp
  with n assms(2,3) have "length bs = length cs" by (metis add_left_cancel)
  with tl i show ?thesis by simp
qed

text \<open>Both sending functions send the parts of a frame one after the other.\<close>

fun send_all :: "'s send_fun \<Rightarrow> bytes list \<Rightarrow> 's \<Rightarrow> bool \<times> 's" where
  "send_all send [] s = (True, s)"
| "send_all send (b # bs) s =
     (case send_exact send b s of (ok, s') \<Rightarrow> if \<not> ok then (False, s') else send_all send bs s')"

lemma send_all_result:
  assumes law: "send_law send outp" and "send_all send bufs s = (ok, s')"
  shows "(\<exists>k. outp s' = outp s @ take k (concat bufs) \<and> k \<le> length (concat bufs) \<and> (ok \<longrightarrow> k = length (concat bufs)))
    \<and> (send_live send \<longrightarrow> ok)"
  using assms(2)
proof (induction bufs arbitrary: s)
  case Nil
  then show ?case by simp
next
  case (Cons b bufs)
  obtain ok1 s1 where r: "send_exact send b s = (ok1, s1)" by force
  obtain k where k: "outp s1 = outp s @ take k b" "k \<le> length b" "ok1 \<longrightarrow> k = length b" "send_live send \<longrightarrow> ok1"
    using send_exact_result [OF law r] by blast
  show ?case
  proof (cases ok1)
    case False
    then show ?thesis using Cons.prems r k by (auto intro!: exI [of _ k])
  next
    case True
    then obtain k2 where "outp s' = outp s1 @ take k2 (concat bufs)" "k2 \<le> length (concat bufs)"
      "ok \<longrightarrow> k2 = length (concat bufs)" "send_live send \<longrightarrow> ok"
      using Cons.IH [of s1] Cons.prems r by auto
    then show ?thesis using k True by (auto intro!: exI [of _ "length b + k2"])
  qed
qed

lemma send_exact_Nil: "send_exact send [] s = (True, s)"
  by (simp add: send_exact.simps)

lemma send_parts:
  "send_request send req s = (if 65535 < length (rq_payload req) then (False, s) else
     send_all send [be32_bytes (of_nat (5 + length (rq_payload req))), be32_bytes (rq_id req), [rq_type req],
       rq_payload req] s)"
  "send_response send resp s = (if 65535 < length (rs_payload resp) then (False, s) else
     send_all send [be32_bytes (of_nat (5 + length (rs_payload resp))), be32_bytes (rs_id resp),
       [status_byte (rs_status resp)], rs_payload resp] s)"
  by (auto simp: send_request_def send_response_def kMaxPayloadBytes_def send_exact_Nil Let_def split: prod.splits)

lemma concat_parts:
  "concat [be32_bytes (of_nat (5 + length bs)), be32_bytes i, [b], bs] = frame i b bs"
  by (simp add: frame_def)

lemma send_request_result:
  assumes "send_law send outp" and "length (rq_payload req) \<le> 65535"
  shows "\<exists>k. outp (snd (send_request send req s)) = outp s @ take k (request_bytes req)
      \<and> (fst (send_request send req s) \<longrightarrow> k = length (request_bytes req))"
    and "send_live send \<Longrightarrow> fst (send_request send req s)"
proof -
  obtain ok s' where r: "send_request send req s = (ok, s')" by force
  then have "send_all send [be32_bytes (of_nat (5 + length (rq_payload req))), be32_bytes (rq_id req), [rq_type req],
       rq_payload req] s = (ok, s')" using assms(2) by (simp only: send_parts not_less [symmetric] if_False)
  note x = send_all_result [OF assms(1) this, unfolded concat_parts]
  show "\<exists>k. outp (snd (send_request send req s)) = outp s @ take k (request_bytes req)
      \<and> (fst (send_request send req s) \<longrightarrow> k = length (request_bytes req))"
    using x unfolding r request_bytes_def fst_conv snd_conv by blast
  show "send_live send \<Longrightarrow> fst (send_request send req s)" using x r by simp
qed

lemma send_response_result:
  assumes "send_law send outp" and "length (rs_payload resp) \<le> 65535"
  shows "\<exists>k. outp (snd (send_response send resp s)) = outp s @ take k (response_bytes resp)
      \<and> (fst (send_response send resp s) \<longrightarrow> k = length (response_bytes resp))"
    and "send_live send \<Longrightarrow> fst (send_response send resp s)"
proof -
  obtain ok s' where r: "send_response send resp s = (ok, s')" by force
  then have "send_all send [be32_bytes (of_nat (5 + length (rs_payload resp))), be32_bytes (rs_id resp),
       [status_byte (rs_status resp)], rs_payload resp] s = (ok, s')"
    using assms(2) by (simp only: send_parts not_less [symmetric] if_False)
  note x = send_all_result [OF assms(1) this, unfolded concat_parts]
  show "\<exists>k. outp (snd (send_response send resp s)) = outp s @ take k (response_bytes resp)
      \<and> (fst (send_response send resp s) \<longrightarrow> k = length (response_bytes resp))"
    using x unfolding r response_bytes_def fst_conv snd_conv by blast
  show "send_live send \<Longrightarrow> fst (send_response send resp s)" using x r by simp
qed

lemma request_inj:
  assumes "request_bytes r1 @ x = request_bytes r2 @ y" and "length (rq_payload r1) \<le> 65535" and "length (rq_payload r2) \<le> 65535"
  shows "r1 = r2 \<and> x = y"
  using frame_inj [OF assms(1) [unfolded request_bytes_def] assms(2,3)] by (cases r1; cases r2) simp

lemma recv_request_complete:
  assumes law: "recv_law recv inp" and "recv_live recv inp"
    and "inp s = request_bytes req @ rest" and "length (rq_payload req) \<le> 65535"
  shows "\<exists>s'. recv_request recv out s = (True, req, s') \<and> inp s' = rest"
proof -
  obtain s' where "recv_frame recv s = (Some (rq_id req, rq_type req, rq_payload req), s')" "inp s' = rest"
    using recv_frame_complete [OF assms(1,2) assms(3) [unfolded request_bytes_def] assms(4)] .
  then show ?thesis using recv_request_frame [OF law, where s = s and out = out] by simp
qed

lemma recv_request_sound:
  assumes law: "recv_law recv inp" and "recv_request recv out s = (True, req, s')"
  shows "inp s = request_bytes req @ inp s' \<and> length (rq_payload req) \<le> 65535"
proof -
  obtain f t where f: "recv_frame recv s = (f, t)" by force
  then obtain i b bs where "f = Some (i, b, bs)"
    using recv_request_frame [OF law, where s = s and out = out] assms(2) by (cases f) auto
  with f have "recv_frame recv s = (Some (i, b, bs), s')" "req = \<lparr> rq_id = i, rq_type = b, rq_payload = bs \<rparr>"
    using recv_request_frame [OF law, where s = s and out = out] assms(2) by auto
  then show ?thesis using recv_frame_sound [OF law] by (simp add: request_bytes_def)
qed

text \<open>A response status that is one of the listed ones, or a byte that is none of them.\<close>

definition status_ok :: "StatusCode \<Rightarrow> bool" where
  "status_ok st \<longleftrightarrow> status_of (status_byte st) = st"

lemma recv_response_complete:
  assumes law: "recv_law recv inp" and "recv_live recv inp"
    and "inp s = response_bytes resp @ rest" and "length (rs_payload resp) \<le> 65535" and "status_ok (rs_status resp)"
  shows "\<exists>s'. recv_response recv out s = (True, resp, s') \<and> inp s' = rest"
proof -
  obtain s' where "recv_frame recv s = (Some (rs_id resp, status_byte (rs_status resp), rs_payload resp), s')" "inp s' = rest"
    using recv_frame_complete [OF assms(1,2) assms(3) [unfolded response_bytes_def] assms(4)] .
  then show ?thesis using recv_response_frame [OF law, where s = s and out = out] assms(5) by (simp add: status_ok_def)
qed

section \<open>A socket that transfers at most three bytes at a time\<close>

definition dribble_recv :: "(bytes \<times> bytes) recv_fun" where
  "dribble_recv n s = (take (min n 3) (fst s), (drop (min n 3) (fst s), snd s))"

definition dribble_send :: "(bytes \<times> bytes) send_fun" where
  "dribble_send b s = (min 3 (length b), (fst s, snd s @ take (min 3 (length b)) b))"

lemma dribble_laws:
  "recv_law dribble_recv fst" "recv_live dribble_recv fst" "send_law dribble_send snd" "send_live dribble_send"
  by (auto simp: recv_law_def recv_live_def send_law_def send_live_def dribble_recv_def dribble_send_def)

section \<open>Properties\<close>

text \<open>C25. A request survives the connection, however the two ends fragment it. If the stream layer
  keeps bytes in order and neither end fails, \<open>send_request\<close> of a payload of at most 65535 bytes
  succeeds, and a peer whose input starts with what it wrote gets back from \<open>recv_request\<close> the
  same identifier, type and payload, with the input left just behind the frame.\<close>

theorem request_roundtrip:
  assumes "send_law send outp" and "send_live send" and "recv_law recv inp" and "recv_live recv inp"
    and len: "length (rq_payload req) \<le> 65535"
    and t: "inp t = drop (length (outp s)) (outp (snd (send_request send req s))) @ rest"
  shows "fst (send_request send req s) \<and> (\<exists>t'. recv_request recv out t = (True, req, t') \<and> inp t' = rest)"
proof -
  have ok: "fst (send_request send req s)" using send_request_result(2) [OF assms(1) len assms(2)] .
  with send_request_result(1) [OF assms(1) len, of s]
  have "outp (snd (send_request send req s)) = outp s @ request_bytes req" by auto
  then have "inp t = request_bytes req @ rest" using t by simp
  from recv_request_complete [OF assms(3,4) this len] ok show ?thesis by blast
qed

theorem request_roundtrip_witness:
  "\<exists>t'. recv_request dribble_recv \<lparr> rq_id = 0, rq_type = 0, rq_payload = [] \<rparr>
      (drop (length [9, 9::u8]) (snd (snd (send_request dribble_send \<lparr> rq_id = 7, rq_type = 2, rq_payload = [10, 20, 30, 40] \<rparr> ([], [9, 9])))) @ [1], [])
    = (True, \<lparr> rq_id = 7, rq_type = 2, rq_payload = [10, 20, 30, 40] \<rparr>, t') \<and> fst t' = [1]"
  using request_roundtrip [OF dribble_laws(3,4,1,2), of "\<lparr> rq_id = 7, rq_type = 2, rq_payload = [10, 20, 30, 40] \<rparr>"
      "(drop (length [9, 9::u8]) (snd (snd (send_request dribble_send \<lparr> rq_id = 7, rq_type = 2, rq_payload = [10, 20, 30, 40] \<rparr> ([], [9, 9])))) @ [1], [])"
      "([], [9, 9])" "[1]" "\<lparr> rq_id = 0, rq_type = 0, rq_payload = [] \<rparr>"]
  by simp

text \<open>C26. \<open>recv_request\<close> accepts exactly the well-formed frames. On a stream that does not fail while it
  has bytes, it succeeds if and only if the input starts with the bytes of a request of at most
  65535 payload bytes, and then the object it fills is that request and nothing behind it has been
  read. A length field below 5 or above 65540, and an input that ends inside a frame, are refused.\<close>

theorem recv_request_iff:
  assumes "recv_law recv inp" and "recv_live recv inp" and "recv_request recv out s = (ok, req, s')"
  shows "(ok \<longleftrightarrow> (\<exists>r rest. inp s = request_bytes r @ rest \<and> length (rq_payload r) \<le> 65535))
    \<and> (ok \<longrightarrow> inp s = request_bytes req @ inp s')"
  using recv_request_sound [OF assms(1), of out s] recv_request_complete [OF assms(1,2), of s _ _ out] assms(3)
  by (cases ok) fastforce+

theorem recv_request_iff_witness:
  "\<not> fst (recv_request dribble_recv \<lparr> rq_id = 0, rq_type = 0, rq_payload = [] \<rparr> ([0, 0, 0, 4, 1, 2], []))
    \<and> \<not> (\<exists>r rest. [0, 0, 0, 4, 1, 2] = request_bytes r @ rest \<and> length (rq_payload r) \<le> 65535)"
proof -
  have "fst (recv_request dribble_recv \<lparr> rq_id = 0, rq_type = 0, rq_payload = [] \<rparr> ([0, 0, 0, 4, 1, 2], [])) = False"
    by (simp add: recv_request_def recv_exact.simps dribble_recv_def be32_of_def le32_of_def Let_def)
  then obtain q s' where r: "recv_request dribble_recv \<lparr> rq_id = 0, rq_type = 0, rq_payload = [] \<rparr> ([0, 0, 0, 4, 1, 2], []) = (False, q, s')"
    by (metis prod.collapse)
  from recv_request_iff [OF dribble_laws(1,2) r] r show ?thesis by simp
qed

text \<open>\<open>send_request\<close> refuses a payload of more than 65535 bytes without sending anything; for any
  other request it puts a prefix of the frame on the wire, and the whole frame when it reports
  success, also when \<open>send\<close> accepts the bytes piecewise or fails half-way.\<close>

lemma send_request_outcome:
  assumes "send_law send outp"
  shows "if 65535 < length (rq_payload req) then send_request send req s = (False, s)
    else \<exists>k. outp (snd (send_request send req s)) = outp s @ take k (request_bytes req)
      \<and> (fst (send_request send req s) \<longrightarrow> length (request_bytes req) = k)"
  using send_request_result(1) [OF assms, of req s] by (auto simp: send_parts(1))

end
