(* ===== verification/Tcp_Server.thy ===== *)
theory Tcp_Server
  imports Tcp_Protocol "HOL-Library.Signed_Division"
begin

text \<open>
  The server and the client of \<open>tcp_server.cpp\<close> and \<open>tcp_client.cpp\<close>. What the system calls return
  is data of the model, as in the bus; a connection works on the byte stream of
  the protocol theory. The server is also described as the list of the system calls it makes.
\<close>

section \<open>Serving a connection\<close>

text \<open>The loop has no bound of its own: not returning is \<open>None\<close>. \<open>close\<close> is the system call.\<close>

definition fresh_request :: Request where
  "fresh_request = \<lparr> rq_id = 0, rq_type = 0, rq_payload = [] \<rparr>"

partial_function (option) handle_connection ::
    "'s recv_fun \<Rightarrow> 's send_fun \<Rightarrow> ('s \<Rightarrow> 's) \<Rightarrow> (Request \<Rightarrow> Response) \<Rightarrow> 's \<Rightarrow> 's option" where
  "handle_connection recv send close handler s =
     (case recv_request recv fresh_request s of (ok, req, s) \<Rightarrow>
      if \<not> ok then Some (close s)
      else case send_response send (handler req) s of (ok, s) \<Rightarrow>
           if \<not> ok then Some (close s) else handle_connection recv send close handler s)"

text \<open>Receiving does not change what has been sent, and sending not what is to be received.\<close>

definition duplex :: "'s recv_fun \<Rightarrow> 's send_fun \<Rightarrow> ('s \<Rightarrow> bytes) \<Rightarrow> ('s \<Rightarrow> bytes) \<Rightarrow> bool" where
  "duplex recv send inp outp \<longleftrightarrow>
     (\<forall>n s. outp (snd (recv n s)) = outp s) \<and> (\<forall>b s. inp (snd (send b s)) = inp s)"

lemma recv_exact_keeps:
  assumes "\<And>n s. g (snd (recv n s)) = g s"
  shows "g (snd (snd (recv_exact recv n s))) = g s"
proof (induction n arbitrary: s rule: less_induct)
  case (less n)
  obtain c s1 where r: "recv n s = (c, s1)" by force
  have g: "g s1 = g s" using assms [of n s] r by simp
  show ?case
  proof (cases "n = 0 \<or> c = []")
    case True
    then show ?thesis using r g by (auto simp: recv_exact.simps [of recv n])
  next
    case False
    then have "n - length c < n" by auto
    then show ?thesis using False r g less.IH [of "n - length c" s1]
      by (auto simp: recv_exact.simps [of recv n] split: prod.splits)
  qed
qed

lemma recv_frame_keeps:
  assumes "\<And>n s. g (snd (recv n s)) = g s"
  shows "g (snd (recv_frame recv s)) = g s"
proof -
  note k = recv_exact_keeps [of g recv, OF assms]
  obtain ok1 b1 s1 where r1: "recv_exact recv 4 s = (ok1, b1, s1)" by (metis prod_cases3)
  obtain ok2 b2 s2 where r2: "recv_exact recv 4 s1 = (ok2, b2, s2)" by (metis prod_cases3)
  obtain ok3 b3 s3 where r3: "recv_exact recv 1 s2 = (ok3, b3, s3)" by (metis prod_cases3)
  obtain ok4 b4 s4 where r4: "recv_exact recv (unat (be32_of b1 - 5)) s3 = (ok4, b4, s4)" by (metis prod_cases3)
  show ?thesis using r1 r2 r3 r4 k [of 4 s] k [of 4 s1] k [of 1 s2] k [of "unat (be32_of b1 - 5)" s3]
    by (simp add: recv_frame_def Let_def)
qed

lemma recv_request_keeps:
  assumes "recv_law recv inp" and "\<And>n s. g (snd (recv n s)) = g s"
  shows "g (snd (snd (recv_request recv out s))) = g s"
proof -
  have "snd (snd (recv_request recv out s)) = snd (recv_frame recv s)"
    using recv_request_frame [OF assms(1), where s = s and out = out] by (auto split: prod.splits option.splits)
  then show ?thesis using recv_frame_keeps [of g recv s, OF assms(2)] by simp
qed

lemma send_exact_keeps:
  assumes "\<And>b s. g (snd (send b s)) = g s"
  shows "g (snd (send_exact send buf s)) = g s"
proof (induction "length buf" arbitrary: buf s rule: less_induct)
  case less
  obtain r s1 where r: "send buf s = (r, s1)" by force
  have g: "g s1 = g s" using assms [of buf s] r by simp
  show ?case
  proof (cases "buf = [] \<or> r = 0")
    case True
    then show ?thesis using r g by (auto simp: send_exact.simps [of send buf])
  next
    case False
    then show ?thesis using r g less.hyps [of "drop r buf" s1] by (simp add: send_exact.simps [of send buf])
  qed
qed

lemma send_all_keeps:
  assumes "\<And>b s. g (snd (send b s)) = g s"
  shows "g (snd (send_all send bufs s)) = g s"
proof (induction bufs arbitrary: s)
  case (Cons b bufs)
  obtain ok s1 where "send_exact send b s = (ok, s1)" by force
  then show ?case using send_exact_keeps [of g send b s, OF assms] Cons.IH [of s1] by simp
qed simp

lemma send_response_keeps:
  assumes "\<And>b s. g (snd (send b s)) = g s"
  shows "g (snd (send_response send resp s)) = g s"
  by (simp add: send_parts(2) send_all_keeps [of g send, OF assms] del: send_all.simps)

text \<open>The part of the input that is a sequence of requests, and what follows it.\<close>

definition no_request :: "bytes \<Rightarrow> bool" where
  "no_request tail \<longleftrightarrow> (\<nexists>r rest. tail = request_bytes r @ rest \<and> length (rq_payload r) \<le> 65535)"

definition small_response :: "Response \<Rightarrow> bool" where
  "small_response r \<longleftrightarrow> length (rs_payload r) \<le> 65535"

text \<open>Responses are written until the first one that is too long to be sent.\<close>

definition served :: "(Request \<Rightarrow> Response) \<Rightarrow> Request list \<Rightarrow> Response list" where
  "served handler reqs = takeWhile small_response (map handler reqs)"

lemma connection_run:
  assumes law: "recv_law recv inp" "recv_live recv inp" "send_law send outp" "send_live send" "duplex recv send inp outp"
    and "inp s = concat (map request_bytes reqs) @ tail" and "\<forall>r\<in>set reqs. length (rq_payload r) \<le> 65535" and tail: "no_request tail"
  shows "\<exists>s'. handle_connection recv send close handler s = Some (close s')
    \<and> outp s' = outp s @ concat (map response_bytes (served handler reqs))"
  using assms(6,7)
proof (induction reqs arbitrary: s)
  have out: "\<And>n s. outp (snd (recv n s)) = outp s" and inp: "\<And>b s. inp (snd (send b s)) = inp s"
    using law(5) by (simp_all add: duplex_def)
  {
    case Nil
    obtain ok q s1 where r: "recv_request recv fresh_request s = (ok, q, s1)" by (metis prod_cases3)
    have "\<not> ok" using recv_request_sound [OF law(1), of fresh_request s q s1] r tail Nil.prems by (auto simp: no_request_def)
    moreover have "outp s1 = outp s" using recv_request_keeps [OF law(1), of outp fresh_request s] out r by simp
    ultimately show ?case using r
      by (intro exI [of _ s1]) (simp add: handle_connection.simps [of recv send close handler s] served_def)
  next
    case (Cons q reqs)
    obtain s1 where r: "recv_request recv fresh_request s = (True, q, s1)"
      "inp s1 = concat (map request_bytes reqs) @ tail"
      using recv_request_complete [OF law(1,2), of s q _ fresh_request] Cons.prems by auto
    have o1: "outp s1 = outp s" using recv_request_keeps [OF law(1), of outp fresh_request s] out r by simp
    obtain ok s2 where w: "send_response send (handler q) s1 = (ok, s2)" by force
    show ?case
    proof (cases "small_response (handler q)")
      case False
      then have "\<not> ok \<and> s2 = s1" using w by (simp add: send_parts(2) small_response_def split: if_splits)
      then show ?thesis using r(1) w False o1
        by (intro exI [of _ s1]) (simp add: handle_connection.simps [of recv send close handler s] served_def)
    next
      case True
      then have ok: ok and o2: "outp s2 = outp s1 @ response_bytes (handler q)"
        using send_response_result [OF law(3), of "handler q" s1] law(4) w by (auto simp: small_response_def)
      have "inp s2 = inp s1" using send_response_keeps [of inp send "handler q" s1] inp w by simp
      then obtain s' where s': "handle_connection recv send close handler s2 = Some (close s')"
        "outp s' = outp s2 @ concat (map response_bytes (served handler reqs))"
        using Cons.IH [of s2] Cons.prems r(2) by auto
      have "handle_connection recv send close handler s = handle_connection recv send close handler s2"
        using r(1) w ok by (simp add: handle_connection.simps [of recv send close handler s])
      then show ?thesis using s' o1 o2 True by (auto simp: served_def)
    qed
  }
qed

lemma split_requests:
  "\<exists>reqs tail. bs = concat (map request_bytes reqs) @ tail \<and> (\<forall>r\<in>set reqs. length (rq_payload r) \<le> 65535) \<and> no_request tail"
proof (induction "length bs" arbitrary: bs rule: less_induct)
  case less
  show ?case
  proof (cases "no_request bs")
    case True
    then show ?thesis by (intro exI [of _ "[]"] exI [of _ bs]) simp
  next
    case False
    then obtain r rest where r: "bs = request_bytes r @ rest" "length (rq_payload r) \<le> 65535" by (auto simp: no_request_def)
    then have "length rest < length bs" by (simp add: request_bytes_def frame_def)
    from less [OF this] obtain reqs tail where
      "rest = concat (map request_bytes reqs) @ tail" "\<forall>r\<in>set reqs. length (rq_payload r) \<le> 65535" "no_request tail" by blast
    then show ?thesis using r by (intro exI [of _ "r # reqs"] exI [of _ tail]) simp
  qed
qed


definition echo :: "Request \<Rightarrow> Response" where
  "echo r = \<lparr> rs_id = rq_id r, rs_status = Status_Ok, rs_payload = rq_payload r \<rparr>"

lemma dribble_duplex: "duplex dribble_recv dribble_send fst snd"
  by (simp add: duplex_def dribble_recv_def dribble_send_def)


section \<open>Setting up and tearing down\<close>

text \<open>
  The system calls on descriptors, each with the value it returned. The text of an error is what
  \<open>strerror(errno)\<close> gives when the exception is built.
\<close>

datatype sockopt = SO_REUSEADDR int | TCP_NODELAY int | SO_RCVTIMEO int int

datatype net_call =
    Socket int
  | SetSockOpt int sockopt
  | Bind int u16
  | Listen int int
  | Pipe int int
  | Connect int
  | EpollCreate int
  | EpollAdd int
  | Accept4 int int
  | Close int
  | WriteByte int u8

datatype net_error = Runtime_Error string

record server_env =
  socket_ret :: int
  socket_error :: string
  bind_ret :: int
  bind_error :: string
  listen_ret :: int
  listen_error :: string
  pipe_ret :: int
  pipe_fds :: "int \<times> int"
  pipe_error :: string

definition make_server_socket :: "u16 \<Rightarrow> server_env \<Rightarrow> (net_error + int) \<times> net_call list" where
  "make_server_socket port env =
     (let fd = socket_ret env in
      if fd < 0 then (Inl (Runtime_Error (''socket: '' @ socket_error env)), [Socket fd])
      else let calls = [Socket fd, SetSockOpt fd (SO_REUSEADDR 1), Bind fd port] in
      if bind_ret env < 0
      then (Inl (Runtime_Error (''bind: '' @ bind_error env)), calls @ [Close fd])
      else if listen_ret env < 0
      then (Inl (Runtime_Error (''listen: '' @ listen_error env)), calls @ [Listen fd 128, Close fd])
      else (Inr fd, calls @ [Listen fd 128]))"

text \<open>The pool and the handler are left to the other definitions.\<close>

record TcpServer =
  srv_port :: u16
  server_fd :: int
  recv_timeout_ms :: int
  stop_pipe :: "int \<times> int"

definition new_TcpServer :: "u16 \<Rightarrow> int \<Rightarrow> server_env \<Rightarrow> (net_error + TcpServer) \<times> net_call list" where
  "new_TcpServer port timeout env =
     (case make_server_socket port env of
        (Inl e, calls) \<Rightarrow> (Inl e, calls)
      | (Inr fd, calls) \<Rightarrow>
          if pipe_ret env < 0
          then (Inl (Runtime_Error (''pipe: '' @ pipe_error env)), calls @ [Close fd])
          else (Inr \<lparr> srv_port = port, server_fd = fd, recv_timeout_ms = timeout, stop_pipe = pipe_fds env \<rparr>,
                calls @ [Pipe (fst (pipe_fds env)) (snd (pipe_fds env))]))"

definition del_TcpServer :: "TcpServer \<Rightarrow> net_call list" where
  "del_TcpServer srv =
     (if 0 \<le> server_fd srv then [Close (server_fd srv)] else [])
     @ (if 0 \<le> fst (stop_pipe srv) then [Close (fst (stop_pipe srv))] else [])
     @ (if 0 \<le> snd (stop_pipe srv) then [Close (snd (stop_pipe srv))] else [])"

definition srv_stop :: "TcpServer \<Rightarrow> net_call list" where
  "srv_stop srv = [WriteByte (snd (stop_pipe srv)) 1]"

record client_env =
  gai_ret :: "string \<Rightarrow> u16 \<Rightarrow> int"
  gai_error :: string
  cl_socket_ret :: int
  cl_socket_error :: string
  connect_ret :: int
  connect_error :: string

text \<open>\<open>getaddrinfo\<close> and \<open>freeaddrinfo\<close> are not calls on descriptors.\<close>

definition new_TcpClient :: "string \<Rightarrow> u16 \<Rightarrow> client_env \<Rightarrow> (net_error + int) \<times> net_call list" where
  "new_TcpClient host port env =
     (if gai_ret env host port \<noteq> 0 then (Inl (Runtime_Error (''getaddrinfo: '' @ gai_error env)), [])
      else let fd = cl_socket_ret env in
      if fd < 0 then (Inl (Runtime_Error (''socket: '' @ cl_socket_error env)), [Socket fd])
      else let calls = [Socket fd, SetSockOpt fd (TCP_NODELAY 1), Connect fd] in
      if connect_ret env < 0
      then (Inl (Runtime_Error (''connect: '' @ connect_error env)), calls @ [Close fd])
      else (Inr fd, calls))"

definition del_TcpClient :: "int \<Rightarrow> net_call list" where
  "del_TcpClient fd = (if 0 \<le> fd then [Close fd] else [])"

definition client_send :: "'s send_fun \<Rightarrow> Request \<Rightarrow> 's \<Rightarrow> bool \<times> 's" where
  "client_send send req s = send_request send req s"

definition client_recv :: "'s recv_fun \<Rightarrow> Response \<Rightarrow> 's \<Rightarrow> bool \<times> Response \<times> 's" where
  "client_recv recv out s = recv_response recv out s"

definition connected :: "int \<Rightarrow> bool" where
  "connected fd \<longleftrightarrow> 0 \<le> fd"

text \<open>The descriptors a list of calls leaves open, in a table that had \<open>fds\<close> open before.\<close>

fun open_after :: "net_call list \<Rightarrow> int set \<Rightarrow> int set" where
  "open_after [] fds = fds"
| "open_after (c # cs) fds = open_after cs
     (case c of Socket fd \<Rightarrow> if 0 \<le> fd then insert fd fds else fds
      | Pipe a b \<Rightarrow> insert a (insert b fds)
      | EpollCreate fd \<Rightarrow> if 0 \<le> fd then insert fd fds else fds
      | Accept4 _ fd \<Rightarrow> if 0 \<le> fd then insert fd fds else fds
      | Close fd \<Rightarrow> fds - {fd}
      | _ \<Rightarrow> fds)"

lemma open_after_append: "open_after (xs @ ys) fds = open_after ys (open_after xs fds)"
  by (induction xs arbitrary: fds) simp_all

section \<open>Accepting connections\<close>

text \<open>
  What \<open>epoll_wait\<close> returns in turn: an error, interrupted or not, or the events, each a
  descriptor and what \<open>accept4\<close> returns if it is called for it. A loop that has used up its list is
  blocked in \<open>epoll_wait\<close>: \<open>None\<close>.
\<close>

datatype wait_result = Interrupted | Wait_Failed | Events "(int \<times> int) list"

definition timeout_opts :: "int \<Rightarrow> int \<Rightarrow> net_call list" where
  "timeout_opts ms fd =
     (if 0 < ms then [SetSockOpt fd (SO_RCVTIMEO (ms sdiv 1000) ((ms smod 1000) * 1000))] else [])"

text \<open>The descriptors handed to the thread pool, in order, are the second component.\<close>

fun on_events :: "TcpServer \<Rightarrow> int \<Rightarrow> (int \<times> int) list \<Rightarrow> bool \<times> int list \<times> net_call list" where
  "on_events srv epfd [] = (False, [], [])"
| "on_events srv epfd ((fd, client_fd) # es) =
     (if fd = fst (stop_pipe srv) then (True, [], [Close epfd])
      else if fd = server_fd srv then
        (case on_events srv epfd es of (stopped, tasks, calls) \<Rightarrow>
           if client_fd < 0 then (stopped, tasks, [Accept4 fd client_fd] @ calls)
           else (stopped, client_fd # tasks,
            [Accept4 fd client_fd, SetSockOpt client_fd (TCP_NODELAY 1)] @ timeout_opts (recv_timeout_ms srv) client_fd @ calls))
      else on_events srv epfd es)"

fun wait_loop :: "TcpServer \<Rightarrow> int \<Rightarrow> wait_result list \<Rightarrow> (int list \<times> net_call list) option" where
  "wait_loop srv epfd [] = None"
| "wait_loop srv epfd (w # ws) =
     (case w of
        Interrupted \<Rightarrow> wait_loop srv epfd ws
      | Wait_Failed \<Rightarrow> Some ([], [Close epfd])
      | Events es \<Rightarrow> (case on_events srv epfd es of (stopped, tasks, calls) \<Rightarrow>
          if stopped then Some (tasks, calls)
          else map_option (\<lambda>(tasks', calls'). (tasks @ tasks', calls @ calls')) (wait_loop srv epfd ws)))"

definition accept_loop :: "TcpServer \<Rightarrow> int \<Rightarrow> string \<Rightarrow> wait_result list
    \<Rightarrow> (net_error + int list \<times> net_call list) option" where
  "accept_loop srv epfd err ws =
     (if epfd < 0 then Some (Inl (Runtime_Error (''epoll_create1: '' @ err)))
      else map_option (\<lambda>(tasks, calls). Inr (tasks,
             [EpollCreate epfd, EpollAdd (server_fd srv), EpollAdd (fst (stop_pipe srv))] @ calls))
           (wait_loop srv epfd ws))"

definition srv_run :: "TcpServer \<Rightarrow> int \<Rightarrow> string \<Rightarrow> wait_result list
    \<Rightarrow> (net_error + int list \<times> net_call list) option" where
  "srv_run = accept_loop"

text \<open>When the loop ends, and the connections it accepts before that.\<close>

definition ends_loop :: "TcpServer \<Rightarrow> wait_result \<Rightarrow> bool" where
  "ends_loop srv w = (case w of Interrupted \<Rightarrow> False | Wait_Failed \<Rightarrow> True
     | Events es \<Rightarrow> fst (stop_pipe srv) \<in> set (map fst es))"

definition events_of :: "wait_result \<Rightarrow> (int \<times> int) list" where
  "events_of w = (case w of Events es \<Rightarrow> es | _ \<Rightarrow> [])"

definition accepted :: "TcpServer \<Rightarrow> wait_result list \<Rightarrow> int list" where
  "accepted srv ws = map snd (filter (\<lambda>e. fst e = server_fd srv \<and> 0 \<le> snd e)
     (takeWhile (\<lambda>e. fst e \<noteq> fst (stop_pipe srv))
       (concat (map events_of (takeWhile (\<lambda>w. w \<noteq> Wait_Failed) ws)))))"

lemma open_after_timeout_opts [simp]: "open_after (timeout_opts ms fd) fds = fds"
  by (simp add: timeout_opts_def)

lemma on_events_stopped: "fst (on_events srv epfd es) = (fst (stop_pipe srv) \<in> set (map fst es))"
  by (induction es) (auto split: prod.splits if_splits)

lemma on_events_tasks:
  "fst (snd (on_events srv epfd es)) = map snd (filter (\<lambda>e. fst e = server_fd srv \<and> 0 \<le> snd e)
     (takeWhile (\<lambda>e. fst e \<noteq> fst (stop_pipe srv)) es))"
  by (induction es) (auto split: prod.splits)

lemma on_events_open:
  assumes "on_events srv epfd es = (stopped, tasks, calls)"
  shows "open_after calls fds = fds \<union> set tasks - (if stopped then {epfd} else {})"
  using assms
proof (induction es arbitrary: stopped tasks calls fds)
  case Nil
  then show ?case by simp
next
  case (Cons e es)
  obtain fd c where e: "e = (fd, c)" by force
  obtain st ta ca where r: "on_events srv epfd es = (st, ta, ca)" by (metis prod_cases3)
  consider "fd = fst (stop_pipe srv)" | "fd \<noteq> fst (stop_pipe srv)" "fd = server_fd srv" "0 \<le> c"
    | "fd \<noteq> fst (stop_pipe srv)" "fd = server_fd srv" "c < 0" | "fd \<noteq> fst (stop_pipe srv)" "fd \<noteq> server_fd srv" by linarith
  then show ?case
  proof cases
    case 1
    then show ?thesis using Cons.prems by (auto simp: e)
  next
    case 2
    then have "stopped = st" "tasks = c # ta" "open_after calls fds = open_after ca (insert c fds)"
      using Cons.prems r by (auto simp: e open_after_append)
    then show ?thesis by (simp only: Cons.IH [OF r] list.set Un_insert_left Un_insert_right)
  next
    case 3
    then have "stopped = st" "tasks = ta" "open_after calls fds = open_after ca fds" using Cons.prems r by (auto simp: e)
    then show ?thesis by (simp only: Cons.IH [OF r])
  next
    case 4
    then show ?thesis using Cons.prems Cons.IH [OF r, of fds] r by (auto simp: e)
  qed
qed

lemma wait_loop_result:
  assumes "epfd \<notin> fds" and "epfd \<notin> set (accepted srv ws)"
  shows "case wait_loop srv epfd ws of None \<Rightarrow> \<not> list_ex (ends_loop srv) ws
    | Some (tasks, calls) \<Rightarrow> list_ex (ends_loop srv) ws \<and> tasks = accepted srv ws
        \<and> open_after calls (insert epfd fds) = fds \<union> set tasks"
  using assms
proof (induction ws arbitrary: fds)
  case Nil
  then show ?case by simp
next
  case (Cons w ws)
  show ?case
  proof (cases w)
    case Interrupted
    then have a: "accepted srv (w # ws) = accepted srv ws"
      and l: "list_ex (ends_loop srv) (w # ws) = list_ex (ends_loop srv) ws"
      and s: "wait_loop srv epfd (w # ws) = wait_loop srv epfd ws"
      by (simp_all add: accepted_def events_of_def ends_loop_def)
    show ?thesis unfolding a l s using Cons.prems by (intro Cons.IH) (simp_all only: a not_False_eq_True)
  next
    case Wait_Failed
    then show ?thesis using Cons.prems by (simp add: accepted_def ends_loop_def)
  next
    case (Events es)
    obtain st ta ca where r: "on_events srv epfd es = (st, ta, ca)" by (metis prod_cases3)
    have ev: "st = (fst (stop_pipe srv) \<in> set (map fst es))" using on_events_stopped [of srv epfd es] r by simp
    have ta: "map snd (filter (\<lambda>e. fst e = server_fd srv \<and> 0 \<le> snd e)
      (takeWhile (\<lambda>e. fst e \<noteq> fst (stop_pipe srv)) es)) = ta" using on_events_tasks [of srv epfd es] r by simp
    show ?thesis
    proof (cases st)
      case True
      then obtain e where "e \<in> set es" "\<not> fst e \<noteq> fst (stop_pipe srv)" using ev by auto
      then have "accepted srv (w # ws) = ta" by (simp add: accepted_def Events events_of_def takeWhile_append1 ta)
      then show ?thesis using True r ev on_events_open [OF r, of "insert epfd fds"] Cons.prems
        by (simp add: Events ends_loop_def insert_Diff_if)
    next
      case False
      then have "\<forall>e\<in>set es. fst e \<noteq> fst (stop_pipe srv)" using ev by (metis imageI list.set_map)
      then have a: "accepted srv (w # ws) = ta @ accepted srv ws"
        using ta by (simp add: accepted_def Events events_of_def takeWhile_eq_all_conv [THEN iffD2])
      then have "epfd \<notin> fds \<union> set ta" "epfd \<notin> set (accepted srv ws)" using Cons.prems by auto
      then show ?thesis using Cons.IH [of "fds \<union> set ta"] False r ev on_events_open [OF r, of "insert epfd fds"] a
        by (auto simp: Events ends_loop_def open_after_append split: option.splits)
    qed
  qed
qed

text \<open>C27. The accept loop serves every connection once and then stops. It returns if and only if
  \<open>epoll_wait\<close> reports the stop pipe or fails with something else than an interruption; every
  connection that \<open>accept4\<close> returned before that is handed to the thread pool exactly once, in the
  order of the events, and the epoll descriptor is closed again, so that only the accepted
  connections stay open.\<close>

theorem accept_loop_correct:
  assumes "0 \<le> epfd" and "epfd \<notin> fds" and "epfd \<notin> set (accepted srv ws)"
  shows "case accept_loop srv epfd err ws of
      None \<Rightarrow> \<not> list_ex (ends_loop srv) ws
    | Some (Inl e) \<Rightarrow> False
    | Some (Inr (tasks, calls)) \<Rightarrow> list_ex (ends_loop srv) ws \<and> tasks = accepted srv ws
        \<and> open_after calls fds = fds \<union> set tasks"
  using wait_loop_result [OF assms(2,3)] assms(1)
  by (auto simp: accept_loop_def split: option.splits)

definition sample_server :: TcpServer where
  "sample_server = \<lparr> srv_port = 8080, server_fd = 3, recv_timeout_ms = 1500, stop_pipe = (4, 5) \<rparr>"

theorem accept_loop_correct_witness:
  "\<exists>calls. accept_loop sample_server 6 [] [Events [(3, 7)], Interrupted, Events [(3, -1), (3, 8), (4, 0), (3, 9)], Events []]
      = Some (Inr ([7, 8], calls)) \<and> open_after calls {0, 1} = {0, 1, 7, 8}"
  using accept_loop_correct [of 6 "{0, 1}" sample_server
      "[Events [(3, 7)], Interrupted, Events [(3, -1), (3, 8), (4, 0), (3, 9)], Events []]" "[]"]
  by (auto simp: accepted_def events_of_def ends_loop_def sample_server_def accept_loop_def)

text \<open>No descriptor leaks: when the constructor of the server throws, on whichever call, the
  descriptors open are those that were open before; when it succeeds, exactly the listening socket
  and the two ends of the stop pipe have been added, and the destructor closes them again.\<close>

lemma server_descriptors:
  assumes "socket_ret env \<notin> fds" and "{fst (pipe_fds env), snd (pipe_fds env)} \<inter> fds = {}"
    and "0 \<le> fst (pipe_fds env)" and "0 \<le> snd (pipe_fds env)"
  shows "case new_TcpServer port timeout env of
      (Inl e, calls) \<Rightarrow> open_after calls fds = fds
    | (Inr srv, calls) \<Rightarrow> open_after calls fds = fds \<union> {server_fd srv, fst (stop_pipe srv), snd (stop_pipe srv)}
        \<and> open_after (calls @ del_TcpServer srv) fds = fds"
  using assms by (auto simp: new_TcpServer_def make_server_socket_def del_TcpServer_def Let_def)

lemma client_descriptors:
  assumes "cl_socket_ret env \<notin> fds"
  shows "case new_TcpClient host port env of
      (Inl e, calls) \<Rightarrow> open_after calls fds = fds
    | (Inr fd, calls) \<Rightarrow> connected fd \<and> open_after calls fds = insert fd fds \<and> open_after (calls @ del_TcpClient fd) fds = fds"
  using assms by (auto simp: new_TcpClient_def del_TcpClient_def connected_def Let_def)

end
