(* ===== verification/Thread_Pool.thy ===== *)
theory Thread_Pool
  imports Transitions "HOL-Library.Multiset"
begin

text \<open>
  The thread pool of \<open>thread_pool.hpp\<close> as a step relation. All accesses to the queue and the stop
  flag are made under \<open>mu_\<close>, so a critical section is one step; between them any thread may run.
  A wait on the condition variable may end spuriously, and \<open>notify_one\<close> comes some time after
  the unlock that precedes it.
\<close>

section \<open>State\<close>

text \<open>
  Where a worker is: about to lock and test the wait condition, in the wait set, running a task
  outside the lock, or returned.
\<close>

datatype 'a worker = Checking | Waiting | Running 'a | Exited

datatype shutdown_pc = No_Shutdown | Stop_Set | Joining | Joined

text \<open>
  \<open>tp_owed\<close> counts the calls of \<open>submit\<close> that have pushed and not yet notified. The last three fields
  record the history: tasks submitted, taken from the queue and completed.
\<close>

record 'a ThreadPool =
  tp_tasks :: "'a list"
  tp_stop :: bool
  tp_workers :: "'a worker list"
  tp_owed :: nat
  tp_shutdown :: shutdown_pc
  tp_submitted :: "'a list"
  tp_started :: "'a list"
  tp_finished :: "'a list"

definition new_ThreadPool :: "nat \<Rightarrow> 'a ThreadPool" where
  "new_ThreadPool n = \<lparr> tp_tasks = [], tp_stop = False, tp_workers = replicate n Checking, tp_owed = 0,
     tp_shutdown = No_Shutdown, tp_submitted = [], tp_started = [], tp_finished = [] \<rparr>"

section \<open>Steps\<close>

definition submit :: "'a \<Rightarrow> 'a ThreadPool \<Rightarrow> 'a ThreadPool" where
  "submit t p = p\<lparr>tp_tasks := tp_tasks p @ [t], tp_owed := Suc (tp_owed p), tp_submitted := tp_submitted p @ [t]\<rparr>"

text \<open>The critical section of \<open>worker_loop\<close>: the condition of the wait, the exit, the pop.\<close>

definition worker_check :: "nat \<Rightarrow> 'a ThreadPool \<Rightarrow> 'a ThreadPool" where
  "worker_check i p =
     (if \<not> (tp_stop p \<or> tp_tasks p \<noteq> []) then p\<lparr>tp_workers := (tp_workers p)[i := Waiting]\<rparr>
      else if tp_stop p \<and> tp_tasks p = [] then p\<lparr>tp_workers := (tp_workers p)[i := Exited]\<rparr>
      else p\<lparr>tp_workers := (tp_workers p)[i := Running (hd (tp_tasks p))], tp_tasks := tl (tp_tasks p),
             tp_started := tp_started p @ [hd (tp_tasks p)]\<rparr>)"

definition task_return :: "nat \<Rightarrow> 'a \<Rightarrow> 'a ThreadPool \<Rightarrow> 'a ThreadPool" where
  "task_return i t p = p\<lparr>tp_workers := (tp_workers p)[i := Checking], tp_finished := tp_finished p @ [t]\<rparr>"

definition wake :: "nat \<Rightarrow> 'a ThreadPool \<Rightarrow> 'a ThreadPool" where
  "wake i p = p\<lparr>tp_workers := (tp_workers p)[i := Checking]\<rparr>"

definition notify_all :: "'a ThreadPool \<Rightarrow> 'a ThreadPool" where
  "notify_all p = p\<lparr>tp_workers := map (\<lambda>w. if w = Waiting then Checking else w) (tp_workers p)\<rparr>"

inductive worker_step :: "'a ThreadPool \<Rightarrow> 'a ThreadPool \<Rightarrow> bool" where
  check: "\<lbrakk> i < length (tp_workers p); tp_workers p ! i = Checking \<rbrakk> \<Longrightarrow> worker_step p (worker_check i p)"
| run: "\<lbrakk> i < length (tp_workers p); tp_workers p ! i = Running t \<rbrakk> \<Longrightarrow> worker_step p (task_return i t p)"
| spurious: "\<lbrakk> i < length (tp_workers p); tp_workers p ! i = Waiting \<rbrakk> \<Longrightarrow> worker_step p (wake i p)"

text \<open>
  \<open>shutdown\<close> sets the flag, notifies all, joins the workers and clears the vector; it may be called
  again, by the destructor at the latest.
\<close>

inductive tp_step :: "'a ThreadPool \<Rightarrow> 'a ThreadPool \<Rightarrow> bool" where
  worker: "worker_step p q \<Longrightarrow> tp_step p q"
| push: "tp_step p (submit t p)"
| notify_one: "\<lbrakk> tp_owed p = Suc k; i < length (tp_workers p); tp_workers p ! i = Waiting \<rbrakk>
    \<Longrightarrow> tp_step p ((wake i p)\<lparr>tp_owed := k\<rparr>)"
| notify_none: "\<lbrakk> tp_owed p = Suc k; Waiting \<notin> set (tp_workers p) \<rbrakk> \<Longrightarrow> tp_step p (p\<lparr>tp_owed := k\<rparr>)"
| set_stop: "tp_shutdown p \<in> {No_Shutdown, Joined} \<Longrightarrow> tp_step p (p\<lparr>tp_stop := True, tp_shutdown := Stop_Set\<rparr>)"
| wake_all: "tp_shutdown p = Stop_Set \<Longrightarrow> tp_step p ((notify_all p)\<lparr>tp_shutdown := Joining\<rparr>)"
| join: "\<lbrakk> tp_shutdown p = Joining; set (tp_workers p) \<subseteq> {Exited} \<rbrakk>
    \<Longrightarrow> tp_step p (p\<lparr>tp_workers := [], tp_shutdown := Joined\<rparr>)"

text \<open>Steps that submit nothing once \<open>shutdown\<close> has been called.\<close>

definition orderly_step :: "'a ThreadPool \<Rightarrow> 'a ThreadPool \<Rightarrow> bool" where
  "orderly_step p q \<longleftrightarrow> tp_step p q \<and> (tp_stop p \<longrightarrow> tp_submitted q = tp_submitted p)"

section \<open>Invariant\<close>

definition running :: "'a worker list \<Rightarrow> 'a multiset" where
  "running ws = mset (concat (map (\<lambda>w. case w of Running t \<Rightarrow> [t] | _ \<Rightarrow> []) ws))"

definition awake :: "'a worker list \<Rightarrow> nat" where
  "awake ws = length (filter (\<lambda>w. w = Checking) ws)"

definition history_inv :: "'a ThreadPool \<Rightarrow> bool" where
  "history_inv p \<longleftrightarrow> tp_submitted p = tp_started p @ tp_tasks p
     \<and> mset (tp_started p) = mset (tp_finished p) + running (tp_workers p)"

text \<open>As long as a worker waits, every queued task has a worker awake or a notification to come.\<close>

definition wakeup_inv :: "'a ThreadPool \<Rightarrow> bool" where
  "wakeup_inv p \<longleftrightarrow> (Waiting \<in> set (tp_workers p) \<longrightarrow> length (tp_tasks p) \<le> tp_owed p + awake (tp_workers p))
     \<and> (tp_stop p \<longleftrightarrow> tp_shutdown p \<noteq> No_Shutdown)
     \<and> (tp_shutdown p \<in> {Joining, Joined} \<longrightarrow> Waiting \<notin> set (tp_workers p))
     \<and> (Exited \<in> set (tp_workers p) \<longrightarrow> tp_stop p)"

definition tp_inv :: "'a ThreadPool \<Rightarrow> bool" where
  "tp_inv p \<longleftrightarrow> history_inv p \<and> wakeup_inv p"

text \<open>One worker changes: the list around it stays.\<close>

lemma worker_split:
  assumes "i < length ws" and "ws ! i = w"
  obtains xs ys where "ws = xs @ w # ys" and "\<And>v. ws[i := v] = xs @ v # ys"
proof (rule that [of "take i ws" "drop (Suc i) ws"])
  show "ws = take i ws @ w # drop (Suc i) ws" using id_take_nth_drop [OF assms(1)] assms(2) by simp
  show "ws[i := v] = take i ws @ v # drop (Suc i) ws" for v using upd_conv_take_nth_drop [OF assms(1)] .
qed

lemma running_simps [simp]:
  "running [] = {#}" "running (xs @ ys) = running xs + running ys"
  "running (Running t # ws) = add_mset t (running ws)" "running (Checking # ws) = running ws"
  "running (Waiting # ws) = running ws" "running (Exited # ws) = running ws"
  by (simp_all add: running_def)

lemma awake_simps [simp]:
  "awake [] = 0" "awake (xs @ ys) = awake xs + awake ys" "awake (Checking # ws) = Suc (awake ws)"
  "awake (Running t # ws) = awake ws" "awake (Waiting # ws) = awake ws" "awake (Exited # ws) = awake ws"
  by (simp_all add: awake_def)

text \<open>The five things a worker can do.\<close>

lemma worker_stepE:
  assumes "worker_step p q"
  obtains (wait) xs ys where "tp_workers p = xs @ Checking # ys" "\<not> tp_stop p" "tp_tasks p = []"
      "q = p\<lparr>tp_workers := xs @ Waiting # ys\<rparr>"
  | (exit) xs ys where "tp_workers p = xs @ Checking # ys" "tp_stop p" "tp_tasks p = []"
      "q = p\<lparr>tp_workers := xs @ Exited # ys\<rparr>"
  | (take) xs ys t ts where "tp_workers p = xs @ Checking # ys" "tp_tasks p = t # ts"
      "q = p\<lparr>tp_workers := xs @ Running t # ys, tp_tasks := ts, tp_started := tp_started p @ [t]\<rparr>"
  | (return) xs ys t where "tp_workers p = xs @ Running t # ys"
      "q = p\<lparr>tp_workers := xs @ Checking # ys, tp_finished := tp_finished p @ [t]\<rparr>"
  | (wakeup) xs ys where "tp_workers p = xs @ Waiting # ys" "q = p\<lparr>tp_workers := xs @ Checking # ys\<rparr>"
  using assms
proof cases
  case (check i)
  then obtain xs ys where w: "tp_workers p = xs @ Checking # ys" "\<And>v. (tp_workers p)[i := v] = xs @ v # ys"
    by (metis worker_split)
  show ?thesis
  proof (cases "tp_tasks p")
    case Nil
    then show ?thesis using check(1) w wait exit by (cases "tp_stop p") (simp_all add: worker_check_def)
  next
    case (Cons t ts)
    then show ?thesis using check(1) w take by (simp add: worker_check_def)
  qed
next
  case (run i t)
  then obtain xs ys where "tp_workers p = xs @ Running t # ys" "\<And>v. (tp_workers p)[i := v] = xs @ v # ys"
    by (metis worker_split)
  then show ?thesis using run(1) return by (simp add: task_return_def)
next
  case (spurious i)
  then obtain xs ys where "tp_workers p = xs @ Waiting # ys" "\<And>v. (tp_workers p)[i := v] = xs @ v # ys"
    by (metis worker_split)
  then show ?thesis using spurious(1) wakeup by (simp add: wake_def)
qed

lemmas worker_defs = history_inv_def wakeup_inv_def tp_inv_def

lemma worker_step_inv:
  assumes "tp_inv p" and "worker_step p q"
  shows "tp_inv q"
  using assms(2) assms(1) by (cases rule: worker_stepE) (auto simp: worker_defs)

lemma notify_all_lists:
  "running (map (\<lambda>w. if w = Waiting then Checking else w) ws) = running ws"
  "Waiting \<notin> set (map (\<lambda>w. if w = Waiting then Checking else w) ws)"
  "Exited \<in> set (map (\<lambda>w. if w = Waiting then Checking else w) ws) \<longleftrightarrow> Exited \<in> set ws"
  by (induction ws) (auto simp: running_def)

lemma only_exited: "set ws \<subseteq> {Exited} \<Longrightarrow> running ws = {#}"
  by (induction ws) auto

lemma tp_step_inv:
  assumes "tp_inv p" and "tp_step p q"
  shows "tp_inv q"
  using assms(2)
proof cases
  case worker
  then show ?thesis using assms(1) worker_step_inv by blast
next
  case (push t)
  then show ?thesis using assms(1) by (auto simp: worker_defs submit_def)
next
  case (notify_one k i)
  then obtain xs ys where "tp_workers p = xs @ Waiting # ys" "\<And>v. (tp_workers p)[i := v] = xs @ v # ys"
    by (metis worker_split)
  then show ?thesis using assms(1) notify_one(1,2) by (auto simp: worker_defs wake_def)
next
  case (notify_none k)
  then show ?thesis using assms(1) by (auto simp: worker_defs)
next
  case set_stop
  then show ?thesis using assms(1) by (auto simp: worker_defs)
next
  case wake_all
  then show ?thesis using assms(1) notify_all_lists [of "tp_workers p"]
    by (auto simp: worker_defs notify_all_def simp del: set_map)
next
  case join
  then show ?thesis using assms(1) only_exited [OF join(3)] by (auto simp: worker_defs)
qed

interpretation tp: preserved tp_step tp_inv
  by unfold_locales (rule tp_step_inv)

lemma new_ThreadPool_inv: "tp_inv (new_ThreadPool n)"
proof -
  have "running (replicate n Checking) = {#}" by (induction n) simp_all
  then show ?thesis by (auto simp: new_ThreadPool_def worker_defs)
qed

section \<open>Shutting down\<close>

text \<open>Without submissions after the stop, no task is left behind by a worker that returned.\<close>

definition drained_inv :: "'a ThreadPool \<Rightarrow> bool" where
  "drained_inv p \<longleftrightarrow> tp_inv p \<and> (Exited \<in> set (tp_workers p) \<longrightarrow> tp_tasks p = [])"

lemma worker_step_drained:
  assumes "drained_inv p" and "worker_step p q"
  shows "drained_inv q"
proof -
  have "Exited \<in> set (tp_workers q) \<longrightarrow> tp_tasks q = []"
    using assms(2) assms(1) by (cases rule: worker_stepE) (auto simp: drained_inv_def)
  then show ?thesis using worker_step_inv assms by (auto simp: drained_inv_def)
qed

lemma orderly_step_drained:
  assumes "drained_inv p" and "orderly_step p q"
  shows "drained_inv q"
proof -
  have "tp_step p q" using assms(2) by (simp add: orderly_step_def)
  then have "Exited \<in> set (tp_workers q) \<longrightarrow> tp_tasks q = []"
  proof cases
    case worker
    then show ?thesis using worker_step_drained assms(1) by (auto simp: drained_inv_def)
  next
    case (push t)
    then show ?thesis using assms by (auto simp: orderly_step_def drained_inv_def submit_def worker_defs)
  next
    case (notify_one k i)
    then have "Exited \<in> set (tp_workers p)" if "Exited \<in> set (tp_workers q)"
      using that by (auto simp: wake_def dest!: set_update_subset_insert [THEN subsetD])
    then show ?thesis using notify_one(1) assms(1) by (auto simp: wake_def drained_inv_def)
  next
    case wake_all
    then show ?thesis using assms(1) notify_all_lists(3) [of "tp_workers p"]
      by (auto simp: notify_all_def drained_inv_def)
  qed (use assms(1) in \<open>auto simp: drained_inv_def\<close>)
  then show ?thesis using tp_step_inv \<open>tp_step p q\<close> assms(1) by (auto simp: drained_inv_def)
qed

interpretation orderly: preserved orderly_step drained_inv
  by unfold_locales (rule orderly_step_drained)

text \<open>
  A pool of \<open>n\<close> threads. With none it never starts a task; otherwise its vector of workers is empty only after a
  join, with nothing left in the queue.
\<close>

definition staffed :: "nat \<Rightarrow> 'a ThreadPool \<Rightarrow> bool" where
  "staffed n p \<longleftrightarrow> drained_inv p \<and>
     (if n = 0 then tp_workers p = [] \<and> tp_started p = [] else tp_workers p = [] \<longrightarrow> tp_tasks p = [] \<and> tp_stop p)"

lemma worker_step_orderly: "worker_step p q \<Longrightarrow> orderly_step p q \<and> tp_submitted q = tp_submitted p \<and> tp_stop q = tp_stop p"
  unfolding orderly_step_def by (auto intro: tp_step.worker elim: worker_stepE)

lemma orderly_step_staffed:
  assumes "staffed n p" and "orderly_step p q"
  shows "staffed n q"
proof -
  have "tp_step p q" using assms(2) by (simp add: orderly_step_def)
  then have "if n = 0 then tp_workers q = [] \<and> tp_started q = [] else tp_workers q = [] \<longrightarrow> tp_tasks q = [] \<and> tp_stop q"
  proof cases
    case worker
    then show ?thesis using assms(1) by (cases rule: worker_stepE) (auto simp: staffed_def split: if_splits)
  next
    case (push t)
    then show ?thesis using assms by (auto simp: orderly_step_def staffed_def submit_def)
  next
    case join
    then show ?thesis using assms(1) by (cases "tp_workers p") (auto simp: staffed_def drained_inv_def worker_defs)
  qed (use assms(1) in \<open>auto simp: staffed_def wake_def notify_all_def\<close>)
  then show ?thesis using orderly_step_drained assms by (auto simp: staffed_def)
qed

interpretation staff: preserved orderly_step "staffed n"
  by unfold_locales (rule orderly_step_staffed)

lemma new_ThreadPool_staffed: "staffed n (new_ThreadPool n)"
  using new_ThreadPool_inv [of n] by (auto simp: staffed_def drained_inv_def new_ThreadPool_def)

text \<open>Once all have been notified, every step of a worker lowers this number.\<close>

fun to_go :: "'a worker \<Rightarrow> nat" where
  "to_go Checking = 1" | "to_go Waiting = 2" | "to_go (Running t) = 2" | "to_go Exited = 0"

definition drain_measure :: "'a ThreadPool \<Rightarrow> nat" where
  "drain_measure p = 2 * length (tp_tasks p) + sum_list (map to_go (tp_workers p))"

lemma to_go_sum: "sum_list (map to_go ws) \<le> 2 * length ws"
proof (induction ws)
  case (Cons w ws)
  then show ?case by (cases w) simp_all
qed simp

definition draining :: "nat \<Rightarrow> 'a ThreadPool \<Rightarrow> bool" where
  "draining n p \<longleftrightarrow> staffed n p \<and> tp_shutdown p = Joining"

interpretation drain: measured worker_step "draining n" drain_measure
proof unfold_locales
  fix p q :: "'a ThreadPool"
  assume p: "draining n p" and step: "worker_step p q"
  have "tp_shutdown q = Joining"
    using step p by (cases rule: worker_stepE) (auto simp: draining_def)
  then show "draining n q" using worker_step_orderly [OF step] orderly_step_staffed p by (auto simp: draining_def)
  have "tp_stop p" using p by (auto simp: draining_def staffed_def drained_inv_def worker_defs)
  with step show "drain_measure q < drain_measure p"
    by (cases rule: worker_stepE) (auto simp: drain_measure_def)
qed

text \<open>When no worker can move, all have returned.\<close>

lemma stuck_all_exited:
  assumes "\<nexists>q. worker_step p q"
  shows "set (tp_workers p) \<subseteq> {Exited}"
proof
  fix w
  assume "w \<in> set (tp_workers p)"
  then obtain i where i: "i < length (tp_workers p)" "tp_workers p ! i = w" by (auto simp: in_set_conv_nth)
  have "w \<noteq> Checking" "w \<noteq> Waiting" "\<And>t. w \<noteq> Running t"
    using i assms worker_step.check [of i p] worker_step.spurious [of i p] worker_step.run [of i p] by blast+
  then show "w \<in> {Exited}" by (cases w) blast+
qed

lemma drained_end:
  assumes "draining n p" and "set (tp_workers p) \<subseteq> {Exited}"
  shows "if n = 0 then tp_finished p = [] else mset (tp_finished p) = mset (tp_submitted p)"
proof -
  have h: "tp_submitted p = tp_started p @ tp_tasks p" "mset (tp_started p) = mset (tp_finished p) + running (tp_workers p)"
    and none: "n = 0 \<longrightarrow> tp_started p = []" and x: "0 < n \<and> tp_workers p = [] \<longrightarrow> tp_tasks p = []"
    "Exited \<in> set (tp_workers p) \<longrightarrow> tp_tasks p = []"
    using assms(1) by (auto simp: draining_def staffed_def drained_inv_def worker_defs split: if_splits)
  have "mset (tp_finished p) = mset (tp_started p)" using h(2) only_exited [OF assms(2)] by simp
  moreover have "tp_tasks p = []" if "0 < n" using that x assms(2) by (cases "tp_workers p") auto
  ultimately show ?thesis using h(1) none by auto
qed

text \<open>A pool of no threads takes tasks and never starts one; \<open>shutdown\<close> finds nobody to wait for.\<close>

lemma no_threads: "tp_step\<^sup>*\<^sup>* (new_ThreadPool 0) p \<Longrightarrow> tp_started p = [] \<and> tp_workers p = []"
proof (induction rule: rtranclp_induct)
  case base
  show ?case by (simp add: new_ThreadPool_def)
next
  case (step p q)
  from step.hyps(2) show ?case
  proof cases
    case worker
    then show ?thesis using step.IH by (cases rule: worker_step.cases) simp_all
  qed (use step.IH in \<open>simp_all add: submit_def notify_all_def\<close>)
qed

section \<open>Properties\<close>

text \<open>C10. Every task is run exactly once, in order. In every state that any interleaving of
  submissions, notifications, spurious wake-ups, workers and shutdowns reaches, the tasks submitted
  are those taken by a worker, in the order of submission, followed by those still queued; and what
  was taken is finished or running on one worker.\<close>

theorem tasks_run_once:
  assumes "tp_step\<^sup>*\<^sup>* (new_ThreadPool n) p"
  shows "tp_submitted p = tp_started p @ tp_tasks p
    \<and> mset (tp_started p) = mset (tp_finished p) + running (tp_workers p)"
  using tp.along_run [OF assms new_ThreadPool_inv] by (simp add: tp_inv_def history_inv_def)

theorem tasks_run_once_witness:
  "tp_submitted (worker_check 1 (submit (7::nat) (new_ThreadPool 2)))
    = tp_started (worker_check 1 (submit 7 (new_ThreadPool 2))) @ tp_tasks (worker_check 1 (submit 7 (new_ThreadPool 2)))
    \<and> tp_started (worker_check 1 (submit 7 (new_ThreadPool 2))) = [7]"
proof -
  let ?p = "submit (7::nat) (new_ThreadPool 2)"
  have "tp_step (new_ThreadPool 2) ?p" by (rule tp_step.push)
  moreover have "worker_step ?p (worker_check 1 ?p)"
    by (rule worker_step.check) (simp_all add: submit_def new_ThreadPool_def)
  ultimately have "tp_step\<^sup>*\<^sup>* (new_ThreadPool 2) (worker_check 1 ?p)"
    by (meson r_into_rtranclp rtranclp.rtrancl_into_rtrancl tp_step.worker)
  from tasks_run_once [OF this] show ?thesis by (simp add: worker_check_def submit_def new_ThreadPool_def)
qed

text \<open>C28. No wake-up is lost: whenever a task is queued while some worker sleeps, either another
  worker is awake and will look at the queue, or a \<open>notify_one\<close> is still to come.\<close>

theorem no_lost_wakeup:
  assumes "tp_step\<^sup>*\<^sup>* (new_ThreadPool n) p" and "tp_tasks p \<noteq> []" and "Waiting \<in> set (tp_workers p)"
  shows "0 < tp_owed p \<or> Checking \<in> set (tp_workers p)"
proof -
  have "length (tp_tasks p) \<le> tp_owed p + awake (tp_workers p)"
    using tp.along_run [OF assms(1) new_ThreadPool_inv] assms(3) by (simp add: tp_inv_def wakeup_inv_def)
  then have "0 < tp_owed p \<or> 0 < awake (tp_workers p)" using assms(2) by (cases "tp_tasks p") auto
  then show ?thesis by (auto simp: awake_def filter_empty_conv)
qed

theorem no_lost_wakeup_witness:
  "0 < tp_owed (submit (7::nat) (worker_check 0 (new_ThreadPool 1)))
    \<or> Checking \<in> set (tp_workers (submit (7::nat) (worker_check 0 (new_ThreadPool 1))))"
proof -
  let ?p = "worker_check 0 (new_ThreadPool 1) :: nat ThreadPool"
  have "worker_step (new_ThreadPool 1) ?p" by (rule worker_step.check) (simp_all add: new_ThreadPool_def)
  then have "tp_step\<^sup>*\<^sup>* (new_ThreadPool 1) (submit 7 ?p)"
    by (meson r_into_rtranclp rtranclp.rtrancl_into_rtrancl tp_step.worker tp_step.push)
  from no_lost_wakeup [OF this] show ?thesis by (simp add: worker_check_def submit_def new_ThreadPool_def)
qed


definition stopping_pool :: "nat ThreadPool" where
  "stopping_pool = (let p = submit 7 (new_ThreadPool 1); q = p\<lparr>tp_stop := True, tp_shutdown := Stop_Set\<rparr>
     in (notify_all q)\<lparr>tp_shutdown := Joining\<rparr>)"

lemma stopping_pool_orderly: "orderly_step\<^sup>*\<^sup>* (new_ThreadPool 1) stopping_pool"
proof -
  let ?p = "submit 7 (new_ThreadPool 1) :: nat ThreadPool"
  let ?q = "?p\<lparr>tp_stop := True, tp_shutdown := Stop_Set\<rparr>"
  have "orderly_step (new_ThreadPool 1) ?p" by (simp add: orderly_step_def tp_step.push new_ThreadPool_def)
  moreover have "orderly_step ?p ?q"
    unfolding orderly_step_def by (intro conjI tp_step.set_stop) (simp_all add: submit_def new_ThreadPool_def)
  moreover have "orderly_step ?q ((notify_all ?q)\<lparr>tp_shutdown := Joining\<rparr>)"
    unfolding orderly_step_def by (intro conjI tp_step.wake_all) (simp_all add: notify_all_def)
  ultimately show ?thesis unfolding stopping_pool_def Let_def by (meson r_into_rtranclp rtranclp.rtrancl_into_rtrancl)
qed


end
