(* ===== verification/Tcp_Service.thy ===== *)
theory Tcp_Service
  imports Tcp_Server Thread_Pool
begin

text \<open>
  The server as a whole: the accept loop on one thread, the workers of its pool on the others, one stream for each
  connection. The accept loop hands the connections to the pool one after the other; a task is the
  number of its connection, and running it is \<open>handle_connection\<close> on that connection's stream. The destructor
  of the server, which shuts the pool down, comes after \<open>run\<close> has returned.
\<close>

section \<open>Threads and connections\<close>

text \<open>\<open>fds\<close> are the descriptors the accept loop hands over, \<open>conns\<close> the state of each connection.\<close>

record 's service =
  workers :: "nat ThreadPool"
  conns :: "nat \<Rightarrow> 's"

definition service_start :: "nat \<Rightarrow> (nat \<Rightarrow> 's) \<Rightarrow> 's service" where
  "service_start n conn = \<lparr> workers = new_ThreadPool n, conns = conn \<rparr>"

text \<open>
  A step of a worker: in its loop, or from the start to the end of its task. Tasks of different workers touch
  different connections, so that running one in a single step loses no interleaving.
\<close>

inductive serve_step :: "('s \<Rightarrow> 's option) \<Rightarrow> 's service \<Rightarrow> 's service \<Rightarrow> bool" for handle where
  loop: "\<lbrakk> worker_step (workers \<sigma>) p; tp_finished p = tp_finished (workers \<sigma>) \<rbrakk>
    \<Longrightarrow> serve_step handle \<sigma> (\<sigma>\<lparr>workers := p\<rparr>)"
| task: "\<lbrakk> i < length (tp_workers (workers \<sigma>)); tp_workers (workers \<sigma>) ! i = Running k; handle (conns \<sigma> k) = Some s \<rbrakk>
    \<Longrightarrow> serve_step handle \<sigma> (\<sigma>\<lparr>workers := task_return i k (workers \<sigma>), conns := (conns \<sigma>)(k := s)\<rparr>)"

text \<open>All threads: the workers, the accept loop, the notifications and the shutdown.\<close>

inductive service_step :: "('s \<Rightarrow> 's option) \<Rightarrow> int list \<Rightarrow> 's service \<Rightarrow> 's service \<Rightarrow> bool" for handle fds where
  serve: "serve_step handle \<sigma> \<tau> \<Longrightarrow> service_step handle fds \<sigma> \<tau>"
| accept: "\<lbrakk> tp_shutdown (workers \<sigma>) = No_Shutdown; length (tp_submitted (workers \<sigma>)) < length fds \<rbrakk>
    \<Longrightarrow> service_step handle fds \<sigma> (\<sigma>\<lparr>workers := submit (length (tp_submitted (workers \<sigma>))) (workers \<sigma>)\<rparr>)"
| others: "\<lbrakk> tp_step (workers \<sigma>) p; tp_submitted p = tp_submitted (workers \<sigma>); tp_finished p = tp_finished (workers \<sigma>);
      tp_stop p \<Longrightarrow> length (tp_submitted p) = length fds \<rbrakk>
    \<Longrightarrow> service_step handle fds \<sigma> (\<sigma>\<lparr>workers := p\<rparr>)"

section \<open>Invariant\<close>

definition handled :: "('s \<Rightarrow> 's option) \<Rightarrow> (nat \<Rightarrow> 's) \<Rightarrow> 's service \<Rightarrow> bool" where
  "handled handle conn \<sigma> \<longleftrightarrow> (\<forall>k. if k \<in> set (tp_finished (workers \<sigma>)) then handle (conn k) = Some (conns \<sigma> k)
     else conns \<sigma> k = conn k)"

definition service_inv :: "nat \<Rightarrow> ('s \<Rightarrow> 's option) \<Rightarrow> int list \<Rightarrow> (nat \<Rightarrow> 's) \<Rightarrow> 's service \<Rightarrow> bool" where
  "service_inv n handle fds conn \<sigma> \<longleftrightarrow> staffed n (workers \<sigma>) \<and> handled handle conn \<sigma> \<and>
     tp_submitted (workers \<sigma>) = [0..<length (tp_submitted (workers \<sigma>))] \<and>
     length (tp_submitted (workers \<sigma>)) \<le> length fds \<and>
     (tp_stop (workers \<sigma>) \<longrightarrow> length (tp_submitted (workers \<sigma>)) = length fds)"

lemma running_mem: "i < length ws \<Longrightarrow> ws ! i = Running k \<Longrightarrow> k \<in># running ws"
  by (erule worker_split) auto

text \<open>No connection is handled twice: one that a worker is running has not been finished.\<close>

lemma running_unfinished:
  assumes "service_inv n handle fds conn \<sigma>" and "k \<in># running (tp_workers (workers \<sigma>))"
  shows "k \<notin> set (tp_finished (workers \<sigma>))"
proof -
  let ?p = "workers \<sigma>"
  have h: "tp_submitted ?p = tp_started ?p @ tp_tasks ?p" "mset (tp_started ?p) = mset (tp_finished ?p) + running (tp_workers ?p)"
    using assms(1) by (simp_all add: service_inv_def staffed_def drained_inv_def worker_defs)
  have u: "tp_submitted ?p = [0..<length (tp_submitted ?p)]" using assms(1) unfolding service_inv_def by blast
  have "distinct (tp_submitted ?p)" by (subst u) simp
  then have "distinct (tp_started ?p)" using h(1) by simp
  then have "count (mset (tp_started ?p)) k \<le> 1" by (simp add: distinct_count_atmost_1)
  then have "count (mset (tp_finished ?p)) k + count (running (tp_workers ?p)) k \<le> 1" by (simp only: h(2) count_union)
  moreover have "0 < count (running (tp_workers ?p)) k" using assms(2) by simp
  ultimately have "count (mset (tp_finished ?p)) k = 0" by linarith
  then show ?thesis by simp
qed

lemma serve_step_worker:
  assumes "serve_step handle \<sigma> \<tau>"
  shows "worker_step (workers \<sigma>) (workers \<tau>)"
  using assms by cases (auto intro: worker_step.run)

lemma handled_finish:
  assumes "handled handle conn \<sigma>" and "k \<notin> set (tp_finished (workers \<sigma>))" and "handle (conns \<sigma> k) = Some s"
  shows "handled handle conn (\<sigma>\<lparr>workers := task_return i k (workers \<sigma>), conns := (conns \<sigma>)(k := s)\<rparr>)"
  unfolding handled_def
proof
  fix j
  have "if j \<in> set (tp_finished (workers \<sigma>)) then handle (conn j) = Some (conns \<sigma> j) else conns \<sigma> j = conn j"
    using assms(1) unfolding handled_def by blast
  then show "if j \<in> set (tp_finished (workers (\<sigma>\<lparr>workers := task_return i k (workers \<sigma>), conns := (conns \<sigma>)(k := s)\<rparr>)))
    then handle (conn j) = Some (conns (\<sigma>\<lparr>workers := task_return i k (workers \<sigma>), conns := (conns \<sigma>)(k := s)\<rparr>) j)
    else conns (\<sigma>\<lparr>workers := task_return i k (workers \<sigma>), conns := (conns \<sigma>)(k := s)\<rparr>) j = conn j"
    using assms(2,3) by (cases "j = k") (auto simp: task_return_def split: if_splits)
qed

lemma serve_step_inv:
  assumes inv: "service_inv n handle fds conn \<sigma>" and step: "serve_step handle \<sigma> \<tau>"
  shows "service_inv n handle fds conn \<tau>"
proof -
  note w = worker_step_orderly [OF serve_step_worker [OF step]]
  have "handled handle conn \<tau>" using step
  proof cases
    case (loop p)
    then show ?thesis using inv by (simp add: service_inv_def handled_def)
  next
    case (task i k s)
    then show ?thesis using handled_finish [OF _ running_unfinished [OF inv running_mem]] inv by (simp add: service_inv_def)
  qed
  moreover have "staffed n (workers \<tau>)" using w orderly_step_staffed inv by (auto simp: service_inv_def)
  ultimately show ?thesis using inv w by (simp add: service_inv_def)
qed

lemma service_step_inv:
  assumes inv: "service_inv n handle fds conn \<sigma>" and step: "service_step handle fds \<sigma> \<tau>"
  shows "service_inv n handle fds conn \<tau>"
  using step
proof cases
  case serve
  then show ?thesis by (rule serve_step_inv [OF inv])
next
  case accept
  let ?p = "workers \<sigma>"
  have "\<not> tp_stop ?p" using inv accept(2) by (simp add: service_inv_def staffed_def drained_inv_def worker_defs)
  then have "orderly_step ?p (submit (length (tp_submitted ?p)) ?p)" by (simp add: orderly_step_def tp_step.push)
  then have "staffed n (submit (length (tp_submitted ?p)) ?p)" using orderly_step_staffed inv by (auto simp: service_inv_def)
  then show ?thesis using inv accept \<open>\<not> tp_stop ?p\<close> by (simp add: service_inv_def handled_def submit_def)
next
  case (others p)
  then have "staffed n p" using inv orderly_step_staffed by (auto simp: service_inv_def orderly_step_def)
  then show ?thesis using inv others by (simp add: service_inv_def handled_def)
qed

interpretation service: preserved "service_step handle fds" "service_inv n handle fds conn"
  by unfold_locales (rule service_step_inv)

lemma service_start_inv: "service_inv n handle fds conn (service_start n conn)"
  using new_ThreadPool_staffed [of n, where 'a = nat]
  by (auto simp: service_inv_def service_start_def handled_def new_ThreadPool_def)

section \<open>Stopping the server\<close>

text \<open>A run of the workers is a run of the pool's workers, and while a worker can move the service can, since every
  connection is handled to its end.\<close>

lemma serve_run_workers: "(serve_step handle ^^ k) \<sigma> \<tau> \<Longrightarrow> (worker_step ^^ k) (workers \<sigma>) (workers \<tau>)"
  by (induction k arbitrary: \<tau>) (auto dest: serve_step_worker)

lemma serve_enabled:
  assumes total: "\<And>s. \<exists>s'. handle s = Some s'" and "worker_step (workers \<sigma>) p"
  shows "\<exists>\<tau>. serve_step handle \<sigma> \<tau>"
  using assms(2)
proof cases
  case (check i)
  then have "tp_finished p = tp_finished (workers \<sigma>)" by (simp add: worker_check_def)
  then show ?thesis using assms(2) by (blast intro: serve_step.loop)
next
  case (run i k)
  obtain s where "handle (conns \<sigma> k) = Some s" using total by blast
  then show ?thesis using run by (blast intro: serve_step.task)
next
  case (spurious i)
  then have "tp_finished p = tp_finished (workers \<sigma>)" by (simp add: wake_def)
  then show ?thesis using assms(2) by (blast intro: serve_step.loop)
qed

lemma all_exited_stuck: "set (tp_workers p) \<subseteq> {Exited} \<Longrightarrow> \<not> worker_step p q"
  by (auto elim!: worker_stepE)

lemma serve_run_keeps:
  assumes "(serve_step handle)\<^sup>*\<^sup>* \<sigma> \<tau>"
  shows "worker_step\<^sup>*\<^sup>* (workers \<sigma>) (workers \<tau>) \<and> (service_step handle fds)\<^sup>*\<^sup>* \<sigma> \<tau>"
  using assms
proof (induction rule: rtranclp_induct)
  case (step \<tau> \<upsilon>)
  then show ?case using serve_step_worker [OF step.hyps(2)] service_step.serve [OF step.hyps(2)]
    by (meson rtranclp.rtrancl_into_rtrancl)
qed simp

lemma connection_handled:
  assumes "recv_law recv inp" "recv_live recv inp" "send_law send outp" "send_live send" "duplex recv send inp outp"
  shows "\<exists>s'. handle_connection recv send close handler s = Some (close s') \<and>
    (\<exists>reqs tail. inp s = concat (map request_bytes reqs) @ tail \<and> (\<forall>r\<in>set reqs. length (rq_payload r) \<le> 65535) \<and>
       no_request tail \<and> outp s' = outp s @ concat (map response_bytes (served handler reqs)))"
  using split_requests [of "inp s"] connection_run [OF assms] by metis

text \<open>The end of a shutdown: every connection that was accepted has been handled, once, unless there are no workers.\<close>

lemma service_end:
  assumes inv: "service_inv n handle fds conn \<sigma>" and d: "draining n (workers \<sigma>)" and x: "set (tp_workers (workers \<sigma>)) \<subseteq> {Exited}"
  shows "if n = 0 then tp_finished (workers \<sigma>) = [] \<and> conns \<sigma> = conn
    else mset (tp_finished (workers \<sigma>)) = mset [0..<length fds] \<and> (\<forall>k < length fds. handle (conn k) = Some (conns \<sigma> k))"
proof (cases "n = 0")
  case True
  then have "tp_finished (workers \<sigma>) = []" using drained_end [OF d x] by simp
  then show ?thesis using True inv by (auto simp: service_inv_def handled_def)
next
  case False
  have "tp_stop (workers \<sigma>)" using d by (auto simp: draining_def staffed_def drained_inv_def worker_defs)
  then have s: "tp_submitted (workers \<sigma>) = [0..<length fds]" using inv unfolding service_inv_def by metis
  have f: "mset (tp_finished (workers \<sigma>)) = mset [0..<length fds]" using drained_end [OF d x] s False by simp
  then have "set (tp_finished (workers \<sigma>)) = {0..<length fds}" by (metis set_mset_mset set_upt)
  then show ?thesis using f inv False by (auto simp: service_inv_def handled_def)
qed


text \<open>One worker, one connection: accepted, then the stop, and the worker handles it while the destructor waits.\<close>

definition stopping_service :: "(bytes \<times> bytes) \<Rightarrow> (bytes \<times> bytes) service" where
  "stopping_service s = \<lparr> workers = (let p = submit 0 (new_ThreadPool 1); q = p\<lparr>tp_stop := True, tp_shutdown := Stop_Set\<rparr>
     in (notify_all q)\<lparr>tp_shutdown := Joining\<rparr>), conns = (\<lambda>_. s) \<rparr>"

lemma stopping_service_run: "(service_step handle [7])\<^sup>*\<^sup>* (service_start 1 (\<lambda>_. s)) (stopping_service s)"
proof -
  let ?p = "submit 0 (new_ThreadPool 1) :: nat ThreadPool"
  let ?q = "?p\<lparr>tp_stop := True, tp_shutdown := Stop_Set\<rparr>"
  let ?r = "(notify_all ?q)\<lparr>tp_shutdown := Joining\<rparr>"
  let ?S = "\<lambda>p. \<lparr> workers = p, conns = (\<lambda>_. s) \<rparr>"
  note d = new_ThreadPool_def submit_def notify_all_def
  have "service_step handle [7] (service_start 1 (\<lambda>_. s)) (?S ?p)"
    using service_step.accept [of "service_start 1 (\<lambda>_. s)" "[7]" handle] by (simp add: service_start_def new_ThreadPool_def)
  moreover have "tp_step ?p ?q" by (rule tp_step.set_stop) (simp add: d)
  then have "service_step handle [7] (?S ?p) (?S ?q)" using service_step.others [of "?S ?p" ?q "[7]" handle] by (simp add: d)
  moreover have "tp_step ?q ?r" by (rule tp_step.wake_all) simp
  then have "service_step handle [7] (?S ?q) (?S ?r)" using service_step.others [of "?S ?q" ?r "[7]" handle] by (simp add: d)
  ultimately show ?thesis unfolding stopping_service_def Let_def by (meson r_into_rtranclp rtranclp.rtrancl_into_rtrancl)
qed

lemma stopping_service_end:
  assumes "handle s = Some s'"
  shows "\<exists>\<tau>. (serve_step handle)\<^sup>*\<^sup>* (stopping_service s) \<tau> \<and> (\<nexists>\<upsilon>. serve_step handle \<tau> \<upsilon>) \<and> conns \<tau> 0 = s'"
proof -
  let ?p = "workers (stopping_service s)"
  let ?a = "worker_check 0 ?p"
  let ?b = "task_return 0 0 ?a"
  let ?c = "worker_check 0 ?b"
  note d = stopping_service_def new_ThreadPool_def submit_def notify_all_def worker_check_def task_return_def Let_def
  have "worker_step ?p ?a" by (rule worker_step.check) (simp_all add: d)
  then have "serve_step handle (stopping_service s) \<lparr> workers = ?a, conns = (\<lambda>_. s) \<rparr>"
    using serve_step.loop [of "stopping_service s" ?a handle] by (simp add: d)
  moreover have "serve_step handle \<lparr> workers = ?a, conns = (\<lambda>_. s) \<rparr> \<lparr> workers = ?b, conns = (\<lambda>_. s)(0 := s') \<rparr>"
    using serve_step.task [of 0 "\<lparr> workers = ?a, conns = (\<lambda>_. s) \<rparr>" 0 handle s'] assms by (simp add: d)
  moreover have "worker_step ?b ?c" by (rule worker_step.check) (simp_all add: d)
  then have "serve_step handle \<lparr> workers = ?b, conns = (\<lambda>_. s)(0 := s') \<rparr> \<lparr> workers = ?c, conns = (\<lambda>_. s)(0 := s') \<rparr>"
    using serve_step.loop [of "\<lparr> workers = ?b, conns = (\<lambda>_. s)(0 := s') \<rparr>" ?c handle] by (simp add: d)
  moreover have "tp_workers ?c = [Exited]" by (simp add: d)
  then have "\<nexists>\<upsilon>. serve_step handle \<lparr> workers = ?c, conns = (\<lambda>_. s)(0 := s') \<rparr> \<upsilon>"
    using all_exited_stuck [of ?c] serve_step_worker by force
  ultimately show ?thesis by (intro exI [of _ "\<lparr> workers = ?c, conns = (\<lambda>_. s)(0 := s') \<rparr>"])
    (auto intro: rtranclp.rtrancl_into_rtrancl r_into_rtranclp)
qed


end
