(* ===== verification/Tsc_Clock.thy ===== *)
theory Tsc_Clock
  imports Prelude Complex_Main "HOL-Library.Signed_Division"
begin

text \<open>
  The clock of \<open>tsc_clock.hpp\<close>: a correlation of the time-stamp counter with wall time and the conversion
  between them. A \<open>double\<close> is a real number; the rounding of conversions and of the division to the
  nearest \<open>double\<close> is a parameter \<open>rnd\<close> of the model, with the bound on its relative error as the law the
  results use. A cast to \<open>int64_t\<close> that is out of range and a signed overflow are undefined: \<open>Undefined\<close>.
\<close>

section \<open>Readings\<close>

definition rdtscp :: "u32 \<Rightarrow> u32 \<Rightarrow> u64" where
  "rdtscp lo hi = push_bit 32 (ucast hi) OR ucast lo"

datatype tsc_error = Undefined_Result

definition in_i64 :: "int \<Rightarrow> tsc_error + int" where
  "in_i64 x = (if - (2 ^ 63) \<le> x \<and> x < 2 ^ 63 then Inr x else Inl Undefined_Result)"

text \<open>\<open>static_cast<int64_t>\<close> of a \<open>double\<close>: towards zero.\<close>

definition to_i64 :: "real \<Rightarrow> tsc_error + int" where
  "to_i64 x = in_i64 (if 0 \<le> x then \<lfloor>x\<rfloor> else \<lceil>x\<rceil>)"

text \<open>A \<open>timespec\<close> is a pair of seconds and nanoseconds.\<close>

definition ts_ns :: "int \<times> int \<Rightarrow> int" where
  "ts_ns t = fst t * 1000000000 + snd t"

definition snap_correlation :: "int \<times> int \<Rightarrow> u64 \<Rightarrow> int \<times> int \<Rightarrow> tsc_error + (u64 \<times> int)" where
  "snap_correlation t0 tsc t1 =
     (case in_i64 (ts_ns t0) of Inl e \<Rightarrow> Inl e | Inr w0 \<Rightarrow>
      case in_i64 (ts_ns t1) of Inl e \<Rightarrow> Inl e | Inr w1 \<Rightarrow>
      case in_i64 (w0 + w1) of Inl e \<Rightarrow> Inl e | Inr s \<Rightarrow> Inr (tsc, s sdiv 2))"

section \<open>Calibration\<close>

definition spin_target :: "int \<times> int \<Rightarrow> int \<times> int" where
  "spin_target t0 =
     (let nsec = snd t0 + 50000000 in
      if 1000000000 \<le> nsec then (fst t0 + 1, nsec - 1000000000) else (fst t0, nsec))"

definition ts_before :: "int \<times> int \<Rightarrow> int \<times> int \<Rightarrow> bool" where
  "ts_before a b \<longleftrightarrow> fst a < fst b \<or> fst a = fst b \<and> snd a < snd b"

text \<open>The busy wait over the readings of the clock; \<open>None\<close> when they are used up.\<close>

fun spin_until :: "int \<times> int \<Rightarrow> (int \<times> int) list \<Rightarrow> (int \<times> int) option" where
  "spin_until target [] = None"
| "spin_until target (t1 # ts) = (if ts_before t1 target then spin_until target ts else Some t1)"

definition elapsed_ns :: "int \<times> int \<Rightarrow> int \<times> int \<Rightarrow> u64" where
  "elapsed_ns t0 t1 = of_int (fst t1 - fst t0) * 1000000000 + of_int (snd t1) - of_int (snd t0)"

definition calibrate_ghz :: "(real \<Rightarrow> real) \<Rightarrow> int \<times> int \<Rightarrow> u64 \<Rightarrow> (int \<times> int) list \<Rightarrow> u64 \<Rightarrow> real option" where
  "calibrate_ghz rnd t0 tsc0 readings tsc1 =
     map_option (\<lambda>t1. rnd (rnd (real (unat (tsc1 - tsc0))) / rnd (real (unat (elapsed_ns t0 t1)))))
       (spin_until (spin_target t0) readings)"

section \<open>The clock\<close>

record TscClock =
  ghz :: real
  tsc_base :: u64
  wall_base_ns :: int

definition new_TscClock :: "real \<Rightarrow> u64 \<times> int \<Rightarrow> TscClock" where
  "new_TscClock g c = \<lparr> ghz = g, tsc_base = fst c, wall_base_ns = snd c \<rparr>"

text \<open>The conversion from the two values that the loads return.\<close>

definition convert :: "(real \<Rightarrow> real) \<Rightarrow> real \<Rightarrow> u64 \<Rightarrow> int \<Rightarrow> u64 \<Rightarrow> tsc_error + int" where
  "convert rnd g base_tsc base_wall tsc =
     (case to_i64 (rnd (rnd (real (unat (tsc - base_tsc))) / g)) of
        Inl e \<Rightarrow> Inl e | Inr d \<Rightarrow> in_i64 (base_wall + d))"

definition to_wall_ns :: "(real \<Rightarrow> real) \<Rightarrow> u64 \<Rightarrow> TscClock \<Rightarrow> tsc_error + int" where
  "to_wall_ns rnd tsc clk = convert rnd (ghz clk) (tsc_base clk) (wall_base_ns clk) tsc"

definition delta_ns :: "(real \<Rightarrow> real) \<Rightarrow> u64 \<Rightarrow> TscClock \<Rightarrow> real" where
  "delta_ns rnd tsc_delta clk = rnd (rnd (real (unat tsc_delta)) / ghz clk)"

text \<open>\<open>recalibrate\<close> is two stores, the wall time first.\<close>

definition store_wall :: "u64 \<times> int \<Rightarrow> TscClock \<Rightarrow> TscClock" where
  "store_wall c clk = clk\<lparr>wall_base_ns := snd c\<rparr>"

definition store_tsc :: "u64 \<times> int \<Rightarrow> TscClock \<Rightarrow> TscClock" where
  "store_tsc c clk = clk\<lparr>tsc_base := fst c\<rparr>"

definition recalibrate :: "u64 \<times> int \<Rightarrow> TscClock \<Rightarrow> TscClock" where
  "recalibrate c clk = store_tsc c (store_wall c clk)"

text \<open>The states a concurrent reader meets, and a conversion that loads \<open>tsc_base_\<close> in state \<open>i\<close> and
  \<open>wall_base_ns_\<close> in state \<open>j\<close>, not before \<open>i\<close>.\<close>

definition recal_states :: "u64 \<times> int \<Rightarrow> TscClock \<Rightarrow> TscClock list" where
  "recal_states c clk = [clk, store_wall c clk, recalibrate c clk]"

definition concurrent_read :: "(real \<Rightarrow> real) \<Rightarrow> u64 \<times> int \<Rightarrow> TscClock \<Rightarrow> nat \<Rightarrow> nat \<Rightarrow> u64 \<Rightarrow> tsc_error + int" where
  "concurrent_read rnd c clk i j tsc =
     convert rnd (ghz clk) (tsc_base (recal_states c clk ! i)) (wall_base_ns (recal_states c clk ! j)) tsc"

section \<open>Rounding\<close>

text \<open>Round to nearest, for values in the normal range.\<close>

definition rnd_law :: "(real \<Rightarrow> real) \<Rightarrow> bool" where
  "rnd_law rnd \<longleftrightarrow> (\<forall>x. \<bar>rnd x - x\<bar> \<le> \<bar>x\<bar> / 2 ^ 53)"

lemma rounded_quotient:
  assumes "rnd_law rnd" and "0 < g" and "0 \<le> d"
  shows "\<bar>rnd (rnd d / g) - d / g\<bar> \<le> d / g / 2 ^ 51" and "0 \<le> rnd (rnd d / g)"
proof -
  let ?u = "1 / 2 ^ 53 :: real"
  have 1: "\<bar>rnd d - d\<bar> \<le> d * ?u" using assms(1) [unfolded rnd_law_def, rule_format, of d] assms(3) by simp
  then have "d - d * ?u \<le> rnd d" "rnd d \<le> d + d * ?u" by linarith+
  then have hi: "rnd d \<le> d * (1 + ?u)" and lo: "d - d * ?u \<le> rnd d" unfolding distrib_left by simp_all
  have "d * ?u \<le> d" using assms(3) by (simp add: divide_le_eq)
  then have lo2: "0 \<le> rnd d" using lo by linarith
  let ?q = "rnd d / g"
  have q: "\<bar>?q - d / g\<bar> \<le> d / g * ?u" "0 \<le> ?q" "?q \<le> d / g * (1 + ?u)"
    using 1 hi lo2 assms(2) by (simp_all add: diff_divide_distrib [symmetric] abs_divide divide_simps mult.commute)
  have 2: "\<bar>rnd ?q - ?q\<bar> \<le> ?q * ?u" using assms(1) [unfolded rnd_law_def, rule_format, of ?q] q(2) by simp
  also have "\<dots> \<le> d / g * (1 + ?u) * ?u" using q(3) by (intro mult_right_mono) auto
  finally have "\<bar>rnd ?q - d / g\<bar> \<le> d / g * (1 + ?u) * ?u + d / g * ?u" using q(1) by linarith
  also have "\<dots> = d / g * ((1 + ?u) * ?u + ?u)" by (simp add: algebra_simps)
  also have "\<dots> \<le> d / g * (1 / 2 ^ 51)" using assms(2,3) by (intro mult_left_mono) (auto simp: field_simps)
  finally show "\<bar>rnd ?q - d / g\<bar> \<le> d / g / 2 ^ 51" by simp
  have "?q * ?u \<le> ?q" using q(2) by (intro mult_left_le) simp_all
  then show "0 \<le> rnd ?q" using 2 by linarith
qed

lemma in_i64_ok: "- (2 ^ 63) \<le> x \<Longrightarrow> x < 2 ^ 63 \<Longrightarrow> in_i64 x = Inr x"
  by (simp add: in_i64_def)

lemma convert_accurate:
  assumes "rnd_law rnd" and "0 < g" and d: "d = real (unat (tsc - base_tsc)) / g" and "d \<le> 2 ^ 51"
    and "0 \<le> base_wall" and "base_wall \<le> 2 ^ 62"
  shows "\<exists>v. convert rnd g base_tsc base_wall tsc = Inr v \<and> \<bar>real_of_int v - (real_of_int base_wall + d)\<bar> < 2"
proof -
  let ?x = "rnd (rnd (real (unat (tsc - base_tsc))) / g)"
  have x: "\<bar>?x - d\<bar> \<le> d / 2 ^ 51" "0 \<le> ?x"
    unfolding d using rounded_quotient [OF assms(1,2) of_nat_0_le_iff] by blast+
  have "0 \<le> d" unfolding d using assms(2) by (intro divide_nonneg_pos of_nat_0_le_iff)
  then have "d / 2 ^ 51 \<le> 1" using assms(4) by simp
  then have x1: "\<bar>?x - d\<bar> \<le> 1" using x(1) by linarith
  then have "?x \<le> real_of_int (2 ^ 51 + 1)" using assms(4) by simp
  then have f: "0 \<le> \<lfloor>?x\<rfloor>" "\<lfloor>?x\<rfloor> \<le> 2 ^ 51 + 1" using x(2) floor_mono [of ?x "real_of_int (2 ^ 51 + 1)"]
    unfolding floor_of_int by simp_all
  have "to_i64 ?x = Inr \<lfloor>?x\<rfloor>" using x(2) f by (simp add: to_i64_def in_i64_def)
  moreover have "in_i64 (base_wall + \<lfloor>?x\<rfloor>) = Inr (base_wall + \<lfloor>?x\<rfloor>)" 
  proof (rule in_i64_ok)
    define n where "n = \<lfloor>?x\<rfloor>"
    then have "0 \<le> n" "n \<le> 2 ^ 51 + 1" using f by simp_all
    then show "- (2 ^ 63) \<le> base_wall + \<lfloor>?x\<rfloor>" "base_wall + \<lfloor>?x\<rfloor> < 2 ^ 63"
      unfolding n_def [symmetric] using assms(5,6) by simp_all
  qed
  ultimately have "convert rnd g base_tsc base_wall tsc = Inr (base_wall + \<lfloor>?x\<rfloor>)" by (simp add: convert_def)
  moreover have "\<bar>real_of_int (base_wall + \<lfloor>?x\<rfloor>) - (real_of_int base_wall + d)\<bar> < 2"
    using x1 by (simp add: abs_less_iff) linarith
  ultimately show ?thesis by blast
qed

section \<open>Calibration\<close>

text \<open>The wait lasts at least 50 ms, and the elapsed time is exact although it is computed with
  unsigned numbers: the difference of the nanoseconds may be negative.\<close>

definition ts_ok :: "int \<times> int \<Rightarrow> bool" where
  "ts_ok t \<longleftrightarrow> 0 \<le> snd t \<and> snd t < 1000000000"

lemma spin_target_ns: "ts_ok t0 \<Longrightarrow> ts_ok (spin_target t0) \<and> ts_ns (spin_target t0) = ts_ns t0 + 50000000"
  by (auto simp: spin_target_def ts_ok_def ts_ns_def Let_def)

lemma ts_before_ns: "ts_ok a \<Longrightarrow> ts_ok b \<Longrightarrow> ts_before a b \<longleftrightarrow> ts_ns a < ts_ns b"
  by (auto simp: ts_before_def ts_ok_def ts_ns_def)

lemma spin_result:
  assumes "\<forall>t\<in>set ts. ts_ok t" and "ts_ok target"
  shows "spin_until target ts = List.find (\<lambda>t. ts_ns target \<le> ts_ns t) ts"
  using assms by (induction ts) (auto simp: ts_before_ns not_less)

lemma elapsed_exact:
  assumes "0 \<le> ts_ns t1 - ts_ns t0" and "ts_ns t1 - ts_ns t0 < 2 ^ 64"
  shows "int (unat (elapsed_ns t0 t1)) = ts_ns t1 - ts_ns t0"
proof -
  have "elapsed_ns t0 t1 = of_int (ts_ns t1 - ts_ns t0)"
    by (simp add: elapsed_ns_def ts_ns_def algebra_simps)
  then have "uint (elapsed_ns t0 t1) = (ts_ns t1 - ts_ns t0) mod 2 ^ 64" by (simp only: uint_word_of_int) simp
  then show ?thesis using assms by (simp add: mod_pos_pos_trivial)
qed

lemma calibrate_result:
  assumes "ts_ok t0" and "\<forall>t\<in>set ts. ts_ok t \<and> ts_ns t - ts_ns t0 < 2 ^ 64"
    and "calibrate_ghz rnd t0 tsc0 ts tsc1 = Some g"
  shows "\<exists>t1\<in>set ts. 50000000 \<le> ts_ns t1 - ts_ns t0 \<and>
    g = rnd (rnd (real (unat (tsc1 - tsc0))) / rnd (real_of_int (ts_ns t1 - ts_ns t0)))"
proof -
  obtain t1 where t1: "spin_until (spin_target t0) ts = Some t1"
    "g = rnd (rnd (real (unat (tsc1 - tsc0))) / rnd (real (unat (elapsed_ns t0 t1))))"
    using assms(3) by (auto simp: calibrate_ghz_def)
  have "List.find (\<lambda>t. ts_ns (spin_target t0) \<le> ts_ns t) ts = Some t1"
    using spin_result [of ts "spin_target t0"] spin_target_ns [OF assms(1)] assms(2) t1(1) by auto
  then have m: "t1 \<in> set ts" "50000000 \<le> ts_ns t1 - ts_ns t0"
    using spin_target_ns [OF assms(1)] by (auto simp: find_Some_iff)
  then have "int (unat (elapsed_ns t0 t1)) = ts_ns t1 - ts_ns t0" using assms(2) by (intro elapsed_exact) auto
  then have "real (unat (elapsed_ns t0 t1)) = real_of_int (ts_ns t1 - ts_ns t0)" by (metis of_int_of_nat_eq)
  with m t1(2) show ?thesis by metis
qed

text \<open>What a reader can see during a recalibration: never the new counter with the old wall time.\<close>

lemma concurrent_reads:
  assumes "i \<le> j" and "j \<le> 2"
  shows "concurrent_read rnd c clk i j tsc \<in> {to_wall_ns rnd tsc clk, to_wall_ns rnd tsc (recalibrate c clk),
    convert rnd (ghz clk) (tsc_base clk) (snd c) tsc}"
proof -
  have "j = 0 \<or> j = 1 \<or> j = 2" "i = 0 \<or> i = 1 \<or> i = 2" using assms by auto
  then show ?thesis using assms(1)
    by (auto simp: concurrent_read_def recal_states_def to_wall_ns_def recalibrate_def store_tsc_def store_wall_def)
qed

section \<open>Properties\<close>

text \<open>C35. The conversion is accurate. For a reading at most \<open>2^51\<close> nanoseconds, some 26 days, after the
  last correlation, \<open>to_wall_ns\<close> differs by less than 2 ns from the exact wall time of the correlation
  plus the ticks since then divided by the frequency, with every rounding of the \<open>double\<close> arithmetic
  counted; neither the cast nor the sum leaves its range.\<close>

theorem to_wall_ns_accurate:
  assumes "rnd_law rnd" and "0 < ghz clk"
    and "real (unat (tsc - tsc_base clk)) / ghz clk \<le> 2 ^ 51"
    and "0 \<le> wall_base_ns clk" and "wall_base_ns clk \<le> 2 ^ 62"
  shows "\<exists>v. to_wall_ns rnd tsc clk = Inr v \<and>
    \<bar>real_of_int v - (real_of_int (wall_base_ns clk) + real (unat (tsc - tsc_base clk)) / ghz clk)\<bar> < 2"
  unfolding to_wall_ns_def by (rule convert_accurate [OF assms(1,2) refl assms(3-5)])

definition sample_clock :: TscClock where
  "sample_clock = \<lparr> ghz = 3, tsc_base = 1000, wall_base_ns = 500 \<rparr>"

lemma exact_rnd: "rnd_law (\<lambda>x. x)"
  by (simp add: rnd_law_def)

theorem to_wall_ns_accurate_witness:
  "\<exists>v. to_wall_ns (\<lambda>x. x) 4000 sample_clock = Inr v \<and> \<bar>real_of_int v - 1500\<bar> < 2"
  using to_wall_ns_accurate [OF exact_rnd, of sample_clock 4000] by (simp add: sample_clock_def)

text \<open>C40. A conversion that runs while \<open>recalibrate\<close> is between its two stores pairs the new wall time
  with the old counter: its result is ahead of the correct one by the whole time between the two
  correlations, up to rounding, and not by a small offset.\<close>

theorem torn_read_off:
  assumes "rnd_law rnd" and "0 < ghz clk" and "tsc_base clk \<le> fst c" and "fst c \<le> tsc"
    and "real (unat (tsc - tsc_base clk)) / ghz clk \<le> 2 ^ 51" and "0 \<le> snd c" and "snd c \<le> 2 ^ 62"
  shows "\<exists>torn right. concurrent_read rnd c clk 0 1 tsc = Inr torn \<and> to_wall_ns rnd tsc (recalibrate c clk) = Inr right \<and>
    \<bar>real_of_int (torn - right) - real (unat (fst c - tsc_base clk)) / ghz clk\<bar> < 4"
proof -
  let ?b = "tsc_base clk" let ?g = "ghz clk"
  have "unat (tsc - ?b) = unat tsc - unat ?b" "unat (tsc - fst c) = unat tsc - unat (fst c)"
    "unat (fst c - ?b) = unat (fst c) - unat ?b"
    using assms(3,4) by (simp_all add: unat_sub_le)
  moreover have "unat ?b \<le> unat (fst c)" "unat (fst c) \<le> unat tsc" using assms(3,4) by (simp_all add: word_le_nat_alt)
  ultimately have split: "unat (tsc - ?b) = unat (tsc - fst c) + unat (fst c - ?b)" by linarith
  then have e: "real (unat (tsc - ?b)) / ?g = real (unat (tsc - fst c)) / ?g + real (unat (fst c - ?b)) / ?g"
    by (simp only: of_nat_add add_divide_distrib)
  moreover have "0 \<le> real (unat (fst c - ?b)) / ?g" using assms(2) by (intro divide_nonneg_pos of_nat_0_le_iff)
  ultimately have le: "real (unat (tsc - fst c)) / ?g \<le> 2 ^ 51" using assms(5) by linarith
  obtain v where v: "convert rnd ?g ?b (snd c) tsc = Inr v"
    "\<bar>real_of_int v - (real_of_int (snd c) + real (unat (tsc - ?b)) / ?g)\<bar> < 2"
    using convert_accurate [OF assms(1,2) refl assms(5-7)] by blast
  obtain v' where v': "convert rnd ?g (fst c) (snd c) tsc = Inr v'"
    "\<bar>real_of_int v' - (real_of_int (snd c) + real (unat (tsc - fst c)) / ?g)\<bar> < 2"
    using convert_accurate [OF assms(1,2) refl le assms(6,7)] by blast
  have "\<bar>real_of_int (v - v') - real (unat (fst c - ?b)) / ?g\<bar> < 4" using v(2) v'(2) e unfolding of_int_diff by linarith
  moreover have "concurrent_read rnd c clk 0 1 tsc = Inr v" "to_wall_ns rnd tsc (recalibrate c clk) = Inr v'"
    using v(1) v'(1)
    by (simp_all add: concurrent_read_def recal_states_def to_wall_ns_def recalibrate_def store_tsc_def store_wall_def)
  ultimately show ?thesis by blast
qed

theorem torn_read_off_witness:
  "\<exists>torn right. concurrent_read (\<lambda>x. x) (15000001000, 5000000500) sample_clock 0 1 15000001000 = Inr torn
    \<and> to_wall_ns (\<lambda>x. x) 15000001000 (recalibrate (15000001000, 5000000500) sample_clock) = Inr right
    \<and> \<bar>real_of_int (torn - right) - 5000000000\<bar> < 4"
  using torn_read_off [OF exact_rnd, of sample_clock "(15000001000, 5000000500)" 15000001000] by (simp add: sample_clock_def)

end
