(* ===== verification/Latency_Report.thy ===== *)
theory Latency_Report
  imports Tsc_Clock "HOL-Library.Multiset"
begin

text \<open>
  The reports of the benchmarks: conversion of time-stamp differences, sorting, percentiles. The four
  programs have three versions of the percentile; an index outside the vector is \<open>Outside\<close>. The products of \<open>double\<close>s
  are rounded as in \<open>Tsc_Clock\<close>.
\<close>

section \<open>Percentiles\<close>

datatype report_error = Outside

definition at_index :: "'a list \<Rightarrow> u64 \<Rightarrow> report_error + 'a" where
  "at_index v i = (if unat i < length v then Inr (v ! unat i) else Inl Outside)"

text \<open>\<open>size_t(pct / 100.0 * double(n))\<close>, and with a constant fraction.\<close>

definition pct_index :: "(real \<Rightarrow> real) \<Rightarrow> real \<Rightarrow> nat \<Rightarrow> nat" where
  "pct_index rnd pct n = nat \<lfloor>rnd (rnd (pct / 100) * rnd (real n))\<rfloor>"

definition frac_index :: "(real \<Rightarrow> real) \<Rightarrow> real \<Rightarrow> nat \<Rightarrow> nat" where
  "frac_index rnd q n = nat \<lfloor>rnd (rnd q * rnd (real n))\<rfloor>"

definition clamp_index :: "nat \<Rightarrow> nat \<Rightarrow> u64" where
  "clamp_index i n = (if n \<le> i then of_nat n - 1 else of_nat i)"

text \<open>\<open>print_pct\<close> of the consumer prints nothing for an empty vector; that of the thread benchmark does not test for one.\<close>

definition print_pct_demo :: "(real \<Rightarrow> real) \<Rightarrow> real list \<Rightarrow> real \<Rightarrow> report_error + real option" where
  "print_pct_demo rnd v pct =
     (if v = [] then Inr None
      else case at_index v (clamp_index (pct_index rnd pct (length v)) (length v)) of
        Inl e \<Rightarrow> Inl e | Inr x \<Rightarrow> Inr (Some x))"

definition print_pct_bench :: "(real \<Rightarrow> real) \<Rightarrow> real list \<Rightarrow> real \<Rightarrow> report_error + real" where
  "print_pct_bench rnd v pct = at_index v (clamp_index (pct_index rnd pct (length v)) (length v))"

text \<open>\<open>pct\<close> of the pool benchmark: \<open>nth_element\<close> brings the element of that rank to its place.\<close>

definition pct_pool :: "(real \<Rightarrow> real) \<Rightarrow> u64 list \<Rightarrow> real \<Rightarrow> report_error + u64" where
  "pct_pool rnd v p = at_index (sort v) (clamp_index (pct_index rnd p (length v)) (length v))"

section \<open>Reports\<close>

definition lat_ns :: "(real \<Rightarrow> real) \<Rightarrow> TscClock \<Rightarrow> u64 list \<Rightarrow> real list" where
  "lat_ns rnd clk lats = map (\<lambda>d. delta_ns rnd d clk) lats"

fun sum_up :: "(real \<Rightarrow> real) \<Rightarrow> real \<Rightarrow> real list \<Rightarrow> real" where
  "sum_up rnd acc [] = acc"
| "sum_up rnd acc (v # vs) = sum_up rnd (rnd (acc + v)) vs"

record report =
  rp_min :: real
  rp_mean :: real
  rp_pct :: "real list"
  rp_max :: real

fun collect :: "(report_error + 'a) list \<Rightarrow> report_error + 'a list" where
  "collect [] = Inr []"
| "collect (x # xs) = (case x of Inl e \<Rightarrow> Inl e | Inr y \<Rightarrow> (case collect xs of Inl e \<Rightarrow> Inl e | Inr ys \<Rightarrow> Inr (y # ys)))"

text \<open>The thread benchmark's report of the latencies, and \<open>print_stats\<close> of the clock benchmark.\<close>

definition make_report :: "(real \<Rightarrow> real) \<Rightarrow> real list \<Rightarrow> (report_error + real) list \<Rightarrow> report_error + report" where
  "make_report rnd v ps =
     (case at_index v 0 of Inl e \<Rightarrow> Inl e | Inr lo \<Rightarrow>
      case collect ps of Inl e \<Rightarrow> Inl e | Inr qs \<Rightarrow>
      case at_index v (of_nat (length v) - 1) of Inl e \<Rightarrow> Inl e | Inr hi \<Rightarrow>
        Inr \<lparr> rp_min = lo, rp_mean = rnd (sum_up rnd 0 v / rnd (real (length v))), rp_pct = qs, rp_max = hi \<rparr>)"

definition bench_report :: "(real \<Rightarrow> real) \<Rightarrow> TscClock \<Rightarrow> u64 list \<Rightarrow> report_error + report" where
  "bench_report rnd clk lats =
     (let v = sort (lat_ns rnd clk lats) in make_report rnd v (map (print_pct_bench rnd v) [50, 90, 99, 999 / 10]))"

text \<open>The consumer demo's report; its percentiles print nothing for an empty vector.\<close>

definition demo_report :: "(real \<Rightarrow> real) \<Rightarrow> TscClock \<Rightarrow> u64 list \<Rightarrow> report_error + report" where
  "demo_report rnd clk lats =
     (let v = sort (lat_ns rnd clk lats) in
      make_report rnd v (concat (map (\<lambda>p. case print_pct_demo rnd v p of Inl e \<Rightarrow> [Inl e] | Inr None \<Rightarrow> [] | Inr (Some x) \<Rightarrow> [Inr x])
        [50, 90, 99, 999 / 10])))"

definition print_stats :: "(real \<Rightarrow> real) \<Rightarrow> real list \<Rightarrow> report_error + report" where
  "print_stats rnd samples =
     (let v = sort samples in
      make_report rnd v (map (\<lambda>q. at_index v (of_nat (frac_index rnd q (length v)))) [1 / 2, 99 / 100, 999 / 1000]))"

text \<open>
  The clock benchmark: five vectors of differences between two readings of the counter, \<open>rd\<close> in the order of the
  readings (what is called between the two readings does not enter), each with its statistics.
\<close>

definition clock_samples :: "(real \<Rightarrow> real) \<Rightarrow> TscClock \<Rightarrow> (nat \<Rightarrow> u64) \<Rightarrow> nat \<Rightarrow> real list" where
  "clock_samples rnd clk rd n = map (\<lambda>i. delta_ns rnd (rd (2 * i + 1) - rd (2 * i)) clk) [0..<n]"

definition bench_clock :: "(real \<Rightarrow> real) \<Rightarrow> TscClock \<Rightarrow> (nat \<Rightarrow> u64) \<Rightarrow> nat \<Rightarrow> (report_error + report) list" where
  "bench_clock rnd clk rd n = map (\<lambda>j. print_stats rnd (clock_samples rnd clk (\<lambda>k. rd (2 * n * j + k)) n)) [0..<5]"

section \<open>Indices\<close>

text \<open>Three roundings move a product of non-negative numbers by less than one part in \<open>2 ^ 51\<close>.\<close>

lemma rounded_product:
  assumes "rnd_law rnd" and "0 \<le> q" and "0 \<le> x"
  shows "\<bar>rnd (rnd q * rnd x) - q * x\<bar> \<le> q * x / 2 ^ 51"
proof -
  let ?u = "1 / 2 ^ 53 :: real"
  have near: "\<bar>rnd y - y\<bar> \<le> y * ?u" if "0 \<le> y" for y
    using assms(1) [unfolded rnd_law_def, rule_format, of y] that by simp
  have bounds: "y * (1 - ?u) \<le> rnd y" "rnd y \<le> y * (1 + ?u)" if "0 \<le> y" for y
    using abs_le_D1 [OF near [OF that]] abs_le_D2 [OF near [OF that]] unfolding right_diff_distrib distrib_left by linarith+
  have low: "0 \<le> rnd y" if "0 \<le> y" for y using bounds(1) [OF that] that mult_nonneg_nonneg [OF that, of "1 - ?u"] by simp
  have hi: "rnd q * rnd x \<le> (q * (1 + ?u)) * (x * (1 + ?u))"
    using assms(2,3) bounds(2) low by (intro mult_mono) auto
  have lo: "(q * (1 - ?u)) * (x * (1 - ?u)) \<le> rnd q * rnd x"
    using assms(2,3) bounds(1) low by (intro mult_mono) auto
  have nn: "0 \<le> rnd q * rnd x" using low assms(2,3) by simp
  have "rnd (rnd q * rnd x) \<le> rnd q * rnd x * (1 + ?u)" by (rule bounds(2) [OF nn])
  also have "\<dots> \<le> (q * (1 + ?u)) * (x * (1 + ?u)) * (1 + ?u)" using hi by (intro mult_right_mono) auto
  also have "\<dots> = q * x * ((1 + ?u) ^ 3)" by (simp add: power3_eq_cube)
  also have "\<dots> \<le> q * x * (1 + 1 / 2 ^ 51)" using assms(2,3) by (intro mult_left_mono) (simp_all add: power3_eq_cube)
  finally have up: "rnd (rnd q * rnd x) \<le> q * x + q * x / 2 ^ 51" by (simp add: algebra_simps)
  have "q * x * (1 - 1 / 2 ^ 51) \<le> q * x * ((1 - ?u) ^ 3)"
    using assms(2,3) by (intro mult_left_mono) (simp_all add: power3_eq_cube)
  also have "\<dots> = (q * (1 - ?u)) * (x * (1 - ?u)) * (1 - ?u)" by (simp add: power3_eq_cube)
  also have "\<dots> \<le> rnd q * rnd x * (1 - ?u)" using lo by (intro mult_right_mono) auto
  also have "\<dots> \<le> rnd (rnd q * rnd x)" by (rule bounds(1) [OF nn])
  finally have "q * x - q * x / 2 ^ 51 \<le> rnd (rnd q * rnd x)" by (simp add: algebra_simps)
  with up show ?thesis by (intro abs_leI) linarith+
qed

lemma pct_index_near:
  assumes "rnd_law rnd" and "0 \<le> pct" and "pct \<le> 100"
  shows "real (pct_index rnd pct n) \<le> pct / 100 * real n + real n / 2 ^ 51"
    and "pct / 100 * real n - real n / 2 ^ 51 - 1 < real (pct_index rnd pct n)"
proof -
  define x where "x = rnd (rnd (pct / 100) * rnd (real n))"
  define y where "y = pct / 100 * real n"
  define u where "u = real n / 2 ^ 51"
  have "y \<le> 1 * real n" unfolding y_def using assms(3) by (intro mult_right_mono) simp_all
  then have "y / 2 ^ 51 \<le> u" unfolding u_def by (intro divide_right_mono) simp_all
  then have "\<bar>x - y\<bar> \<le> u"
    using rounded_product [OF assms(1), of "pct / 100" "real n"] assms(2) unfolding x_def [symmetric] y_def [symmetric] by simp
  then have x: "x \<le> y + u" "y - u \<le> x" by linarith+
  have nn: "0 \<le> y" "0 \<le> u" using assms(2) by (simp_all add: y_def u_def)
  have i: "pct_index rnd pct n = nat \<lfloor>x\<rfloor>" by (simp add: pct_index_def x_def)
  have "real (nat \<lfloor>x\<rfloor>) \<le> x \<or> nat \<lfloor>x\<rfloor> = 0" by (cases "0 \<le> \<lfloor>x\<rfloor>") (simp_all add: of_nat_nat)
  then show "real (pct_index rnd pct n) \<le> pct / 100 * real n + real n / 2 ^ 51"
    unfolding i y_def [symmetric] u_def [symmetric] using x(1) nn by auto
  have "x - 1 < real (nat \<lfloor>x\<rfloor>)" by linarith
  then show "pct / 100 * real n - real n / 2 ^ 51 - 1 < real (pct_index rnd pct n)"
    unfolding i y_def [symmetric] u_def [symmetric] using x(2) by linarith
qed

lemma clamp_less: "0 < n \<Longrightarrow> n < 2 ^ 64 \<Longrightarrow> unat (clamp_index i n) = min i (n - 1)"
proof -
  assume n: "0 < n" "n < 2 ^ 64"
  have "unat (of_nat n - 1 :: u64) = n - 1"
  proof -
    have "(of_nat n - 1 :: u64) = of_nat (n - 1)" using n by (simp add: of_nat_diff)
    then show ?thesis using n unat_of_nat_64 [of "n - 1"] by simp
  qed
  moreover have "unat (of_nat i :: u64) = i" if "i < n" using that n unat_of_nat_64 [of i] by simp
  ultimately show ?thesis using n by (auto simp: clamp_index_def)
qed


lemma at_index_clamp:
  assumes "v \<noteq> []" and "length v < 2 ^ 64"
  shows "at_index v (clamp_index i (length v)) = Inr (v ! min i (length v - 1))"
  using assms clamp_less [of "length v" i] by (simp add: at_index_def min_less_iff_disj)

lemma clamped_near:
  assumes "rnd_law rnd" and "0 \<le> pct" and "pct \<le> 100" and "0 < n"
  shows "\<bar>real (min (pct_index rnd pct n) (n - 1)) - pct / 100 * real n\<bar> \<le> 1 + real n / 2 ^ 51"
proof -
  define y where "y = pct / 100 * real n"
  define u where "u = real n / 2 ^ 51"
  have "y \<le> 1 * real n" unfolding y_def using assms(3) by (intro mult_right_mono) simp_all
  moreover have "real (n - 1) = real n - 1" using assms(4) by (simp add: of_nat_diff)
  moreover have "0 \<le> u" by (simp add: u_def)
  ultimately show ?thesis using pct_index_near [OF assms(1-3), of n]
    unfolding y_def [symmetric] u_def [symmetric] by (auto simp: min_def intro!: abs_leI)
qed

text \<open>An element of a sorted list has its rank.\<close>

lemma sorted_rank:
  fixes v :: "'a :: linorder list"
  assumes "k < length v"
  shows "Suc k \<le> length (filter (\<lambda>y. y \<le> sort v ! k) v)" and "length v - k \<le> length (filter (\<lambda>y. sort v ! k \<le> y) v)"
proof -
  let ?s = "sort v"
  have k: "k < length ?s" using assms by simp
  have same: "length (filter P v) = length (filter P ?s)" for P
    by (metis mset_filter mset_sort size_mset)
  have "\<forall>y\<in>set (take (Suc k) ?s). y \<le> ?s ! k"
    using k by (auto simp: in_set_conv_nth less_Suc_eq_le intro!: sorted_nth_mono)
  then have t: "filter (\<lambda>y. y \<le> ?s ! k) (take (Suc k) ?s) = take (Suc k) ?s" by (simp add: filter_id_conv)
  have "filter (\<lambda>y. y \<le> ?s ! k) ?s = filter (\<lambda>y. y \<le> ?s ! k) (take (Suc k) ?s @ drop (Suc k) ?s)" by simp
  then show "Suc k \<le> length (filter (\<lambda>y. y \<le> ?s ! k) v)"
    unfolding same filter_append t using k by simp
  have "\<forall>y\<in>set (drop k ?s). ?s ! k \<le> y"
    using k by (auto simp: in_set_conv_nth intro!: sorted_nth_mono)
  then have d: "filter (\<lambda>y. ?s ! k \<le> y) (drop k ?s) = drop k ?s" by (simp add: filter_id_conv)
  have "filter (\<lambda>y. ?s ! k \<le> y) ?s = filter (\<lambda>y. ?s ! k \<le> y) (take k ?s @ drop k ?s)" by simp
  then show "length v - k \<le> length (filter (\<lambda>y. ?s ! k \<le> y) v)"
    unfolding same filter_append d by simp
qed

lemma frac_index_less:
  assumes "rnd_law rnd" and "0 \<le> q" and "q \<le> 999 / 1000" and "0 < n"
  shows "frac_index rnd q n < n"
proof -
  define x where "x = rnd (rnd q * rnd (real n))"
  define y where "y = q * real n"
  have y: "y \<le> 999 / 1000 * real n" unfolding y_def using assms(3) by (intro mult_right_mono) simp_all
  have y0: "0 \<le> y" unfolding y_def using assms(2) by (intro mult_nonneg_nonneg) simp_all
  have "\<bar>x - y\<bar> \<le> y / 2 ^ 51" using rounded_product [OF assms(1,2), of "real n"] unfolding x_def y_def by simp
  then have "x \<le> y + y / 2 ^ 51" by linarith
  also have "\<dots> < real n" using y assms(4) by simp
  finally have "\<lfloor>x\<rfloor> < int n" by (simp add: floor_less_iff)
  then show ?thesis using assms(4) by (simp add: frac_index_def flip: x_def)
qed

lemma collect_all: "(\<forall>x\<in>set xs. \<exists>y. x = Inr y) \<Longrightarrow> \<exists>ys. collect xs = Inr ys \<and> length ys = length xs"
  by (induction xs) fastforce+

lemma make_report_total:
  assumes "v \<noteq> []" and "length v < 2 ^ 64" and "\<forall>x\<in>set ps. \<exists>y. x = Inr y"
  shows "\<exists>r. make_report rnd v ps = Inr r \<and> rp_min r = v ! 0 \<and> rp_max r = v ! (length v - 1) \<and> length (rp_pct r) = length ps"
proof -
  obtain qs where qs: "collect ps = Inr qs" "length qs = length ps" using collect_all [OF assms(3)] by blast
  have "at_index v (of_nat (length v) - 1) = Inr (v ! (length v - 1))"
    using at_index_clamp [OF assms(1,2), of "length v"] by (simp add: clamp_index_def)
  moreover have "at_index v 0 = Inr (v ! 0)" using assms(1) by (simp add: at_index_def)
  ultimately show ?thesis using qs by (simp add: make_report_def)
qed

section \<open>Properties\<close>

text \<open>
  The percentile the programs print is one: for a vector that is not empty and a percentage between 0 and 100 the
  index is inside the vector and within one (and a rounding) of the percentage of its length; at least as many
  samples as that index counts are at most the printed value, and at least the rest are not below it. The
  three versions pick the same rank.
\<close>

theorem percentile_rank:
  assumes "rnd_law rnd" and "0 \<le> pct" and "pct \<le> 100"
    and "v \<noteq> []" and "length v < 2 ^ 64" and "length w = length v"
  shows "\<exists>k < length v. \<bar>real k - pct / 100 * real (length v)\<bar> \<le> 1 + real (length v) / 2 ^ 51 \<and>
    pct_pool rnd v pct = Inr (sort v ! k) \<and>
    print_pct_bench rnd (sort w) pct = Inr (sort w ! k) \<and> print_pct_demo rnd (sort w) pct = Inr (Some (sort w ! k)) \<and>
    k < length (filter (\<lambda>y. y \<le> sort v ! k) v) \<and> length v - k \<le> length (filter (\<lambda>y. sort v ! k \<le> y) v) \<and>
    k < length (filter (\<lambda>y. y \<le> sort w ! k) w) \<and> length w - k \<le> length (filter (\<lambda>y. sort w ! k \<le> y) w)"
proof -
  define k where "k = min (pct_index rnd pct (length v)) (length v - 1)"
  have k: "k < length v" "k < length w" using assms(4,6) by (simp_all add: k_def min_less_iff_disj)
  have ne: "sort w \<noteq> []" "sort v \<noteq> []" using assms(4,6) by (metis length_greater_0_conv length_sort)+
  have near: "\<bar>real k - pct / 100 * real (length v)\<bar> \<le> 1 + real (length v) / 2 ^ 51"
    unfolding k_def using clamped_near [OF assms(1-3)] assms(4) by simp
  have pool: "pct_pool rnd v pct = Inr (sort v ! k)"
    using at_index_clamp [OF ne(2), of "pct_index rnd pct (length v)"] assms(5) by (simp add: pct_pool_def k_def)
  have w: "print_pct_bench rnd (sort w) pct = Inr (sort w ! k)"
    using at_index_clamp [OF ne(1), of "pct_index rnd pct (length v)"] assms(5,6) by (simp add: print_pct_bench_def k_def)
  then have d: "print_pct_demo rnd (sort w) pct = Inr (Some (sort w ! k))"
    using ne(1) by (simp add: print_pct_demo_def print_pct_bench_def)
  note ranks = sorted_rank [OF k(1)] sorted_rank [OF k(2)]
  show ?thesis
    by (intro exI [of _ k] conjI k(1) near pool w d ranks(2,4) Suc_le_lessD [OF ranks(1)] Suc_le_lessD [OF ranks(3)])
qed

theorem percentile_rank_witness:
  "\<exists>k < 4. \<bar>real k - 50 / 100 * real 4\<bar> \<le> 1 + real 4 / 2 ^ 51 \<and> pct_pool (\<lambda>x. x) [9, 7, 8, 30] 50 = Inr ([7, 8, 9, 30] ! k)"
proof -
  have "rnd_law (\<lambda>x. x)" by (simp add: rnd_law_def)
  from percentile_rank [OF this, of 50 "[9, 7, 8, 30]" "[1, 2, 3, 4]"] obtain k where
    "k < length [9, 7, 8, 30 :: u64]" "\<bar>real k - 50 / 100 * real (length [9, 7, 8, 30 :: u64])\<bar> \<le> 1 + real (length [9, 7, 8, 30 :: u64]) / 2 ^ 51"
    "pct_pool (\<lambda>x. x) [9, 7, 8, 30] 50 = Inr (sort [9, 7, 8, 30] ! k)" by auto
  moreover have "sort [9, 7, 8, 30 :: u64] = [7, 8, 9, 30]" "length [9, 7, 8, 30 :: u64] = 4" by simp_all
  ultimately show ?thesis by metis
qed

text \<open>
  When the reports are defined: the reports of the thread benchmark, the consumer demo and the clock benchmark exist exactly when there is at
  least one sample, and \<open>print_stats\<close> then gives the least and the greatest as its ends; with no sample (\<open>n\<close> = 0 on the command
  line) all three read outside an empty vector. Only the consumer's percentile has a test for that.
\<close>

theorem reports_defined:
  assumes "rnd_law rnd" and "length samples < 2 ^ 64" and "length lats < 2 ^ 64"
  shows "(print_stats rnd samples = Inl Outside \<longleftrightarrow> samples = []) \<and>
    (bench_report rnd clk lats = Inl Outside \<longleftrightarrow> lats = []) \<and> (demo_report rnd clk lats = Inl Outside \<longleftrightarrow> lats = []) \<and>
    (\<forall>r. print_stats rnd samples = Inr r \<longrightarrow> (\<forall>x\<in>set samples. rp_min r \<le> x \<and> x \<le> rp_max r)) \<and>
    (\<exists>x. print_pct_demo rnd [] pct = Inr x)"
proof -
  have ends: "sort samples ! 0 \<le> x \<and> x \<le> sort samples ! (length samples - 1)" if "x \<in> set samples" for x
  proof -
    from that have "x \<in> set (sort samples)" by simp
    then obtain i where "i < length samples" "x = sort samples ! i" by (metis in_set_conv_nth length_sort)
    then show ?thesis using sorted_nth_mono [OF sorted_sort [of samples]] by (metis Suc_pred' diff_less le0 length_sort less_Suc_eq_le less_nat_zero_code linorder_not_less not_gr0 zero_less_one)
  qed
  have stats: "\<exists>r. print_stats rnd samples = Inr r \<and> rp_min r = sort samples ! 0 \<and> rp_max r = sort samples ! (length samples - 1)"
    if "samples \<noteq> []"
  proof -
    have idx: "\<exists>y. at_index (sort samples) (of_nat (frac_index rnd q (length samples))) = Inr y" if "0 \<le> q" "q \<le> 999 / 1000" for q
    proof -
      have "frac_index rnd q (length samples) < length samples" using frac_index_less [OF assms(1) that] \<open>samples \<noteq> []\<close> by simp
      moreover from this have "unat (of_nat (frac_index rnd q (length samples)) :: u64) = frac_index rnd q (length samples)"
        using assms(2) by (simp add: unat_of_nat_64)
      ultimately show ?thesis by (simp add: at_index_def)
    qed
    have "\<forall>x\<in>set (map (\<lambda>q. at_index (sort samples) (of_nat (frac_index rnd q (length (sort samples))))) [1 / 2, 99 / 100, 999 / 1000]). \<exists>y. x = Inr y"
      unfolding length_sort using idx [of "1 / 2"] idx [of "99 / 100"] idx [of "999 / 1000"] by (simp only: list.map list.set ball_simps)
    moreover have "sort samples \<noteq> []" "length (sort samples) < 2 ^ 64"
      using that assms(2) by (metis length_0_conv length_sort) (use assms(2) in simp)
    ultimately obtain r where "print_stats rnd samples = Inr r" "rp_min r = sort samples ! 0"
      "rp_max r = sort samples ! (length (sort samples) - 1)"
      using make_report_total [of "sort samples" _ rnd] unfolding print_stats_def Let_def by blast
    then show ?thesis by simp
  qed
  have bench: "\<exists>r. bench_report rnd clk lats = Inr r" if "lats \<noteq> []"
  proof -
    let ?v = "sort (lat_ns rnd clk lats)"
    have v: "?v \<noteq> []" "length ?v < 2 ^ 64" using that assms(3)
      by (metis lat_ns_def length_0_conv length_map length_sort) (use assms(3) in \<open>simp add: lat_ns_def\<close>)
    then have "\<forall>x\<in>set (map (print_pct_bench rnd ?v) [50, 90, 99, 999 / 10]). \<exists>y. x = Inr y"
      using at_index_clamp [OF v] by (simp add: print_pct_bench_def)
    from make_report_total [OF v this, where rnd = rnd] show ?thesis by (auto simp: bench_report_def Let_def)
  qed
  have demo: "\<exists>r. demo_report rnd clk lats = Inr r" if "lats \<noteq> []"
  proof -
    let ?v = "sort (lat_ns rnd clk lats)"
    have v: "?v \<noteq> []" "length ?v < 2 ^ 64" using that assms(3)
      by (metis lat_ns_def length_0_conv length_map length_sort) (use assms(3) in \<open>simp add: lat_ns_def\<close>)
    have "\<exists>x. print_pct_demo rnd ?v p = Inr (Some x)" for p using at_index_clamp [OF v] v(1) by (simp add: print_pct_demo_def)
    then have "\<forall>x\<in>set (concat (map (\<lambda>p. case print_pct_demo rnd ?v p of Inl e \<Rightarrow> [Inl e] | Inr None \<Rightarrow> [] | Inr (Some x) \<Rightarrow> [Inr x])
        [50, 90, 99, 999 / 10])). \<exists>y. x = Inr y" by (auto split: sum.splits option.splits) (metis Inr_not_Inl)+
    from make_report_total [OF v this, where rnd = rnd] show ?thesis by (auto simp: demo_report_def Let_def)
  qed
  have "print_stats rnd [] = Inl Outside" "bench_report rnd clk [] = Inl Outside" "demo_report rnd clk [] = Inl Outside"
    by (simp_all add: print_stats_def bench_report_def demo_report_def lat_ns_def make_report_def at_index_def)
  moreover have "rp_min r \<le> x \<and> x \<le> rp_max r" if "print_stats rnd samples = Inr r" "x \<in> set samples" for r x
    using stats ends [OF that(2)] that by (cases "samples = []") auto
  moreover have "print_stats rnd samples = Inl Outside \<Longrightarrow> samples = []" "bench_report rnd clk lats = Inl Outside \<Longrightarrow> lats = []"
    "demo_report rnd clk lats = Inl Outside \<Longrightarrow> lats = []"
    using stats bench demo by (cases "samples = []"; cases "lats = []"; auto)+
  moreover have "\<exists>x. print_pct_demo rnd [] pct = Inr x" by (simp add: print_pct_demo_def)
  ultimately show ?thesis by blast
qed

theorem reports_defined_witness:
  "(\<exists>r. print_stats (\<lambda>x. x) [5, 3] = Inr r \<and> rp_min r \<le> 3 \<and> 5 \<le> rp_max r) \<and>
   bench_report (\<lambda>x. x) (new_TscClock 3 (0, 0)) [] = Inl Outside"
proof -
  have law: "rnd_law (\<lambda>x. x)" by (simp add: rnd_law_def)
  have "print_stats (\<lambda>x. x) [5, 3] \<noteq> Inl Outside"
    using reports_defined [OF law, of "[5, 3]" "[]" undefined undefined] by simp
  then obtain r where r: "print_stats (\<lambda>x. x) [5, 3] = Inr r"
    by (cases "print_stats (\<lambda>x. x) [5, 3]") (metis report_error.exhaust, blast)
  then show ?thesis using reports_defined [OF law, of "[5, 3]" "[]" "new_TscClock 3 (0, 0)" 0] by auto
qed

end
