(* ===== verification/Pool_Bench.thy ===== *)
theory Pool_Bench
  imports Pool_Cache Latency_Report
begin

text \<open>
  The loops of \<open>bench_pool.cpp\<close>: they take a block and give it back, over a pool, over a cache on a pool and over a
  slab. What they rely on is the contract of an allocator, so their behaviour is proved once from the locale.
  For that the slab, seen through requests of one size, is an allocator too.
\<close>

section \<open>The loops\<close>

definition kWarmup :: nat where "kWarmup = 50000"
definition kIter :: nat where "kIter = 1000000"

fun warmup_rounds :: "('s \<Rightarrow> u64 \<times> 's) \<Rightarrow> (u64 \<Rightarrow> 's \<Rightarrow> pool_error + 's) \<Rightarrow> nat \<Rightarrow> 's \<Rightarrow> pool_error + 's" where
  "warmup_rounds al fr 0 s = Inr s"
| "warmup_rounds al fr (Suc n) s =
     (case al s of (p, s1) \<Rightarrow>
        if p \<noteq> 0 then (case fr p s1 of Inl e \<Rightarrow> Inl e | Inr s2 \<Rightarrow> warmup_rounds al fr n s2)
        else warmup_rounds al fr n s1)"

text \<open>The timed loop: \<open>rd k\<close> is the \<open>k\<close>-th reading of the time-stamp counter, three in a round.\<close>

fun timed_rounds :: "('s \<Rightarrow> u64 \<times> 's) \<Rightarrow> (u64 \<Rightarrow> 's \<Rightarrow> pool_error + 's) \<Rightarrow> (nat \<Rightarrow> u64) \<Rightarrow> nat \<Rightarrow> nat \<Rightarrow> 's
    \<Rightarrow> pool_error + (u64 list \<times> u64 list \<times> 's)" where
  "timed_rounds al fr rd k 0 s = Inr ([], [], s)"
| "timed_rounds al fr rd k (Suc n) s =
     (case al s of (p, s1) \<Rightarrow>
      case (if p \<noteq> 0 then fr p s1 else Inr s1) of
        Inl e \<Rightarrow> Inl e
      | Inr s2 \<Rightarrow>
          (case timed_rounds al fr rd (k + 3) n s2 of
             Inl e \<Rightarrow> Inl e
           | Inr (als, frs, s3) \<Rightarrow> Inr ((rd (k + 1) - rd k) # als, (rd (k + 2) - rd (k + 1)) # frs, s3)))"

definition bench_rounds :: "('s \<Rightarrow> u64 \<times> 's) \<Rightarrow> (u64 \<Rightarrow> 's \<Rightarrow> pool_error + 's) \<Rightarrow> (nat \<Rightarrow> u64) \<Rightarrow> nat \<Rightarrow> nat \<Rightarrow> 's
    \<Rightarrow> pool_error + (u64 list \<times> u64 list \<times> 's)" where
  "bench_rounds al fr rd warm iter s =
     (case warmup_rounds al fr warm s of Inl e \<Rightarrow> Inl e | Inr s1 \<Rightarrow> timed_rounds al fr rd 0 iter s1)"

definition print_result :: "(real \<Rightarrow> real) \<Rightarrow> u64 list \<Rightarrow> u64 list \<Rightarrow> (report_error + u64) list" where
  "print_result rnd als frs = map (pct_pool rnd als) [50, 99, 999 / 10] @ map (pct_pool rnd frs) [50, 99, 999 / 10]"

definition default_po :: PoolOptions where
  "default_po = \<lparr> opt_huge_pages = False, opt_lock_memory = False, opt_numa_local = False \<rparr>"

text \<open>Each benchmark: its allocator, the loops, and the lines it prints.\<close>

definition bench_pool :: "pool_env \<Rightarrow> (real \<Rightarrow> real) \<Rightarrow> (nat \<Rightarrow> u64) \<Rightarrow> u64 \<Rightarrow> pool_error + (report_error + u64) list" where
  "bench_pool env rnd rd block_sz =
     (case new_MemoryPool env block_sz 65536 default_po of
        Inl e \<Rightarrow> Inl e
      | Inr mp \<Rightarrow>
          (case bench_rounds pool_alloc (pool_free (NDEBUG env)) rd kWarmup kIter mp of
             Inl e \<Rightarrow> Inl e | Inr (als, frs, mp) \<Rightarrow> Inr (print_result rnd als frs)))"

definition bench_cache :: "pool_env \<Rightarrow> (real \<Rightarrow> real) \<Rightarrow> (nat \<Rightarrow> u64) \<Rightarrow> u64 \<Rightarrow> pool_error + (report_error + u64) list" where
  "bench_cache env rnd rd block_sz =
     (case new_MemoryPool env block_sz 65536 default_po of
        Inl e \<Rightarrow> Inl e
      | Inr mp \<Rightarrow>
          (case bench_rounds tlc_alloc (tlc_free (NDEBUG env)) rd kWarmup kIter (new_ThreadLocalCache 64 32, mp) of
             Inl e \<Rightarrow> Inl e
           | Inr (als, frs, s) \<Rightarrow>
               (case flush_all (NDEBUG env) s of Inl e \<Rightarrow> Inl e | Inr s \<Rightarrow> Inr (print_result rnd als frs))))"

definition bench_slab :: "pool_env \<Rightarrow> (real \<Rightarrow> real) \<Rightarrow> (nat \<Rightarrow> u64) \<Rightarrow> u64 \<Rightarrow> pool_error + (report_error + u64) list" where
  "bench_slab env rnd rd alloc_sz =
     (case new_SlabPool env 65536 default_po of
        Inl e \<Rightarrow> Inl e
      | Inr sl \<Rightarrow>
          (case bench_rounds (slab_alloc alloc_sz) (\<lambda>p. slab_free (NDEBUG env) p alloc_sz) rd kWarmup kIter sl of
             Inl e \<Rightarrow> Inl e | Inr (als, frs, sl) \<Rightarrow> Inr (print_result rnd als frs)))"

text \<open>The baseline, over the C library's allocator; it does not test for null.\<close>

fun malloc_warmup :: "('s \<Rightarrow> u64 \<times> 's) \<Rightarrow> (u64 \<Rightarrow> 's \<Rightarrow> 's) \<Rightarrow> nat \<Rightarrow> 's \<Rightarrow> 's" where
  "malloc_warmup malloc free 0 s = s"
| "malloc_warmup malloc free (Suc n) s = (case malloc s of (p, s1) \<Rightarrow> malloc_warmup malloc free n (free p s1))"

fun malloc_rounds :: "('s \<Rightarrow> u64 \<times> 's) \<Rightarrow> (u64 \<Rightarrow> 's \<Rightarrow> 's) \<Rightarrow> (nat \<Rightarrow> u64) \<Rightarrow> nat \<Rightarrow> nat \<Rightarrow> 's \<Rightarrow> u64 list \<times> u64 list \<times> 's" where
  "malloc_rounds malloc free rd k 0 s = ([], [], s)"
| "malloc_rounds malloc free rd k (Suc n) s =
     (case malloc s of (p, s1) \<Rightarrow>
      case malloc_rounds malloc free rd (k + 3) n (free p s1) of (als, frs, s2) \<Rightarrow>
        ((rd (k + 1) - rd k) # als, (rd (k + 2) - rd (k + 1)) # frs, s2))"

definition bench_malloc :: "(real \<Rightarrow> real) \<Rightarrow> (u64 \<Rightarrow> 's \<Rightarrow> u64 \<times> 's) \<Rightarrow> (u64 \<Rightarrow> 's \<Rightarrow> 's) \<Rightarrow> (nat \<Rightarrow> u64) \<Rightarrow> u64 \<Rightarrow> 's
    \<Rightarrow> (report_error + u64) list \<times> 's" where
  "bench_malloc rnd malloc free rd block_sz s =
     (case malloc_rounds (malloc block_sz) free rd 0 kIter (malloc_warmup (malloc block_sz) free kWarmup s) of
        (als, frs, s) \<Rightarrow> (print_result rnd als frs, s))"

text \<open>
  The whole program: block sizes 64 and 256 for each allocator. \<open>rd\<close> gives each benchmark its own readings; an assertion
  or an exception ends the program, so the benchmarks after it do not run.
\<close>

definition in_order :: "(unit \<Rightarrow> 'e + 'a) list \<Rightarrow> 'e + 'a list" where
  "in_order fs = fold (\<lambda>f r. case r of Inl e \<Rightarrow> Inl e
     | Inr xs \<Rightarrow> (case f () of Inl e \<Rightarrow> Inl e | Inr x \<Rightarrow> Inr (xs @ [x]))) fs (Inr [])"

definition bench_all :: "pool_env \<Rightarrow> (real \<Rightarrow> real) \<Rightarrow> (nat \<Rightarrow> nat \<Rightarrow> u64) \<Rightarrow> (u64 \<Rightarrow> 's \<Rightarrow> u64 \<times> 's) \<Rightarrow> (u64 \<Rightarrow> 's \<Rightarrow> 's) \<Rightarrow> 's
    \<Rightarrow> pool_error + (report_error + u64) list list" where
  "bench_all env rnd rd malloc free t =
     (case in_order
        [\<lambda>_. bench_pool env rnd (rd 0) 64, \<lambda>_. bench_pool env rnd (rd 1) 256,
         \<lambda>_. bench_cache env rnd (rd 2) 64, \<lambda>_. bench_cache env rnd (rd 3) 256,
         \<lambda>_. bench_slab env rnd (rd 4) 64, \<lambda>_. bench_slab env rnd (rd 5) 256] of
        Inl e \<Rightarrow> Inl e
      | Inr rs \<Rightarrow>
          (case bench_malloc rnd malloc free (rd 6) 64 t of (r, t) \<Rightarrow>
           case bench_malloc rnd malloc free (rd 7) 256 t of (r', t) \<Rightarrow> Inr (rs @ [r, r'])))"

section \<open>From the contract of an allocator\<close>

context allocator begin

lemma take_and_return:
  assumes "invar s" and "alloc s = (p, s1)"
  shows "p \<noteq> 0 \<Longrightarrow> \<exists>s2. release p s1 = Inr s2 \<and> invar s2 \<and> free_blocks s2 = free_blocks s \<and> blocks s2 = blocks s"
    and "p = 0 \<Longrightarrow> invar s1 \<and> free_blocks s1 = free_blocks s \<and> blocks s1 = blocks s"
proof -
  have s1: "invar s1" "blocks s1 = blocks s" using alloc_invar [OF assms(1)] alloc_blocks [OF assms(1)] assms(2) by simp_all
  show "\<exists>s2. release p s1 = Inr s2 \<and> invar s2 \<and> free_blocks s2 = free_blocks s \<and> blocks s2 = blocks s" if "p \<noteq> 0"
  proof -
    have f: "add_mset p (free_blocks s1) = free_blocks s" using alloc_free [OF assms(1)] assms(2) that by simp
    then have "p \<in># mset (blocks s1) - free_blocks s1"
      using in_rest_iff [OF free_sub [OF s1(1)]] free_sub [OF assms(1)] s1(2) by simp
    from release_held [OF s1(1) this] f s1(2) show ?thesis by auto
  qed
  show "invar s1 \<and> free_blocks s1 = free_blocks s \<and> blocks s1 = blocks s" if "p = 0"
    using alloc_empty [OF assms(1)] alloc_none [OF assms(1)] assms(2) that s1 by simp
qed

lemma warmup_ok:
  "invar s \<Longrightarrow> \<exists>s'. warmup_rounds alloc release n s = Inr s' \<and> invar s' \<and> free_blocks s' = free_blocks s \<and> blocks s' = blocks s"
proof (induction n arbitrary: s)
  case (Suc n)
  obtain p s1 where a: "alloc s = (p, s1)" by force
  show ?case
  proof (cases "p = 0")
    case True
    then show ?thesis using take_and_return(2) [OF Suc.prems a True] Suc.IH [of s1] a by simp
  next
    case False
    obtain s2 where s2: "release p s1 = Inr s2" "invar s2" "free_blocks s2 = free_blocks s" "blocks s2 = blocks s"
      using take_and_return(1) [OF Suc.prems a False] by blast
    then show ?thesis using Suc.IH [OF s2(2)] a False by simp
  qed
qed simp

lemma timed_ok:
  "invar s \<Longrightarrow> \<exists>als frs s'. timed_rounds alloc release rd k n s = Inr (als, frs, s') \<and> length als = n \<and> length frs = n \<and>
     invar s' \<and> free_blocks s' = free_blocks s \<and> blocks s' = blocks s"
proof (induction n arbitrary: s k)
  case (Suc n)
  obtain p s1 where a: "alloc s = (p, s1)" by force
  have "\<exists>s2. (if p \<noteq> 0 then release p s1 else Inr s1) = Inr s2 \<and> invar s2 \<and> free_blocks s2 = free_blocks s \<and> blocks s2 = blocks s"
    using take_and_return [OF Suc.prems a] by (cases "p = 0") auto
  then obtain s2 where s2: "(if p \<noteq> 0 then release p s1 else Inr s1) = Inr s2" "invar s2"
    "free_blocks s2 = free_blocks s" "blocks s2 = blocks s" by blast
  obtain als frs s' where r: "timed_rounds alloc release rd (k + 3) n s2 = Inr (als, frs, s')" "length als = n" "length frs = n"
    "invar s'" "free_blocks s' = free_blocks s2" "blocks s' = blocks s2" using Suc.IH [OF s2(2)] by blast
  have "timed_rounds alloc release rd k (Suc n) s =
      Inr ((rd (k + 1) - rd k) # als, (rd (k + 2) - rd (k + 1)) # frs, s')"
    using a s2(1) r(1) by simp
  then show ?case using r s2 by simp
qed simp

lemma bench_ok:
  assumes "invar s"
  shows "\<exists>als frs s'. bench_rounds alloc release rd warm iter s = Inr (als, frs, s') \<and> length als = iter \<and> length frs = iter \<and>
     invar s' \<and> free_blocks s' = free_blocks s \<and> blocks s' = blocks s"
proof -
  obtain s1 where s1: "warmup_rounds alloc release warm s = Inr s1" "invar s1" "free_blocks s1 = free_blocks s" "blocks s1 = blocks s"
    using warmup_ok [OF assms] by blast
  from timed_ok [OF s1(2)] s1 show ?thesis by (simp add: bench_rounds_def)
qed

end

section \<open>A slab, seen through one size\<close>

abbreviation cls_pool :: "u64 \<Rightarrow> SlabPool \<Rightarrow> MemoryPool" where
  "cls_pool sz sl \<equiv> sl ! nat (size_to_class sz)"

lemma slab_alloc_class:
  assumes "slab_invar sl" and "sz \<le> 8192"
  shows "slab_alloc sz sl = (fst (pool_alloc (cls_pool sz sl)), sl[nat (size_to_class sz) := snd (pool_alloc (cls_pool sz sl))])"
  using size_to_class_range(1) [OF assms(2)] by (simp add: slab_alloc_def Let_def case_prod_beta)

lemma slab_alloc_invar:
  assumes "slab_invar sl" and "sz \<le> 8192"
  shows "slab_invar (snd (slab_alloc sz sl))"
  using slab_upd [OF assms(1) slab_class(1) [OF assms] pool.alloc_invar [OF slab_class(2) [OF assms]] pool_alloc_block_size]
  by (simp add: slab_alloc_class [OF assms])

lemma slab_release:
  assumes inv: "slab_invar sl" and sz: "sz \<le> 8192" and p: "p \<in># mset (pool_blocks (cls_pool sz sl)) - pool_free_blocks (cls_pool sz sl)"
  shows "\<exists>sl'. slab_free ndebug p sz sl = Inr sl' \<and> pool_free_blocks (cls_pool sz sl') = add_mset p (pool_free_blocks (cls_pool sz sl)) \<and>
    slab_invar sl' \<and> pool_blocks (cls_pool sz sl') = pool_blocks (cls_pool sz sl)"
proof -
  note cl = slab_class [OF inv sz]
  obtain pl where pl: "pool_free ndebug p (cls_pool sz sl) = Inr pl"
    "pool_free_blocks pl = add_mset p (pool_free_blocks (cls_pool sz sl))" "pool_invar pl" "pool_blocks pl = pool_blocks (cls_pool sz sl)"
    using pool.release_held [OF cl(2) p] by blast
  have "slab_free ndebug p sz sl = Inr (sl[nat (size_to_class sz) := pl])"
    using pl(1) size_to_class_range(1) [OF sz] by (simp add: slab_free_def Let_def assert_that_def)
  then show ?thesis using pl cl(1) slab_upd [OF inv cl(1) pl(3) pool_free_block_size [OF pl(1)]] by simp
qed

interpretation slab: allocator "slab_alloc sz" "\<lambda>p. slab_free ndebug p sz" "\<lambda>sl. pool_blocks (cls_pool sz sl)"
    "\<lambda>sl. pool_free_blocks (cls_pool sz sl)" "\<lambda>sl. slab_invar sl \<and> sz \<le> 8192"
proof unfold_locales
  fix sl :: SlabPool assume "slab_invar sl \<and> sz \<le> 8192"
  then have inv: "slab_invar sl" "sz \<le> 8192" by simp_all
  note cl = slab_class [OF inv] and al = slab_alloc_class [OF inv]
  show "distinct (pool_blocks (cls_pool sz sl))" by (rule pool.blocks_distinct [OF cl(2)])
  show "0 \<notin> set (pool_blocks (cls_pool sz sl))" by (rule pool.blocks_nonnull [OF cl(2)])
  show "pool_free_blocks (cls_pool sz sl) \<subseteq># mset (pool_blocks (cls_pool sz sl))" by (rule pool.free_sub [OF cl(2)])
  show "fst (slab_alloc sz sl) = 0 \<longleftrightarrow> pool_free_blocks (cls_pool sz sl) = {#}" using pool.alloc_empty [OF cl(2)] by (simp add: al)
  show "fst (slab_alloc sz sl) \<noteq> 0 \<Longrightarrow>
      add_mset (fst (slab_alloc sz sl)) (pool_free_blocks (cls_pool sz (snd (slab_alloc sz sl)))) = pool_free_blocks (cls_pool sz sl)"
    using pool.alloc_free [OF cl(2)] cl(1) by (simp add: al)
  show "fst (slab_alloc sz sl) = 0 \<Longrightarrow> pool_free_blocks (cls_pool sz (snd (slab_alloc sz sl))) = {#}"
    using pool.alloc_none [OF cl(2)] cl(1) by (simp add: al)
  show "slab_invar (snd (slab_alloc sz sl)) \<and> sz \<le> 8192" using slab_alloc_invar [OF inv] inv(2) by simp
  show "pool_blocks (cls_pool sz (snd (slab_alloc sz sl))) = pool_blocks (cls_pool sz sl)"
    using pool.alloc_blocks [OF cl(2)] cl(1) by (simp add: al)
  show "\<exists>s'. slab_free ndebug p sz sl = Inr s' \<and> pool_free_blocks (cls_pool sz s') = add_mset p (pool_free_blocks (cls_pool sz sl)) \<and>
      (slab_invar s' \<and> sz \<le> 8192) \<and> pool_blocks (cls_pool sz s') = pool_blocks (cls_pool sz sl)"
    if "p \<in># mset (pool_blocks (cls_pool sz sl)) - pool_free_blocks (cls_pool sz sl)" for p
    using slab_release [OF inv that] inv(2) by simp
qed


section \<open>Properties\<close>

text \<open>The system grants mappings of up to a gigabyte, which is more than any of the benchmarks asks for.\<close>

definition gigabyte_granted :: "pool_env \<Rightarrow> bool" where
  "gigabyte_granted env \<longleftrightarrow> (\<forall>sz. unat sz < 2 ^ 30 \<longrightarrow> grants env default_po sz)"

lemma bench_size:
  assumes "unat b \<le> 8192"
  shows "unat (bytes_for b) * unat (blocks_for 65536) < 2 ^ 30" and "unat (bytes_for b * blocks_for 65536) < 2 ^ 30"
proof -
  have "unat (bytes_for b) < max (unat b) 64 + 64" using assms by (intro bytes_for_correct(2)) simp
  then have "unat (bytes_for b) \<le> 8256" using assms by simp
  moreover have "unat (blocks_for 65536) = 65536"
    by (simp add: blocks_for_def next_pow2_def Let_def max_def word_le_nat_alt)
  ultimately show lt: "unat (bytes_for b) * unat (blocks_for 65536) < 2 ^ 30" by simp
  then show "unat (bytes_for b * blocks_for 65536) < 2 ^ 30" by (simp add: unat_word_ariths)
qed

lemma bench_new_pool:
  assumes "pool_env_ok env" and "gigabyte_granted env" and "unat b \<le> 8192"
  obtains mp where "new_MemoryPool env b 65536 default_po = Inr mp" and "pool_invar mp"
proof -
  have "unat b + 64 \<le> 2 ^ 64" "unat (65536 :: u64) \<le> 2 ^ 63" using assms(3) by simp_all
  moreover have "unat (bytes_for b) * unat (blocks_for 65536) < 2 ^ 64" using bench_size(1) [OF assms(3)] by simp
  moreover have "grants env default_po (bytes_for b * blocks_for 65536)"
    using assms(2) bench_size(2) [OF assms(3)] by (simp add: gigabyte_granted_def)
  ultimately show ?thesis using new_pool [OF assms(1), of 65536 b default_po] that by metis
qed

lemma bench_new_pools:
  assumes "pool_env_ok env" and "gigabyte_granted env"
  shows "\<forall>b\<in>set bs. unat b \<le> 8192 \<Longrightarrow> \<exists>sl. new_pools env bs 65536 default_po = Inr sl"
proof (induction bs)
  case (Cons b bs)
  obtain mp where "new_MemoryPool env b 65536 default_po = Inr mp" using bench_new_pool [OF assms, of b] Cons.prems by auto
  with Cons show ?case by auto
qed simp

lemma bench_new_slab:
  assumes "pool_env_ok env" and "gigabyte_granted env"
  obtains sl where "new_SlabPool env 65536 default_po = Inr sl" and "slab_invar sl"
proof -
  have "\<forall>b\<in>set kSizeClassBytes. unat b \<le> 8192" by (simp add: kSizeClassBytes_def)
  then obtain sl where "new_SlabPool env 65536 default_po = Inr sl"
    using bench_new_pools [OF assms] by (auto simp: new_SlabPool_def)
  moreover from this have "slab_invar sl" by (rule new_slab_invar [OF _ assms(1)]) simp
  ultimately show ?thesis by (rule that)
qed

lemma print_result_defined:
  assumes "rnd_law rnd" and "length als = kIter" and "length frs = kIter"
  shows "length (print_result rnd als frs) = 6 \<and> (\<forall>x\<in>set (print_result rnd als frs). \<exists>c. x = Inr c)"
proof -
  have "\<exists>c. pct_pool rnd v p = Inr c" if "length v = kIter" for v p
  proof -
    have "length (sort v) = kIter" "kIter < 2 ^ 64" "sort v \<noteq> []" using that by (auto simp: kIter_def dest: arg_cong [where f = length])
    then show ?thesis using at_index_clamp [of "sort v"] that by (simp add: pct_pool_def)
  qed
  then show ?thesis using assms by (simp add: print_result_def)
qed

lemma malloc_rounds_length:
  "malloc_rounds malloc free rd k n s = (als, frs, s') \<Longrightarrow> length als = n \<and> length frs = n"
  by (induction n arbitrary: k s als frs) (fastforce split: prod.splits)+

text \<open>
  The benchmarks of the pool run to their end: with blocks of at most 8192 bytes, over a pool, over a cache (whose
  destructor then empties it) and over a slab, all rounds go through without an assertion and all six percentiles exist.
\<close>

theorem benches_complete:
  assumes "pool_env_ok env" and "gigabyte_granted env" and "rnd_law rnd" and "unat sz \<le> 8192"
  shows "\<exists>xs ys zs. bench_pool env rnd rd sz = Inr xs \<and> bench_cache env rnd rd sz = Inr ys \<and> bench_slab env rnd rd sz = Inr zs \<and>
    length xs = 6 \<and> length ys = 6 \<and> length zs = 6 \<and>
    (\<forall>x\<in>set (xs @ ys @ zs @ fst (bench_malloc rnd malloc free rd sz t)). \<exists>c. x = Inr c)"
proof -
  note d = print_result_defined [OF assms(3)]
  have m: "length (fst (bench_malloc rnd malloc free rd sz t)) = 6 \<and> (\<forall>x\<in>set (fst (bench_malloc rnd malloc free rd sz t)). \<exists>c. x = Inr c)"
  proof -
    obtain als frs t' where "malloc_rounds (malloc sz) free rd 0 kIter (malloc_warmup (malloc sz) free kWarmup t) = (als, frs, t')"
      by (metis surj_pair)
    with d [OF conjunct1 [OF malloc_rounds_length [OF this]] conjunct2 [OF malloc_rounds_length [OF this]]]
    show ?thesis by (simp add: bench_malloc_def)
  qed
  obtain mp where mp: "new_MemoryPool env sz 65536 default_po = Inr mp" "pool_invar mp"
    using bench_new_pool [OF assms(1,2,4)] .
  obtain sl where sl: "new_SlabPool env 65536 default_po = Inr sl" "slab_invar sl" using bench_new_slab [OF assms(1,2)] .
  obtain als frs m where p: "bench_rounds pool_alloc (pool_free (NDEBUG env)) rd kWarmup kIter mp = Inr (als, frs, m)"
    "length als = kIter" "length frs = kIter" using pool.bench_ok [OF mp(2)] by metis
  have "tlc_invar (new_ThreadLocalCache 64 32, mp)" using new_cache(1) [OF mp(2), of 64 32] by simp
  from tlc.bench_ok [OF this] obtain als' frs' c pl where
    c: "bench_rounds tlc_alloc (tlc_free (NDEBUG env)) rd kWarmup kIter (new_ThreadLocalCache 64 32, mp) = Inr (als', frs', c, pl)"
    "length als' = kIter" "length frs' = kIter" "tlc_invar (c, pl)" by (metis surj_pair)
  obtain s' where f: "flush_all (NDEBUG env) (c, pl) = Inr s'"
    using tlc_release_step [OF c(4) order_refl, of "NDEBUG env"] by (auto simp: flush_all_def)
  have "sz \<le> 8192" using assms(4) by (simp add: word_le_nat_alt)
  with sl(2) obtain als'' frs'' l where
    s: "bench_rounds (slab_alloc sz) (\<lambda>p. slab_free (NDEBUG env) p sz) rd kWarmup kIter sl = Inr (als'', frs'', l)"
    "length als'' = kIter" "length frs'' = kIter" using slab.bench_ok [of sl sz] by metis
  show ?thesis
    using m d [OF p(2,3)] d [OF c(2,3)] d [OF s(2,3)] mp(1) sl(1) p(1) c(1) f s(1)
    by (intro exI [of _ "print_result rnd als frs"] exI [of _ "print_result rnd als' frs'"] exI [of _ "print_result rnd als'' frs''"])
      (auto simp: bench_pool_def bench_cache_def bench_slab_def)
qed

theorem benches_complete_witness:
  "\<exists>xs. bench_pool (sample_pool_env\<lparr>pool_mmap := \<lambda>sz huge. if sz < 2 ^ 40 then Some 0x7f0000000000 else None\<rparr>)
     (\<lambda>x. x) (\<lambda>k. of_nat (k * k)) 64 = Inr xs \<and> length xs = 6"
proof -
  define rd :: "nat \<Rightarrow> u64" where "rd = (\<lambda>k. of_nat (k * k))"
  let ?env = "sample_pool_env\<lparr>pool_mmap := \<lambda>sz huge. if sz < 2 ^ 40 then Some 0x7f0000000000 else None\<rparr>"
  have "pool_env_ok ?env" by (auto simp: pool_env_ok_def sample_pool_env_def word_less_nat_alt split: if_splits)
  moreover have "gigabyte_granted ?env"
    by (auto simp: gigabyte_granted_def grants_def default_po_def sample_pool_env_def word_less_nat_alt)
  moreover have "rnd_law (\<lambda>x. x)" by (simp add: rnd_law_def)
  ultimately obtain xs where "bench_pool ?env (\<lambda>x. x) rd 64 = Inr xs" "length xs = 6"
    using benches_complete [of ?env "\<lambda>x. x" 64 rd "\<lambda>sz s. (0, s)" "\<lambda>p s. s" "()"] by auto
  then show ?thesis unfolding rd_def by blast
qed

text \<open>So the program prints all its eight lines.\<close>

lemma bench_all_complete:
  assumes "pool_env_ok env" and "gigabyte_granted env" and "rnd_law rnd"
  shows "\<exists>rs. bench_all env rnd rd malloc free t = Inr rs \<and> length rs = 8 \<and> (\<forall>r\<in>set rs. \<forall>x\<in>set r. \<exists>c. x = Inr c)"
proof -
  have all: "\<exists>xs ys zs. bench_pool env rnd r sz = Inr xs \<and> bench_cache env rnd r sz = Inr ys \<and> bench_slab env rnd r sz = Inr zs \<and>
      (\<forall>x\<in>set xs \<union> set ys \<union> set zs. \<exists>c. x = Inr c)" if "unat sz \<le> 8192" for r sz
    using benches_complete [OF assms that, of r] by (metis Un_iff set_append)
  have m: "\<forall>x\<in>set (fst (bench_malloc rnd malloc free r sz t)). \<exists>c. x = Inr c" if "unat sz \<le> 8192" for r sz t
    using benches_complete [OF assms that, of r malloc free t] by auto
  obtain a where a: "bench_pool env rnd (rd 0) 64 = Inr a" "\<forall>x\<in>set a. \<exists>c. x = Inr c" using all [of 64 "rd 0"] by fastforce
  obtain b where b: "bench_pool env rnd (rd 1) 256 = Inr b" "\<forall>x\<in>set b. \<exists>c. x = Inr c" using all [of 256 "rd 1"] by fastforce
  obtain c where c: "bench_cache env rnd (rd 2) 64 = Inr c" "\<forall>x\<in>set c. \<exists>c. x = Inr c" using all [of 64 "rd 2"] by fastforce
  obtain d where d: "bench_cache env rnd (rd 3) 256 = Inr d" "\<forall>x\<in>set d. \<exists>c. x = Inr c" using all [of 256 "rd 3"] by fastforce
  obtain e where e: "bench_slab env rnd (rd 4) 64 = Inr e" "\<forall>x\<in>set e. \<exists>c. x = Inr c" using all [of 64 "rd 4"] by fastforce
  obtain f where f: "bench_slab env rnd (rd 5) 256 = Inr f" "\<forall>x\<in>set f. \<exists>c. x = Inr c" using all [of 256 "rd 5"] by fastforce
  obtain r t1 where r: "bench_malloc rnd malloc free (rd 6) 64 t = (r, t1)" by force
  obtain r' t2 where r': "bench_malloc rnd malloc free (rd 7) 256 t1 = (r', t2)" by force
  have "\<forall>x\<in>set r. \<exists>c. x = Inr c" "\<forall>x\<in>set r'. \<exists>c. x = Inr c"
    using m [of 64 "rd 6" t] m [of 256 "rd 7" t1] r r' by simp_all
  moreover have "bench_all env rnd rd malloc free t = Inr [a, b, c, d, e, f, r, r']"
    by (simp add: bench_all_def in_order_def a(1) b(1) [unfolded One_nat_def] c(1) d(1) e(1) f(1) r r')
  ultimately show ?thesis using a(2) b(2) c(2) d(2) e(2) f(2) by simp
qed

end
