(* ===== verification/Bus_Demo.thy ===== *)
theory Bus_Demo
  imports Spsc_Recovery Spsc_Notify Latency_Report
begin

text \<open>
  The two demo programs and the thread benchmark: a producer that stamps each message with the time-stamp counter and
  pushes it, and a consumer that pops and takes the difference. Their loops run beside each other over the steps of
  the bus; what the consumer records is shown to be, message by message, the time between the
  producer's stamp and its own reading.
\<close>

section \<open>Messages\<close>

definition le64_bytes :: "u64 \<Rightarrow> bytes" where
  "le64_bytes w = le32_bytes (ucast w) @ le32_bytes (ucast (drop_bit 32 w))"

definition le64_of :: "bytes \<Rightarrow> u64" where
  "le64_of bs = ucast (le32_of (take 4 bs)) OR push_bit 32 (ucast (le32_of (take 4 (drop 4 bs))))"

lemma le64_roundtrip: "le64_of (le64_bytes w @ rest) = w"
proof -
  have "le64_of (le64_bytes w @ rest) = ucast (ucast w :: u32) OR push_bit 32 (ucast (ucast (drop_bit 32 w) :: u32))"
    by (simp add: le64_of_def le64_bytes_def)
  also have "\<dots> = w"
  proof (rule bit_eqI)
    fix n assume "possible_bit TYPE(u64) n"
    then consider "n < 32" | "32 \<le> n" "n < 64" by fastforce
    then show "bit (ucast (ucast w :: u32) OR push_bit 32 (ucast (ucast (drop_bit 32 w) :: u32)) :: u64) n = bit w n"
      by cases (simp_all add: bit_simps less_diff_conv2)
  qed
  finally show ?thesis .
qed

text \<open>The size on the command line, cut to 32 bits and raised to the size of the stamp.\<close>

definition demo_msg_size :: "u64 \<Rightarrow> u32" where
  "demo_msg_size arg = (let m = ucast arg :: u32 in if m < 8 then 8 else m)"

text \<open>What \<open>pthread_setaffinity_np\<close> answers for a core decides \<open>pin_to_core\<close>; a negative number means no pinning.\<close>

definition pin_to_core :: "(int \<Rightarrow> int) \<Rightarrow> int \<Rightarrow> bool" where
  "pin_to_core setaffinity core = (if core < 0 then True else setaffinity core = 0)"

text \<open>The stamp is written over the front of a buffer filled with one byte (\<open>0xAB\<close> in the demo, 0 in the benchmark).\<close>

definition stamp_msg :: "u8 \<Rightarrow> u32 \<Rightarrow> u64 \<Rightarrow> bytes" where
  "stamp_msg fill sz t = le64_bytes t @ replicate (unat sz - 8) fill"

definition latency :: "u64 \<Rightarrow> bytes \<Rightarrow> u64" where
  "latency t buf = t - le64_of buf"

lemma demo_msg_size_ge: "8 \<le> unat (demo_msg_size arg)"
  by (auto simp: demo_msg_size_def Let_def word_less_nat_alt)

lemma stamp_msg_length: "8 \<le> unat sz \<Longrightarrow> length (stamp_msg fill sz t) = unat sz"
  by (simp add: stamp_msg_def le64_bytes_def)

lemma latency_stamp: "8 \<le> k \<Longrightarrow> latency r (take k (stamp_msg fill sz t)) = r - t"
proof -
  assume k: "8 \<le> k"
  have "length (le64_bytes t) = 8" by (simp add: le64_bytes_def)
  then have "take k (stamp_msg fill sz t) = le64_bytes t @ take (k - 8) (replicate (unat sz - 8) fill)"
    using k by (simp add: stamp_msg_def)
  then show ?thesis by (simp add: latency_def le64_roundtrip)
qed

section \<open>The two loops\<close>

text \<open>
  \<open>stamps\<close> are the values \<open>send_tsc\<close> took, one for each round of the producer; \<open>recvs\<close> the consumer's readings of the counter and
  \<open>lats\<close> its vector of latencies. A round of the producer is a stamp and then the steps of pushes of
  the stamped message (a blocking push begins again while the ring is full).
\<close>

record demo =
  dbus :: sys
  stamps :: "u64 list"
  recvs :: "u64 list"
  lats :: "u64 list"

definition msg_of :: "prod_pc \<Rightarrow> bytes option" where
  "msg_of pc = (case pc of PIdle \<Rightarrow> None | PLoad m \<Rightarrow> Some m | PSize m \<Rightarrow> Some m | PCopy m i \<Rightarrow> Some m)"

inductive demo_loop :: "u8 \<Rightarrow> u32 \<Rightarrow> nat \<Rightarrow> demo \<Rightarrow> demo \<Rightarrow> bool" for fill sz n where
  d_stamp: "\<lbrakk> ppc (dbus \<sigma>) = PIdle; length (stamps \<sigma>) = length (sent (dbus \<sigma>)); length (stamps \<sigma>) < n \<rbrakk>
    \<Longrightarrow> demo_loop fill sz n \<sigma> (\<sigma>\<lparr>stamps := stamps \<sigma> @ [t]\<rparr>)"
| d_push: "\<lbrakk> length (sent (dbus \<sigma>)) < length (stamps \<sigma>); bus_step (dbus \<sigma>) b; cpc b = cpc (dbus \<sigma>);
      ppc (dbus \<sigma>) = PIdle \<Longrightarrow> msg_of (ppc b) = Some (stamp_msg fill sz (last (stamps \<sigma>))) \<rbrakk>
    \<Longrightarrow> demo_loop fill sz n \<sigma> (\<sigma>\<lparr>dbus := b\<rparr>)"
| d_pop: "\<lbrakk> length (rcvd (dbus \<sigma>)) = length (lats \<sigma>); length (lats \<sigma>) < n; bus_step (dbus \<sigma>) b; cpc b \<noteq> cpc (dbus \<sigma>) \<rbrakk>
    \<Longrightarrow> demo_loop fill sz n \<sigma> (\<sigma>\<lparr>dbus := b\<rparr>)"
| d_lat: "length (rcvd (dbus \<sigma>)) = Suc (length (lats \<sigma>))
    \<Longrightarrow> demo_loop fill sz n \<sigma> (\<sigma>\<lparr>recvs := recvs \<sigma> @ [t], lats := lats \<sigma> @ [latency t (snd (last (rcvd (dbus \<sigma>))))]\<rparr>)"

text \<open>Besides the loops, the consumer may construct its object late, when messages are in the ring already.\<close>

inductive demo_step :: "u8 \<Rightarrow> u32 \<Rightarrow> nat \<Rightarrow> demo \<Rightarrow> demo \<Rightarrow> bool" for fill sz n where
  d_loop: "demo_loop fill sz n \<sigma> \<tau> \<Longrightarrow> demo_step fill sz n \<sigma> \<tau>"
| d_attach: "\<lbrakk> cpc (dbus \<sigma>) = CIdle; new_Consumer pid (seg (dbus \<sigma>)) = (c, s) \<rbrakk>
    \<Longrightarrow> demo_step fill sz n \<sigma> (\<sigma>\<lparr>dbus := (dbus \<sigma>)\<lparr>seg := s, cons := c, cpc := CIdle\<rparr>\<rparr>)"

lemma loops_step: "(demo_loop fill sz n)\<^sup>*\<^sup>* \<sigma> \<tau> \<Longrightarrow> (demo_step fill sz n)\<^sup>*\<^sup>* \<sigma> \<tau>"
  by (induction rule: rtranclp_induct) (auto intro: d_loop rtranclp.rtrancl_into_rtrancl)

definition demo_start :: "segment \<Rightarrow> u32 \<Rightarrow> u32 \<Rightarrow> u32 \<Rightarrow> demo" where
  "demo_start s pid_p pid_c buf = \<lparr> dbus = start s pid_p pid_c buf, stamps = [], recvs = [], lats = [] \<rparr>"

section \<open>What the consumer records\<close>

definition pushes_inv :: "u8 \<Rightarrow> u32 \<Rightarrow> nat \<Rightarrow> demo \<Rightarrow> bool" where
  "pushes_inv fill sz n \<sigma> \<longleftrightarrow> (length (stamps \<sigma>) = length (sent (dbus \<sigma>)) \<or> length (stamps \<sigma>) = Suc (length (sent (dbus \<sigma>)))) \<and>
     length (stamps \<sigma>) \<le> n \<and> map (stamp_msg fill sz) (take (length (sent (dbus \<sigma>))) (stamps \<sigma>)) = sent (dbus \<sigma>) \<and>
     (\<forall>m. msg_of (ppc (dbus \<sigma>)) = Some m \<longrightarrow>
        length (sent (dbus \<sigma>)) < length (stamps \<sigma>) \<and> m = stamp_msg fill sz (last (stamps \<sigma>)))"

definition pops_inv :: "demo \<Rightarrow> bool" where
  "pops_inv \<sigma> \<longleftrightarrow> length (recvs \<sigma>) = length (lats \<sigma>) \<and>
     (length (rcvd (dbus \<sigma>)) = length (lats \<sigma>) \<or> length (rcvd (dbus \<sigma>)) = Suc (length (lats \<sigma>))) \<and>
     map2 (-) (recvs \<sigma>) (take (length (lats \<sigma>)) (stamps \<sigma>)) = lats \<sigma>"

definition demo_inv :: "u8 \<Rightarrow> u32 \<Rightarrow> nat \<Rightarrow> demo \<Rightarrow> bool" where
  "demo_inv fill sz n \<sigma> \<longleftrightarrow> conc_inv (dbus \<sigma>) \<and> 8 \<le> unat (buf_sz (dbus \<sigma>)) \<and> pushes_inv fill sz n \<sigma> \<and> pops_inv \<sigma>"

lemma push_progress:
  assumes "bus_step b b'" and "cpc b' = cpc b"
  shows "(sent b' = sent b \<and> (ppc b \<noteq> PIdle \<longrightarrow> msg_of (ppc b') = None \<or> msg_of (ppc b') = msg_of (ppc b))) \<or>
    (\<exists>m. msg_of (ppc b) = Some m \<and> sent b' = sent b @ [m] \<and> ppc b' = PIdle)"
  using assms by (cases rule: bus_step.cases) (auto simp: msg_of_def split: if_splits)

lemma pop_keeps_producer:
  assumes "bus_step b b'" and "cpc b' \<noteq> cpc b"
  shows "ppc b' = ppc b \<and> (rcvd b' = rcvd b \<or> (\<exists>x. rcvd b' = rcvd b @ [x]))"
  using assms by (cases rule: bus_step.cases) auto

lemma take_more: "length xs \<le> length ys \<Longrightarrow> take (length xs) (ys @ zs) = take (length xs) ys"
  by simp

lemma rcvd_behind: "demo_inv fill sz n \<sigma> \<Longrightarrow> length (lats \<sigma>) \<le> length (stamps \<sigma>)"
  using conc_inv_result(2) [of "dbus \<sigma>"] by (auto simp: demo_inv_def pushes_inv_def pops_inv_def)

lemma msg_of_idle [simp]: "msg_of pc = None \<longleftrightarrow> pc = PIdle" "msg_of PIdle = None"
  by (auto simp: msg_of_def split: prod_pc.splits)

lemma d_push_inv:
  assumes inv: "demo_inv fill sz n \<sigma>" and more: "length (sent (dbus \<sigma>)) < length (stamps \<sigma>)" and step: "bus_step (dbus \<sigma>) b" "cpc b = cpc (dbus \<sigma>)"
    and first: "ppc (dbus \<sigma>) = PIdle \<Longrightarrow> msg_of (ppc b) = Some (stamp_msg fill sz (last (stamps \<sigma>)))"
  shows "demo_inv fill sz n (\<sigma>\<lparr>dbus := b\<rparr>)"
proof -
  have c: "conc_inv b" "buf_sz b = buf_sz (dbus \<sigma>)" "rcvd b = rcvd (dbus \<sigma>)"
    using bus_step_inv [OF step(1)] step_frame [OF step(1)] push_frame [OF step] inv by (simp_all add: demo_inv_def)
  have len: "length (stamps \<sigma>) = Suc (length (sent (dbus \<sigma>)))" using inv more by (auto simp: demo_inv_def pushes_inv_def)
  then have st: "stamps \<sigma> = take (length (sent (dbus \<sigma>))) (stamps \<sigma>) @ [last (stamps \<sigma>)]"
    by (metis append_butlast_last_id butlast_conv_take diff_Suc_1 length_0_conv nat.distinct(1))
  have p: "map (stamp_msg fill sz) (take (length (sent (dbus \<sigma>))) (stamps \<sigma>)) = sent (dbus \<sigma>)"
    "\<And>m. msg_of (ppc (dbus \<sigma>)) = Some m \<Longrightarrow> m = stamp_msg fill sz (last (stamps \<sigma>))" "length (stamps \<sigma>) \<le> n"
    using inv by (auto simp: demo_inv_def pushes_inv_def)
  from push_progress [OF step] have "pushes_inv fill sz n (\<sigma>\<lparr>dbus := b\<rparr>)"
  proof (elim disjE conjE exE)
    assume s: "sent b = sent (dbus \<sigma>)" and m: "ppc (dbus \<sigma>) \<noteq> PIdle \<longrightarrow> msg_of (ppc b) = None \<or> msg_of (ppc b) = msg_of (ppc (dbus \<sigma>))"
    have "m = stamp_msg fill sz (last (stamps \<sigma>))" if "msg_of (ppc b) = Some m" for m
      using that m first p(2) by (cases "ppc (dbus \<sigma>) = PIdle") auto
    then show ?thesis using s p(1,3) len by (simp add: pushes_inv_def)
  next
    fix m assume m: "msg_of (ppc (dbus \<sigma>)) = Some m" "sent b = sent (dbus \<sigma>) @ [m]" "ppc b = PIdle"
    have "sent b = map (stamp_msg fill sz) (stamps \<sigma>)" by (subst st, subst m(2)) (simp add: p(1) p(2) [OF m(1)])
    then show ?thesis using m len p(3) by (simp add: pushes_inv_def)
  qed
  then show ?thesis using inv c by (simp add: demo_inv_def pops_inv_def)
qed

lemma d_pop_inv:
  assumes inv: "demo_inv fill sz n \<sigma>" and "length (rcvd (dbus \<sigma>)) = length (lats \<sigma>)" and step: "bus_step (dbus \<sigma>) b" "cpc b \<noteq> cpc (dbus \<sigma>)"
  shows "demo_inv fill sz n (\<sigma>\<lparr>dbus := b\<rparr>)"
proof -
  have "conc_inv b" "buf_sz b = buf_sz (dbus \<sigma>)" "sent b = sent (dbus \<sigma>)" "ppc b = ppc (dbus \<sigma>)"
    "rcvd b = rcvd (dbus \<sigma>) \<or> (\<exists>x. rcvd b = rcvd (dbus \<sigma>) @ [x])"
    using bus_step_inv [OF step(1)] step_frame [OF step(1)] pop_frame [OF step] pop_keeps_producer [OF step] inv
    by (simp_all add: demo_inv_def)
  then show ?thesis using inv assms(2) by (auto simp: demo_inv_def pushes_inv_def pops_inv_def)
qed

lemma d_lat_inv:
  assumes inv: "demo_inv fill sz n \<sigma>" and len: "length (rcvd (dbus \<sigma>)) = Suc (length (lats \<sigma>))"
  shows "demo_inv fill sz n (\<sigma>\<lparr>recvs := recvs \<sigma> @ [t], lats := lats \<sigma> @ [latency t (snd (last (rcvd (dbus \<sigma>))))]\<rparr>)"
proof -
  let ?i = "length (lats \<sigma>)" and ?b = "dbus \<sigma>"
  have c: "conc_inv ?b" "8 \<le> unat (buf_sz ?b)" and p: "pushes_inv fill sz n \<sigma>" and q: "pops_inv \<sigma>"
    using inv by (simp_all add: demo_inv_def)
  have i: "?i < length (sent ?b)" using conc_inv_result(2) [OF c(1)] len by simp
  then have st: "?i < length (stamps \<sigma>)" using p by (auto simp: pushes_inv_def)
  have "map (stamp_msg fill sz) (take (length (sent ?b)) (stamps \<sigma>)) ! ?i = sent ?b ! ?i" using p by (simp add: pushes_inv_def)
  then have m: "sent ?b ! ?i = stamp_msg fill sz (stamps \<sigma> ! ?i)" using i st by simp
  have "last (rcvd ?b) = rcvd ?b ! ?i" using len by (metis diff_Suc_1 last_conv_nth length_0_conv nat.distinct(1))
  also have "\<dots> = (of_nat (length (sent ?b ! ?i)), take (unat (buf_sz ?b)) (sent ?b ! ?i))"
    using arg_cong [OF conc_inv_result(1) [OF c(1)], of "\<lambda>xs. xs ! ?i"] len i by simp
  finally have "latency t (snd (last (rcvd ?b))) = t - stamps \<sigma> ! ?i" using latency_stamp [OF c(2)] by (simp add: m)
  moreover have "take (Suc ?i) (stamps \<sigma>) = take ?i (stamps \<sigma>) @ [stamps \<sigma> ! ?i]" using st by (rule take_Suc_conv_app_nth)
  ultimately have "pops_inv (\<sigma>\<lparr>recvs := recvs \<sigma> @ [t], lats := lats \<sigma> @ [latency t (snd (last (rcvd ?b)))]\<rparr>)"
    using q len st by (simp add: pops_inv_def)
  then show ?thesis using c p by (simp add: demo_inv_def pushes_inv_def)
qed

lemma d_stamp_inv:
  assumes inv: "demo_inv fill sz n \<sigma>" and "ppc (dbus \<sigma>) = PIdle" "length (stamps \<sigma>) = length (sent (dbus \<sigma>))" "length (stamps \<sigma>) < n"
  shows "demo_inv fill sz n (\<sigma>\<lparr>stamps := stamps \<sigma> @ [t]\<rparr>)"
  using assms rcvd_behind [OF inv] by (simp add: demo_inv_def pushes_inv_def pops_inv_def)

lemma d_attach_inv:
  assumes inv: "demo_inv fill sz n \<sigma>" and new: "new_Consumer pid (seg (dbus \<sigma>)) = (c, s)"
  shows "demo_inv fill sz n (\<sigma>\<lparr>dbus := (dbus \<sigma>)\<lparr>seg := s, cons := c, cpc := CIdle\<rparr>\<rparr>)"
proof -
  have "conc_inv ((dbus \<sigma>)\<lparr>seg := s, cons := c, cpc := CIdle\<rparr>)" using consumer_again_inv [OF _ new] inv by (simp add: demo_inv_def)
  then show ?thesis using inv by (simp add: demo_inv_def pushes_inv_def pops_inv_def)
qed

interpretation loops: preserved "demo_loop fill sz n" "demo_inv fill sz n"
proof
  fix \<sigma> \<tau> assume inv: "demo_inv fill sz n \<sigma>" and "demo_loop fill sz n \<sigma> \<tau>"
  from this(2) show "demo_inv fill sz n \<tau>"
    by cases (auto intro: d_stamp_inv [OF inv] d_push_inv [OF inv] d_pop_inv [OF inv] d_lat_inv [OF inv])
qed

interpretation demos: preserved "demo_step fill sz n" "demo_inv fill sz n"
proof
  fix \<sigma> \<tau> assume inv: "demo_inv fill sz n \<sigma>" and "demo_step fill sz n \<sigma> \<tau>"
  from this(2) show "demo_inv fill sz n \<tau>"
    by cases (auto intro: loops.keep [OF inv] d_attach_inv [OF inv])
qed

lemma demo_start_inv:
  assumes "fst (create cap max_msg opts env) = Inr s" and "unat max_msg \<le> 2 ^ 32 - 72" and "8 \<le> unat k"
  shows "demo_inv fill sz n (demo_start s pid_p pid_c k)"
proof -
  have "ppc (start s pid_p pid_c k) = PIdle" "sent (start s pid_p pid_c k) = []" "rcvd (start s pid_p pid_c k) = []"
    "buf_sz (start s pid_p pid_c k) = k" by (simp_all add: start_def split: prod.splits)
  then show ?thesis using start_inv [OF assms(1,2)] assms(3)
    by (simp add: demo_inv_def demo_start_def pushes_inv_def pops_inv_def)
qed

section \<open>A message copied byte by byte\<close>

lemma demo_push_bytes:
  assumes "ppc (dbus \<sigma>) = PCopy m i" and "i \<le> length m" and "length (sent (dbus \<sigma>)) < length (stamps \<sigma>)"
  shows "\<exists>b. (demo_loop fill sz n)\<^sup>*\<^sup>* \<sigma> (\<sigma>\<lparr>dbus := (set_mem b (dbus \<sigma>))\<lparr>ppc := PCopy m (length m)\<rparr>\<rparr>)"
  using assms
proof (induction "length m - i" arbitrary: i \<sigma>)
  case 0
  then have "\<sigma>\<lparr>dbus := (set_mem (mem (seg (dbus \<sigma>))) (dbus \<sigma>))\<lparr>ppc := PCopy m (length m)\<rparr>\<rparr> = \<sigma>"
    by (intro demo.equality sys.equality segment.equality) (simp_all add: set_mem_def)
  then show ?case by (metis rtranclp.rtrancl_refl)
next
  case (Suc j)
  let ?b = "(set_mem ((mem (seg (dbus \<sigma>)))(payload_ptr (p_slot (prod (dbus \<sigma>))) + i := m ! i)) (dbus \<sigma>))\<lparr>ppc := PCopy m (Suc i)\<rparr>"
  have i: "i < length m" using Suc.hyps(2) by simp
  have "bus_step (dbus \<sigma>) ?b" using Suc.prems(1) i by (rule bus_step.p_byte)
  then have "demo_loop fill sz n \<sigma> (\<sigma>\<lparr>dbus := ?b\<rparr>)" using Suc.prems by (intro d_push) simp_all
  moreover obtain m' where "(demo_loop fill sz n)\<^sup>*\<^sup>* (\<sigma>\<lparr>dbus := ?b\<rparr>) (\<sigma>\<lparr>dbus := (set_mem m' ?b)\<lparr>ppc := PCopy m (length m)\<rparr>\<rparr>)"
  proof -
    have "j = length m - Suc i" using Suc.hyps(2) by simp
    from Suc.hyps(1) [OF this, of "\<sigma>\<lparr>dbus := ?b\<rparr>"] Suc.prems(3) i that show ?thesis by auto
  qed
  moreover have "(set_mem m' ?b)\<lparr>ppc := PCopy m (length m)\<rparr> = (set_mem m' (dbus \<sigma>))\<lparr>ppc := PCopy m (length m)\<rparr>"
    by (simp add: set_mem_def)
  ultimately show ?case by (metis converse_rtranclp_into_rtranclp)
qed

lemma demo_pop_bytes:
  assumes "cpc (dbus \<sigma>) = CCopy z acc" and "length acc \<le> copy_len z (dbus \<sigma>)"
    and "length (rcvd (dbus \<sigma>)) = length (lats \<sigma>)" and "length (lats \<sigma>) < n"
  shows "\<exists>bs. length bs = copy_len z (dbus \<sigma>) \<and> (demo_loop fill sz n)\<^sup>*\<^sup>* \<sigma> (\<sigma>\<lparr>dbus := (dbus \<sigma>)\<lparr>cpc := CCopy z bs\<rparr>\<rparr>)"
  using assms
proof (induction "copy_len z (dbus \<sigma>) - length acc" arbitrary: acc \<sigma>)
  case 0
  then have same: "\<sigma>\<lparr>dbus := (dbus \<sigma>)\<lparr>cpc := CCopy z acc\<rparr>\<rparr> = \<sigma>" by (intro demo.equality sys.equality) simp_all
  have "length acc = copy_len z (dbus \<sigma>)" using 0 by simp
  moreover have "(demo_loop fill sz n)\<^sup>*\<^sup>* \<sigma> (\<sigma>\<lparr>dbus := (dbus \<sigma>)\<lparr>cpc := CCopy z acc\<rparr>\<rparr>)"
    unfolding same by (rule rtranclp.rtrancl_refl)
  ultimately show ?case by blast
next
  case (Suc j)
  let ?acc = "acc @ [mem (seg (dbus \<sigma>)) (payload_ptr (c_slot (cons (dbus \<sigma>))) + length acc)]"
  let ?b = "(dbus \<sigma>)\<lparr>cpc := CCopy z ?acc\<rparr>"
  have "bus_step (dbus \<sigma>) ?b" using Suc.prems(1) Suc.hyps(2) by (intro bus_step.c_byte) auto
  then have "demo_loop fill sz n \<sigma> (\<sigma>\<lparr>dbus := ?b\<rparr>)" using Suc.prems by (intro d_pop) simp_all
  moreover obtain bs where "length bs = copy_len z (dbus \<sigma>)"
    "(demo_loop fill sz n)\<^sup>*\<^sup>* (\<sigma>\<lparr>dbus := ?b\<rparr>) (\<sigma>\<lparr>dbus := ?b\<lparr>cpc := CCopy z bs\<rparr>\<rparr>)"
  proof -
    have "j = copy_len z (dbus \<sigma>) - Suc (length acc)" "Suc (length acc) \<le> copy_len z (dbus \<sigma>)" using Suc.hyps(2) by simp_all
    with Suc.hyps(1) [of "\<sigma>\<lparr>dbus := ?b\<rparr>" ?acc] Suc.prems(3,4) that show ?thesis by auto
  qed
  ultimately show ?case by (auto intro: converse_rtranclp_into_rtranclp)
qed

section \<open>Properties\<close>

text \<open>
  C17. The demo measures what it says: in every state of the two programs (producer and consumer in any interleaving,
  late loads and a late start of the consumer included, message sizes of the two command lines possibly different), the latencies recorded so far are,
  in order and without gaps, the consumer's readings minus the stamps the producer put into the same
  messages; neither side counts more than \<open>n\<close> messages.
\<close>

theorem demo_latencies:
  assumes "fst (create cap (demo_msg_size a) opts env) = Inr s" and "unat (demo_msg_size a) \<le> 2 ^ 32 - 72"
    and "(demo_step fill (demo_msg_size a) n)\<^sup>*\<^sup>* (demo_start s pid_p pid_c (demo_msg_size b)) \<sigma>"
  shows "lats \<sigma> = map2 (\<lambda>r t. r - t) (recvs \<sigma>) (take (length (recvs \<sigma>)) (stamps \<sigma>)) \<and>
    length (lats \<sigma>) = length (recvs \<sigma>) \<and> length (lats \<sigma>) \<le> length (stamps \<sigma>) \<and> length (stamps \<sigma>) \<le> n"
proof -
  have inv: "demo_inv fill (demo_msg_size a) n \<sigma>"
    by (rule demos.along_run [OF assms(3) demo_start_inv [OF assms(1,2) demo_msg_size_ge]])
  then have "map2 (-) (recvs \<sigma>) (take (length (lats \<sigma>)) (stamps \<sigma>)) = lats \<sigma>" "length (recvs \<sigma>) = length (lats \<sigma>)" "length (stamps \<sigma>) \<le> n"
    by (simp_all add: demo_inv_def pops_inv_def pushes_inv_def)
  with rcvd_behind [OF inv] show ?thesis by simp
qed

theorem demo_latencies_witness:
  "\<exists>\<sigma>. (demo_step 0xAB 8 1)\<^sup>*\<^sup>* (demo_start sample_segment 1 2 8) \<sigma> \<and> stamps \<sigma> = [100] \<and> recvs \<sigma> = [130] \<and> lats \<sigma> = [30]"
proof -
  let ?step = "demo_loop 0xAB 8 1" and ?m = "stamp_msg 0xAB 8 100"
  let ?D = "\<lambda>b. \<lparr> dbus = b, stamps = [100], recvs = [], lats = [] \<rparr>"
  define b0 where "b0 = start sample_segment 1 2 8"
  have f: "ppc b0 = PIdle" "cpc b0 = CIdle" "sent b0 = []" "rcvd b0 = []" "\<not> p_max_msg (prod b0) < 8" "\<not> p_full (prod b0)"
    "c_read_pos (cons b0) = 0" "c_write_cache (cons b0) = 0" "p_write_pos (prod b0) = 0" "write_pos (ctrl (seg b0)) = 0"
    unfolding b0_def by code_simp+
  have len: "length ?m = 8" by (simp add: stamp_msg_length)
  have "?step (demo_start sample_segment 1 2 8) (?D b0)"
    using d_stamp [of "demo_start sample_segment 1 2 8" 1 "0xAB" 8 100] f by (simp add: demo_start_def b0_def)
  moreover define b1 where "b1 = b0\<lparr>ppc := PSize ?m\<rparr>"
  have "bus_step b0 b1" unfolding b1_def using f len by (intro bus_step.p_fast) simp_all
  then have "?step (?D b0) (?D b1)" using d_push [of "?D b0" b1 "0xAB" 8 1] f by (simp add: b1_def msg_of_def)
  moreover define b2 where "b2 = (set_mem (store32 (mem (seg b1)) (size_ptr (p_slot (prod b1))) (of_nat (length ?m))) b1)\<lparr>ppc := PCopy ?m 0\<rparr>"
  have "bus_step b1 b2" unfolding b2_def by (rule bus_step.p_size) (simp add: b1_def)
  then have "?step (?D b1) (?D b2)" using d_push [of "?D b1" b2 "0xAB" 8 1] f by (simp add: b1_def b2_def set_mem_def)
  moreover obtain mm where "?step\<^sup>*\<^sup>* (?D b2) (?D ((set_mem mm b2)\<lparr>ppc := PCopy ?m (length ?m)\<rparr>))"
    using demo_push_bytes [of "?D b2" ?m 0 "0xAB" 8 1] f by (auto simp: b2_def b1_def set_mem_def)
  moreover define b3 where "b3 = (set_mem mm b2)\<lparr>ppc := PCopy ?m (length ?m)\<rparr>"
  define b4 where "b4 = b3\<lparr>seg := (seg b3)\<lparr>ctrl := (ctrl (seg b3))\<lparr>write_pos := p_write_pos (prod b3) + 1\<rparr>\<rparr>,
     prod := (prod b3)\<lparr>p_write_pos := p_write_pos (prod b3) + 1\<rparr>, ppc := PIdle, sent := sent b3 @ [?m]\<rparr>"
  have "bus_step b3 b4" unfolding b4_def by (rule bus_step.p_publish) (simp add: b3_def)
  then have "?step (?D b3) (?D b4)" using d_push [of "?D b3" b4 "0xAB" 8 1] f by (simp add: b3_def b4_def b2_def b1_def set_mem_def)
  ultimately have r4: "?step\<^sup>*\<^sup>* (demo_start sample_segment 1 2 8) (?D b4)"
    unfolding b3_def by (meson converse_rtranclp_into_rtranclp rtranclp.rtrancl_into_rtrancl)
  have g: "cpc b4 = CIdle" "rcvd b4 = []" "c_read_pos (cons b4) = 0" "c_write_cache (cons b4) = 0" "write_pos (ctrl (seg b4)) = 1"
    using f by (simp_all add: b4_def b3_def b2_def b1_def set_mem_def)
  have pop: "?step (?D b) (?D b')" if "bus_step b b'" "cpc b' \<noteq> cpc b" "rcvd b = []" for b b'
    using d_pop [of "?D b" 1 b' "0xAB" 8] that by simp
  define b5 where "b5 = b4\<lparr>cpc := CLoad\<rparr>"
  define b6 where "b6 = b5\<lparr>cons := (cons b5)\<lparr>c_write_cache := 1\<rparr>, cpc := CSize\<rparr>"
  define z where "z = load32 (mem (seg b6)) (size_ptr (c_slot (cons b6)))"
  define b7 where "b7 = b6\<lparr>cpc := CCopy z []\<rparr>"
  have "bus_step b4 b5" unfolding b5_def by (rule bus_step.c_slow) (simp_all add: g)
  then have "?step (?D b4) (?D b5)" by (rule pop) (simp_all add: b5_def g)
  moreover have "bus_step b5 b6" using bus_step.c_load [of b5 1 "(cons b5)\<lparr>c_write_cache := 1\<rparr>"] by (simp add: b6_def b5_def g)
  then have "?step (?D b5) (?D b6)" by (rule pop) (simp_all add: b6_def b5_def g)
  moreover have "bus_step b6 b7" unfolding b7_def z_def by (rule bus_step.c_size) (simp add: b6_def)
  then have "?step (?D b6) (?D b7)" by (rule pop) (simp_all add: b7_def b6_def b5_def g)
  moreover obtain bs where bs: "length bs = copy_len z b7" "?step\<^sup>*\<^sup>* (?D b7) (?D (b7\<lparr>cpc := CCopy z bs\<rparr>))"
    using demo_pop_bytes [of "?D b7" z "[]" 1 "0xAB" 8] g by (auto simp: b7_def b6_def b5_def)
  moreover define b8 where "b8 = b7\<lparr>cpc := CCopy z bs\<rparr>"
  define b9 where "b9 = b8\<lparr>seg := (seg b8)\<lparr>ctrl := (ctrl (seg b8))\<lparr>read_pos := c_read_pos (cons b8) + 1\<rparr>\<rparr>,
     cons := (cons b8)\<lparr>c_read_pos := c_read_pos (cons b8) + 1\<rparr>, cpc := CIdle, rcvd := rcvd b8 @ [(z, bs)]\<rparr>"
  have "bus_step b8 b9" unfolding b9_def by (rule bus_step.c_publish) (simp_all add: b8_def bs(1))
  then have "?step (?D b8) (?D b9)" by (rule pop) (simp_all add: b9_def b8_def b7_def b6_def b5_def g)
  moreover define l where "l = latency 130 bs"
  have "rcvd b9 = [(z, bs)]" by (simp add: b9_def b8_def b7_def b6_def b5_def g)
  then have "?step (?D b9) \<lparr> dbus = b9, stamps = [100], recvs = [130], lats = [l] \<rparr>"
    using d_lat [of "?D b9" "0xAB" 8 1 130] by (simp add: l_def)
  ultimately have run: "?step\<^sup>*\<^sup>* (demo_start sample_segment 1 2 8) \<lparr> dbus = b9, stamps = [100], recvs = [130], lats = [l] \<rparr>"
    using r4 unfolding b8_def by (meson rtranclp.rtrancl_into_rtrancl rtranclp_trans)
  have s8: "demo_msg_size 8 = 8" by (simp add: demo_msg_size_def)
  from demo_latencies [of 2 8 sample_opts sample_env sample_segment "0xAB" 1 1 2 8, unfolded s8, OF sample_create _ loops_step [OF run]]
  have "l = 30" by simp
  with loops_step [OF run] show ?thesis by (intro exI [of _ "\<lparr> dbus = b9, stamps = [100], recvs = [130], lats = [l] \<rparr>"]) simp
qed

end
