(* ===== verification/Demo_Progress.thy ===== *)
theory Demo_Progress
  imports Bus_Demo Spsc_Wait_Free
begin

text \<open>
  The two programs never get in each other's way for good: from every state they can reach, they can go on until both have
  counted their messages. The proof puts the wait-free calls of the bus together: whoever is in a call can finish it, and
  between calls either the ring holds a message or has room for one.
\<close>

section \<open>One call of each side\<close>

lemma demo_frame:
  assumes "demo_inv fill sz n \<sigma>"
  shows "length (stamps \<sigma>) \<le> n" "length (sent (dbus \<sigma>)) \<le> length (stamps \<sigma>)" "length (rcvd (dbus \<sigma>)) \<le> length (sent (dbus \<sigma>))"
    "length (lats \<sigma>) \<le> length (rcvd (dbus \<sigma>))" "conc_inv (dbus \<sigma>)"
  using assms conc_inv_result(2) [of "dbus \<sigma>"] by (auto simp: demo_inv_def pushes_inv_def pops_inv_def)

lemma loaded_ahead:
  assumes "conc_inv b" and "length (rcvd b) < length (sent b)"
  shows "c_read_pos (cons b) \<noteq> write_pos (ctrl (seg b))"
proof -
  from assms(1) obtain rc wc where p: "pos_inv b rc wc" by (auto simp: conc_inv_def)
  then have "length (sent b) - length (rcvd b) < 2 ^ 64" using capacity_lt [of "ctrl (seg b)"] by (auto simp: pos_inv_def Let_def)
  then have "unat (of_nat (length (sent b)) - of_nat (length (rcvd b)) :: u64) = length (sent b) - length (rcvd b)"
    using assms(2) by (intro unat_of_nat_diff) simp_all
  then show ?thesis using p assms(2) by (auto simp: pos_inv_def Let_def)
qed

lemma drained_not_full:
  assumes "conc_inv b" and "length (rcvd b) = length (sent b)"
  shows "\<not> p_full ((prod b)\<lparr>p_read_cache := read_pos (ctrl (seg b))\<rparr>)"
proof -
  from assms(1) obtain rc wc where p: "pos_inv b rc wc" by (auto simp: conc_inv_def)
  have "p_capacity (prod b) = capacity (ctrl (seg b))" "pow2 (capacity (ctrl (seg b)))"
    using assms(1) by (simp_all add: conc_inv_def cfg_inv_def cfg_ok_def Let_def)
  then show ?thesis using p assms(2) by (auto simp: p_full_unat pos_inv_def Let_def pow2_def unat_eq_0)
qed

lemma pop_lift:
  assumes "(\<lambda>b b'. bus_step b b' \<and> cpc b' \<noteq> cpc b \<and> 0 < pop_left k (cpc b))\<^sup>*\<^sup>* (dbus \<sigma>) b"
    and "reading (cpc (dbus \<sigma>))" and "length (rcvd (dbus \<sigma>)) = length (lats \<sigma>)" and "length (lats \<sigma>) < n"
  shows "(demo_loop fill sz n)\<^sup>*\<^sup>* \<sigma> (\<sigma>\<lparr>dbus := b\<rparr>) \<and> sent b = sent (dbus \<sigma>) \<and>
    (reading (cpc b) \<and> rcvd b = rcvd (dbus \<sigma>) \<or> cpc b = CIdle \<and> (\<exists>x. rcvd b = rcvd (dbus \<sigma>) @ [x]))"
  using assms(1)
proof (induction rule: rtranclp_induct)
  case (step b b')
  then have s: "bus_step b b'" "cpc b' \<noteq> cpc b" and r: "reading (cpc b)" "rcvd b = rcvd (dbus \<sigma>)" by auto
  have "demo_loop fill sz n (\<sigma>\<lparr>dbus := b\<rparr>) (\<sigma>\<lparr>dbus := b'\<rparr>)"
    using d_pop [of "\<sigma>\<lparr>dbus := b\<rparr>" n b' fill sz] s r(2) assms(3,4) by simp
  moreover have "sent b' = sent b \<and> (reading (cpc b') \<and> rcvd b' = rcvd b \<or> cpc b' = CIdle \<and> (\<exists>x. rcvd b' = rcvd b @ [x]))"
    using s(1) r(1) s(2) by cases (auto simp: reading_def)
  ultimately show ?case using step.IH r(2) by (auto intro: rtranclp.rtrancl_into_rtrancl)
qed (use assms(2) in simp)

lemma writing_busy: "writing pc \<Longrightarrow> pc \<noteq> PIdle"
  by (auto simp: writing_def)

lemma push_lift:
  assumes "(\<lambda>b b'. bus_step b b' \<and> ppc b' \<noteq> ppc b \<and> 0 < push_left (ppc b))\<^sup>*\<^sup>* (dbus \<sigma>) b"
    and "writing (ppc (dbus \<sigma>))" and "length (sent (dbus \<sigma>)) < length (stamps \<sigma>)"
  shows "(demo_loop fill sz n)\<^sup>*\<^sup>* \<sigma> (\<sigma>\<lparr>dbus := b\<rparr>) \<and> rcvd b = rcvd (dbus \<sigma>) \<and>
    (writing (ppc b) \<and> sent b = sent (dbus \<sigma>) \<or> ppc b = PIdle \<and> (\<exists>m. sent b = sent (dbus \<sigma>) @ [m]))"
  using assms(1)
proof (induction rule: rtranclp_induct)
  case (step b b')
  then have s: "bus_step b b'" "ppc b' \<noteq> ppc b" and r: "writing (ppc b)" "sent b = sent (dbus \<sigma>)" by auto
  have c: "cpc b' = cpc b \<and> rcvd b' = rcvd b \<and>
      (writing (ppc b') \<and> sent b' = sent b \<or> ppc b' = PIdle \<and> (\<exists>m. sent b' = sent b @ [m]))"
    using s(1) r(1) s(2) by cases (auto simp: writing_def)
  have "demo_loop fill sz n (\<sigma>\<lparr>dbus := b\<rparr>) (\<sigma>\<lparr>dbus := b'\<rparr>)"
    using d_push [of "\<sigma>\<lparr>dbus := b\<rparr>" b' fill sz n] s(1) c r(2) assms(3) writing_busy [OF r(1)] by simp
  then show ?case using step.IH r(2) c by (auto intro: rtranclp.rtrancl_into_rtrancl)
qed (use assms(2) in simp)

text \<open>How much of the work is done; a step forward is a run that does more of it.\<close>

definition work :: "demo \<Rightarrow> nat" where
  "work \<sigma> = length (stamps \<sigma>) + length (sent (dbus \<sigma>)) + length (rcvd (dbus \<sigma>)) + length (lats \<sigma>)"

definition can_advance :: "u8 \<Rightarrow> u32 \<Rightarrow> nat \<Rightarrow> demo \<Rightarrow> bool" where
  "can_advance fill sz n \<sigma> \<longleftrightarrow> (\<exists>\<tau>. (demo_loop fill sz n)\<^sup>*\<^sup>* \<sigma> \<tau> \<and> work \<sigma> < work \<tau>)"

lemma advance_step:
  assumes "demo_loop fill sz n \<sigma> \<tau>" and "can_advance fill sz n \<tau>" and "work \<tau> = work \<sigma>"
  shows "can_advance fill sz n \<sigma>"
  using assms unfolding can_advance_def by (metis converse_rtranclp_into_rtranclp)

lemma finish_pop:
  assumes inv: "demo_inv fill sz n \<sigma>" and "reading (cpc (dbus \<sigma>))" "length (rcvd (dbus \<sigma>)) = length (lats \<sigma>)" "length (lats \<sigma>) < n"
  shows "can_advance fill sz n \<sigma>"
proof -
  obtain b where "(\<lambda>b b'. bus_step b b' \<and> cpc b' \<noteq> cpc b \<and> 0 < pop_left (buf_sz (dbus \<sigma>)) (cpc b))\<^sup>*\<^sup>* (dbus \<sigma>) b"
    "pop_left (buf_sz (dbus \<sigma>)) (cpc b) = 0"
    using pop.ends_alone [of "dbus \<sigma>" "buf_sz (dbus \<sigma>)"] demo_frame(5) [OF inv] by blast
  note b = this
  then have "cpc b = CIdle" using left_pos(2) [of "buf_sz (dbus \<sigma>)" "cpc b"] by linarith
  then have "(demo_loop fill sz n)\<^sup>*\<^sup>* \<sigma> (\<sigma>\<lparr>dbus := b\<rparr>)" "sent b = sent (dbus \<sigma>)" "length (rcvd b) = Suc (length (rcvd (dbus \<sigma>)))"
    using pop_lift [OF b(1) assms(2-4), of fill sz] by (auto simp: reading_def)
  then show ?thesis unfolding can_advance_def by (intro exI [of _ "\<sigma>\<lparr>dbus := b\<rparr>"] conjI) (simp_all add: work_def)
qed

lemma finish_push:
  assumes inv: "demo_inv fill sz n \<sigma>" and "writing (ppc (dbus \<sigma>))" "length (sent (dbus \<sigma>)) < length (stamps \<sigma>)"
  shows "can_advance fill sz n \<sigma>"
proof -
  obtain b where "(\<lambda>b b'. bus_step b b' \<and> ppc b' \<noteq> ppc b \<and> 0 < push_left (ppc b))\<^sup>*\<^sup>* (dbus \<sigma>) b" "push_left (ppc b) = 0"
    using push.ends_alone [OF demo_frame(5) [OF inv]] by blast
  note b = this
  then have "ppc b = PIdle" using left_pos(1) [of "ppc b"] by linarith
  then have "(demo_loop fill sz n)\<^sup>*\<^sup>* \<sigma> (\<sigma>\<lparr>dbus := b\<rparr>)" "rcvd b = rcvd (dbus \<sigma>)" "length (sent b) = Suc (length (sent (dbus \<sigma>)))"
    using push_lift [OF b(1) assms(2,3), of fill sz n] by (auto simp: writing_def)
  then show ?thesis unfolding can_advance_def by (intro exI [of _ "\<sigma>\<lparr>dbus := b\<rparr>"] conjI) (simp_all add: work_def)
qed

section \<open>Between calls\<close>

text \<open>With a message in the ring the consumer takes it, from wherever it is.\<close>

lemma advance_pop:
  assumes inv: "demo_inv fill sz n \<sigma>" and len: "length (rcvd (dbus \<sigma>)) = length (lats \<sigma>)" "length (lats \<sigma>) < n"
    and more: "length (rcvd (dbus \<sigma>)) < length (sent (dbus \<sigma>))"
  shows "can_advance fill sz n \<sigma>"
proof -
  have to: "can_advance fill sz n \<sigma>'" if s: "demo_inv fill sz n \<sigma>'" "bus_step (dbus \<sigma>') b" "cpc b \<noteq> cpc (dbus \<sigma>')" "rcvd b = rcvd (dbus \<sigma>')"
      and rest: "can_advance fill sz n (\<sigma>'\<lparr>dbus := b\<rparr>)" and l: "length (rcvd (dbus \<sigma>')) = length (lats \<sigma>')" "length (lats \<sigma>') < n" for \<sigma>' b
    using advance_step [OF d_pop [OF l s(2,3)] rest] s(4) pop_frame [OF s(2,3)] by (simp add: work_def)
  have keep: "demo_inv fill sz n (\<sigma>'\<lparr>dbus := b\<rparr>)" if "demo_inv fill sz n \<sigma>'" "bus_step (dbus \<sigma>') b" "cpc b \<noteq> cpc (dbus \<sigma>')"
      "length (rcvd (dbus \<sigma>')) = length (lats \<sigma>')" for \<sigma>' b using d_pop_inv [OF that(1,4,2,3)] .
  have load: "can_advance fill sz n \<sigma>'" if i: "demo_inv fill sz n \<sigma>'" and pc: "cpc (dbus \<sigma>') = CLoad"
      and l: "length (rcvd (dbus \<sigma>')) = length (lats \<sigma>')" "length (lats \<sigma>') < n" "length (rcvd (dbus \<sigma>')) < length (sent (dbus \<sigma>'))" for \<sigma>'
  proof -
    let ?b = "dbus \<sigma>'"
    let ?c = "(cons ?b)\<lparr>c_write_cache := write_pos (ctrl (seg ?b))\<rparr>"
    have "c_read_pos (cons ?b) \<noteq> write_pos (ctrl (seg ?b))" using loaded_ahead [OF demo_frame(5) [OF i] l(3)] .
    then have s: "bus_step ?b (?b\<lparr>cons := ?c, cpc := CSize\<rparr>)"
      using bus_step.c_load [OF pc order_refl refl] by simp
    show ?thesis
      by (rule to [OF i s]) (use pc l finish_pop [OF keep [OF i s]] in \<open>simp_all add: reading_def\<close>)
  qed
  show ?thesis
  proof (cases "cpc (dbus \<sigma>)")
    case CIdle
    show ?thesis
    proof (cases "c_read_pos (cons (dbus \<sigma>)) = c_write_cache (cons (dbus \<sigma>))")
      case True
      note s = bus_step.c_slow [OF CIdle True]
      show ?thesis by (rule to [OF inv s]) (use CIdle len more load [OF keep [OF inv s]] in simp_all)
    next
      case False
      note s = bus_step.c_fast [OF CIdle False]
      show ?thesis by (rule to [OF inv s]) (use CIdle len finish_pop [OF keep [OF inv s]] in \<open>simp_all add: reading_def\<close>)
    qed
  next
    case CLoad
    then show ?thesis using load inv len more by blast
  qed (use finish_pop [OF inv _ len] in \<open>simp_all add: reading_def\<close>)
qed

text \<open>With the ring empty the producer puts a message into it, from wherever it is.\<close>

lemma demo_msg_fits:
  assumes inv: "demo_inv fill sz n \<sigma>" and sz: "8 \<le> unat sz" "max_msg_size (ctrl (seg (dbus \<sigma>))) = sz"
  shows "length (stamp_msg fill sz x) < 2 ^ 32" "\<not> p_max_msg (prod (dbus \<sigma>)) < of_nat (length (stamp_msg fill sz x))"
proof -
  have "p_max_msg (prod (dbus \<sigma>)) = sz" using demo_frame(5) [OF inv] sz(2) by (simp add: conc_inv_def cfg_inv_def Let_def)
  then show "length (stamp_msg fill sz x) < 2 ^ 32" "\<not> p_max_msg (prod (dbus \<sigma>)) < of_nat (length (stamp_msg fill sz x))"
    using unat_lt_32 [of sz] by (simp_all add: stamp_msg_length [OF sz(1)])
qed

lemma advance_push:
  assumes inv: "demo_inv fill sz n \<sigma>" and sz: "8 \<le> unat sz" "max_msg_size (ctrl (seg (dbus \<sigma>))) = sz"
    and len: "length (rcvd (dbus \<sigma>)) = length (sent (dbus \<sigma>))" "length (sent (dbus \<sigma>)) < length (stamps \<sigma>)"
  shows "can_advance fill sz n \<sigma>"
proof -
  have to: "can_advance fill sz n \<sigma>'"
    if l: "length (sent (dbus \<sigma>')) < length (stamps \<sigma>')" and s: "bus_step (dbus \<sigma>') b" "cpc b = cpc (dbus \<sigma>')"
      "ppc (dbus \<sigma>') = PIdle \<Longrightarrow> msg_of (ppc b) = Some (stamp_msg fill sz (last (stamps \<sigma>')))" "sent b = sent (dbus \<sigma>')" "rcvd b = rcvd (dbus \<sigma>')"
      and rest: "can_advance fill sz n (\<sigma>'\<lparr>dbus := b\<rparr>)" for \<sigma>' b
    using advance_step [OF d_push [OF l s(1-3)] rest] s(4,5) by (simp add: work_def)
  have load: "can_advance fill sz n \<sigma>'" if i: "demo_inv fill sz n \<sigma>'" and pc: "ppc (dbus \<sigma>') = PLoad m"
      and l: "length (rcvd (dbus \<sigma>')) = length (sent (dbus \<sigma>'))" "length (sent (dbus \<sigma>')) < length (stamps \<sigma>')" for \<sigma>' m
  proof -
    let ?b = "dbus \<sigma>'"
    let ?p = "(prod ?b)\<lparr>p_read_cache := read_pos (ctrl (seg ?b))\<rparr>"
    have s: "bus_step ?b (?b\<lparr>prod := ?p, ppc := PSize m\<rparr>)"
      using bus_step.p_load [OF pc order_refl refl] drained_not_full [OF demo_frame(5) [OF i] l(1)] by simp
    have "demo_inv fill sz n (\<sigma>'\<lparr>dbus := ?b\<lparr>prod := ?p, ppc := PSize m\<rparr>\<rparr>)" by (rule d_push_inv [OF i l(2) s]) (simp_all add: pc)
    from finish_push [OF this] show ?thesis by (intro to [OF l(2) s]) (simp_all add: pc l writing_def)
  qed
  show ?thesis
  proof (cases "ppc (dbus \<sigma>)")
    case PIdle
    let ?m = "stamp_msg fill sz (last (stamps \<sigma>))"
    note fits = demo_msg_fits [OF inv sz, of "last (stamps \<sigma>)"]
    show ?thesis
    proof (cases "p_full (prod (dbus \<sigma>))")
      case True
      note s = bus_step.p_slow [OF PIdle fits True]
      have "demo_inv fill sz n (\<sigma>\<lparr>dbus := (dbus \<sigma>)\<lparr>ppc := PLoad ?m\<rparr>\<rparr>)" by (rule d_push_inv [OF inv len(2) s]) (simp_all add: msg_of_def)
      from load [OF this] show ?thesis by (intro to [OF len(2) s]) (simp_all add: len msg_of_def)
    next
      case False
      note s = bus_step.p_fast [OF PIdle fits False]
      have "demo_inv fill sz n (\<sigma>\<lparr>dbus := (dbus \<sigma>)\<lparr>ppc := PSize ?m\<rparr>\<rparr>)" by (rule d_push_inv [OF inv len(2) s]) (simp_all add: msg_of_def)
      from finish_push [OF this] show ?thesis by (intro to [OF len(2) s]) (simp_all add: len msg_of_def writing_def)
    qed
  next
    case (PLoad m)
    then show ?thesis using load inv len by blast
  qed (use finish_push [OF inv _ len(2)] in \<open>simp_all add: writing_def\<close>)
qed

section \<open>To the end\<close>

interpretation demo_size: preserved "demo_step fill sz n" "\<lambda>\<sigma>. max_msg_size (ctrl (seg (dbus \<sigma>))) = k"
proof
  have step: "max_msg_size (ctrl (seg b')) = max_msg_size (ctrl (seg b))" if "bus_step b b'" for b b'
    using that by cases auto
  have loop: "max_msg_size (ctrl (seg (dbus \<tau>))) = max_msg_size (ctrl (seg (dbus \<sigma>)))" if "demo_loop fill sz n \<sigma> \<tau>" for \<sigma> \<tau>
    using that by cases (auto dest: step)
  fix \<sigma> \<tau> assume "max_msg_size (ctrl (seg (dbus \<sigma>))) = k" and "demo_step fill sz n \<sigma> \<tau>"
  from this(2,1) show "max_msg_size (ctrl (seg (dbus \<tau>))) = k" by cases (auto dest: loop simp: new_Consumer_def)
qed

lemma demo_advances:
  assumes inv: "demo_inv fill sz n \<sigma>" and sz: "8 \<le> unat sz" "max_msg_size (ctrl (seg (dbus \<sigma>))) = sz" and more: "length (lats \<sigma>) < n"
  shows "can_advance fill sz n \<sigma>"
proof -
  have now: "can_advance fill sz n \<sigma>" if "demo_loop fill sz n \<sigma> \<tau>" "work \<sigma> < work \<tau>" for \<tau>
    using that unfolding can_advance_def by blast
  note f = demo_frame [OF inv]
  consider (lat) "length (rcvd (dbus \<sigma>)) = Suc (length (lats \<sigma>))"
    | (pop) "length (rcvd (dbus \<sigma>)) = length (lats \<sigma>)" "length (rcvd (dbus \<sigma>)) < length (sent (dbus \<sigma>))"
    | (push) "length (rcvd (dbus \<sigma>)) = length (lats \<sigma>)" "length (rcvd (dbus \<sigma>)) = length (sent (dbus \<sigma>))"
    using inv f(3) by (fastforce simp: demo_inv_def pops_inv_def)
  then show ?thesis
  proof cases
    case lat
    then show ?thesis using now [OF d_lat [OF lat, of fill sz n 0]] by (simp add: work_def)
  next
    case pop
    then show ?thesis using advance_pop [OF inv _ more] by simp
  next
    case push
    show ?thesis
    proof (cases "length (stamps \<sigma>) = length (sent (dbus \<sigma>))")
      case True
      then have "ppc (dbus \<sigma>) = PIdle" using inv by (cases "msg_of (ppc (dbus \<sigma>))") (auto simp: demo_inv_def pushes_inv_def)
      then show ?thesis using now [OF d_stamp [OF _ True, of n fill sz 0]] True push more by (simp add: work_def)
    next
      case False
      then show ?thesis using advance_push [OF inv sz] push f(2) by simp
    qed
  qed
qed

lemma demo_finishes:
  assumes "demo_inv fill sz n \<sigma>" and "8 \<le> unat sz" "max_msg_size (ctrl (seg (dbus \<sigma>))) = sz"
  shows "\<exists>\<tau>. (demo_loop fill sz n)\<^sup>*\<^sup>* \<sigma> \<tau> \<and> length (lats \<tau>) = n"
  using assms
proof (induction "4 * n - work \<sigma>" arbitrary: \<sigma> rule: less_induct)
  case less
  note f = demo_frame [OF less.prems(1)]
  show ?case
  proof (cases "length (lats \<sigma>) < n")
    case True
    then obtain \<upsilon> where u: "(demo_loop fill sz n)\<^sup>*\<^sup>* \<sigma> \<upsilon>" "work \<sigma> < work \<upsilon>"
      using demo_advances [OF less.prems] by (auto simp: can_advance_def)
    have inv: "demo_inv fill sz n \<upsilon>" "max_msg_size (ctrl (seg (dbus \<upsilon>))) = sz"
      using demos.along_run [OF loops_step [OF u(1)]] demo_size.along_run [OF loops_step [OF u(1)]] less.prems by blast+
    have "work \<sigma> < 4 * n" using True f by (simp add: work_def)
    then obtain \<tau> where t: "(demo_loop fill sz n)\<^sup>*\<^sup>* \<upsilon> \<tau>" "length (lats \<tau>) = n"
      using less.hyps [OF _ inv(1) less.prems(2) inv(2)] u(2) by force
    show ?thesis using rtranclp_trans [OF u(1) t(1)] t(2) by blast
  next
    case False
    then show ?thesis using f by (intro exI [of _ \<sigma>]) simp
  qed
qed

text \<open>
  C18. The demo can always go on to its end: from every state that the two programs reach, in any interleaving and
  with late loads, there is a continuation in which the producer has pushed its \<open>n\<close> messages and the consumer recorded
  \<open>n\<close> latencies, each the difference of its own reading and the stamp of the same message. There is no deadlock, whatever
  the sizes of the ring, of the message and of the consumer's buffer.
\<close>

theorem demo_can_finish:
  assumes "fst (create cap (demo_msg_size a) opts env) = Inr s" and "unat (demo_msg_size a) \<le> 2 ^ 32 - 72"
    and "(demo_step fill (demo_msg_size a) n)\<^sup>*\<^sup>* (demo_start s pid_p pid_c (demo_msg_size b)) \<sigma>"
  shows "\<exists>\<tau>. (demo_loop fill (demo_msg_size a) n)\<^sup>*\<^sup>* \<sigma> \<tau> \<and> length (sent (dbus \<tau>)) = n \<and> length (lats \<tau>) = n \<and>
    lats \<tau> = map2 (\<lambda>r t. r - t) (recvs \<tau>) (stamps \<tau>)"
proof -
  let ?sz = "demo_msg_size a"
  have inv0: "demo_inv fill ?sz n (demo_start s pid_p pid_c (demo_msg_size b))" by (rule demo_start_inv [OF assms(1,2) demo_msg_size_ge])
  have sz0: "max_msg_size (ctrl (seg (dbus (demo_start s pid_p pid_c (demo_msg_size b))))) = ?sz"
    using created_segment [OF assms(1)] by (simp add: demo_start_def start_def new_Producer_def new_Consumer_def init_segment_def)
  note inv = demos.along_run [OF assms(3) inv0]
  obtain \<tau> where t: "(demo_loop fill ?sz n)\<^sup>*\<^sup>* \<sigma> \<tau>" "length (lats \<tau>) = n"
    using demo_finishes [OF inv demo_msg_size_ge demo_size.along_run [OF assms(3) sz0]] by blast
  have i: "demo_inv fill ?sz n \<tau>" by (rule loops.along_run [OF t(1) inv])
  then have "length (stamps \<tau>) = n" "length (sent (dbus \<tau>)) = n" using demo_frame [OF i] t(2) by simp_all
  moreover have "lats \<tau> = map2 (\<lambda>r t. r - t) (recvs \<tau>) (stamps \<tau>)"
    using i t(2) \<open>length (stamps \<tau>) = n\<close> by (simp add: demo_inv_def pops_inv_def)
  ultimately show ?thesis using t by blast
qed

theorem demo_can_finish_witness:
  "\<exists>\<tau>. (demo_loop 0xAB 8 5)\<^sup>*\<^sup>* (demo_start sample_segment 1 2 16) \<tau> \<and> length (sent (dbus \<tau>)) = 5 \<and> length (lats \<tau>) = 5"
proof -
  have "demo_msg_size 0 = 8" "demo_msg_size 16 = 16" by code_simp+
  then show ?thesis using demo_can_finish [of 2 0 sample_opts sample_env sample_segment "0xAB" 5 1 2 16] sample_create by fastforce
qed

end
