(* ===== verification/Demo_Main.thy ===== *)
theory Demo_Main
  imports Demo_Progress Spsc_Open "HOL-Library.Char_ord"
begin

text \<open>
  The main functions of the bus demos and of the thread benchmark around their loops: the command line, what is set up and where
  that ends the program, the throughput, the thread that recalibrates the clock, and the wall-clock times of the consumer's report.
\<close>

section \<open>The command line\<close>

definition digit :: "char \<Rightarrow> bool" where
  "digit c \<longleftrightarrow> 48 \<le> (of_char c :: nat) \<and> (of_char c :: nat) \<le> 57"

definition space :: "char \<Rightarrow> bool" where
  "space c \<longleftrightarrow> (of_char c :: nat) = 32 \<or> 9 \<le> (of_char c :: nat) \<and> (of_char c :: nat) \<le> 13"

fun decimal :: "nat \<Rightarrow> string \<Rightarrow> nat" where
  "decimal v [] = v"
| "decimal v (c # cs) = (if digit c then decimal (10 * v + (of_char c - 48)) cs else v)"

definition sign_split :: "string \<Rightarrow> bool \<times> string" where
  "sign_split s = (case s of [] \<Rightarrow> (False, []) | c # cs \<Rightarrow>
     if c = CHR ''-'' then (True, cs) else if c = CHR ''+'' then (False, cs) else (False, s))"

text \<open>
  \<open>strtoull\<close> and, where \<open>long\<close> has 64 bits, \<open>strtoul\<close>, with base 10: a value out of range gives the largest one, a minus
  sign negates in the unsigned type. \<open>atoi\<close> is undefined for a value that is not an \<open>int\<close>.
\<close>

definition strtoull :: "string \<Rightarrow> u64" where
  "strtoull s = (case sign_split (dropWhile space s) of (neg, ds) \<Rightarrow>
     let v = decimal 0 ds in if 2 ^ 64 \<le> v then - 1 else if neg then - of_nat v else of_nat v)"

definition atoi :: "string \<Rightarrow> int option" where
  "atoi s = (case sign_split (dropWhile space s) of (neg, ds) \<Rightarrow>
     let v = (if neg then - int (decimal 0 ds) else int (decimal 0 ds)) in
     if - (2 ^ 31) \<le> v \<and> v < 2 ^ 31 then Some v else None)"

definition argument :: "string list \<Rightarrow> nat \<Rightarrow> 'a \<Rightarrow> (string \<Rightarrow> 'a) \<Rightarrow> 'a" where
  "argument argv i dflt f = (if i < length argv then f (argv ! i) else dflt)"

text \<open>Name of the bus, number of messages, size of a message: the same for both demos.\<close>

definition demo_args :: "string list \<Rightarrow> string \<times> u64 \<times> u32" where
  "demo_args argv = (argument argv 1 ''/spsc_demo'' id, argument argv 2 5000000 strtoull, demo_msg_size (argument argv 3 64 strtoull))"

text \<open>Number and size of the messages and the two cores.\<close>

definition bench_args :: "string list \<Rightarrow> u64 \<times> u32 \<times> int option \<times> int option" where
  "bench_args argv = (argument argv 1 10000000 strtoull, demo_msg_size (argument argv 2 64 strtoull),
     argument argv 3 (Some 0) atoi, argument argv 4 (Some 2) atoi)"

text \<open>Number of samples and core of bench_clock.cpp.\<close>

definition clock_args :: "string list \<Rightarrow> u64 \<times> int option" where
  "clock_args argv = (argument argv 1 10000000 strtoull, argument argv 2 (Some 0) atoi)"

fun show_decimal :: "nat \<Rightarrow> string" where
  "show_decimal n = (if n < 10 then [char_of (48 + n)] else show_decimal (n div 10) @ [char_of (48 + n mod 10)])"

declare show_decimal.simps [simp del]

lemma digit_char: "d < 10 \<Longrightarrow> digit (char_of (48 + d :: nat)) \<and> (of_char (char_of (48 + d)) :: nat) = 48 + d"
  by (simp add: digit_def)

lemma decimal_append: "\<forall>c\<in>set xs. digit c \<Longrightarrow> decimal v (xs @ ys) = decimal (decimal v xs) ys"
  by (induction xs arbitrary: v) simp_all

lemma decimal_show: "(\<forall>c\<in>set (show_decimal n). digit c) \<and> decimal 0 (show_decimal n) = n"
proof (induction n rule: show_decimal.induct)
  case (1 n)
  show ?case
  proof (cases "n < 10")
    case True
    then show ?thesis using digit_char [OF True] by (simp add: show_decimal.simps [of n])
  next
    case False
    then show ?thesis using 1 digit_char [of "n mod 10"]
      by (subst (1 2) show_decimal.simps) (simp add: decimal_append)
  qed
qed

text \<open>A number written in decimal is read back.\<close>

lemma strtoull_show: "n < 2 ^ 64 \<Longrightarrow> strtoull (show_decimal n) = of_nat n"
proof -
  assume n: "n < 2 ^ 64"
  obtain c cs where s: "show_decimal n = c # cs" by (cases "show_decimal n") (auto simp: show_decimal.simps [of n] split: if_splits)
  have "digit c" using decimal_show [of n] s by simp
  then have "\<not> space c" "c \<noteq> CHR ''-''" "c \<noteq> CHR ''+''" by (auto simp: digit_def space_def)
  moreover have "decimal 0 (c # cs) = n" using decimal_show [of n] by (simp only: s)
  ultimately show ?thesis using n s by (simp add: strtoull_def sign_split_def Let_def del: decimal.simps)
qed

section \<open>Setting up\<close>

text \<open>
  An exception that nothing catches ends the program through \<open>terminate\<close>, and so does a return from \<open>main\<close> while the
  recalibrating thread is joinable: the destructor of a \<open>std::thread\<close> then calls \<open>terminate\<close>. With \<open>Loops\<close> the program
  comes to its loop.
\<close>

datatype 'a prologue = Terminates | Loops 'a

definition kDemoCapacity :: u32 where "kDemoCapacity = 64 * 1024"

definition no_opts :: BusOptions where "no_opts = \<lparr> lock_memory = False, huge_pages = False \<rparr>"

text \<open>\<open>msg\<close> is what \<open>aligned_alloc\<close> returns.\<close>

definition producer_setup :: "string list \<Rightarrow> create_env \<Rightarrow> u64 \<Rightarrow> (segment \<times> u64 \<times> u32) prologue" where
  "producer_setup argv env msg =
     (case demo_args argv of (name, n, sz) \<Rightarrow>
      case fst (create kDemoCapacity sz no_opts env) of
        Inl e \<Rightarrow> Terminates
      | Inr s \<Rightarrow> if msg = 0 then Terminates else Loops (s, n, sz))"

text \<open>The consumer waits for the segment without a limit; \<open>None\<close> while it waits.\<close>

definition consumer_setup :: "string list \<Rightarrow> int \<Rightarrow> u32 list \<Rightarrow> attempt list \<Rightarrow> u64 \<Rightarrow> (SharedBus \<times> u64 \<times> u32) prologue option" where
  "consumer_setup argv now magics attempts buf =
     (case demo_args argv of (name, n, sz) \<Rightarrow>
      case fst (open_bus name (- 1) no_opts now magics attempts) of
        None \<Rightarrow> None
      | Some (Inl e) \<Rightarrow> Some Terminates
      | Some (Inr h) \<Rightarrow> Some (if buf = 0 then Terminates else Loops (h, n, sz)))"

text \<open>The thread beside the loops: one recalibration for each time it wakes up and the stop flag is still down.\<close>

fun recal_loop :: "(bool \<times> u64 \<times> int) list \<Rightarrow> TscClock \<Rightarrow> TscClock option" where
  "recal_loop [] clk = None"
| "recal_loop ((stopped, c) # rs) clk = (if stopped then Some clk else recal_loop rs (recalibrate c clk))"

lemma recal_loop_last:
  assumes "\<forall>r\<in>set rs. \<not> fst r" and "rs \<noteq> []"
  shows "recal_loop (rs @ [(True, c)]) clk = Some (clk\<lparr>tsc_base := fst (snd (last rs)), wall_base_ns := snd (snd (last rs))\<rparr>)"
  using assms
proof (induction rs arbitrary: clk)
  case (Cons r rs)
  then show ?case by (cases r; cases rs) (auto simp: recalibrate_def store_tsc_def store_wall_def)
qed simp

section \<open>The figures of the producer\<close>

text \<open>Seconds, messages per second and bytes (in units of \<open>2 ^ 20\<close>) per second; \<open>None\<close> where the quotient is infinite.\<close>

definition throughput :: "(real \<Rightarrow> real) \<Rightarrow> TscClock \<Rightarrow> u64 \<Rightarrow> u64 \<Rightarrow> u64 \<Rightarrow> u32 \<Rightarrow> (real \<times> real \<times> real) option" where
  "throughput rnd clk t0 t1 n sz =
     (let elapsed = rnd (delta_ns rnd (t1 - t0) clk / 1000000000) in
      if elapsed = 0 then None
      else let rate = rnd (rnd (real (unat n)) / elapsed) in
           Some (elapsed, rate, rnd (rnd (rate * real (unat sz)) / (1024 * 1024))))"

lemma throughput_elapsed:
  assumes "rnd_law rnd" and "throughput rnd clk t0 t1 n sz = Some (e, r, b)"
  shows "e = rnd (delta_ns rnd (t1 - t0) clk / 1000000000)" and "e \<noteq> 0" and "\<bar>r * e - rnd (real (unat n))\<bar> \<le> rnd (real (unat n)) / 2 ^ 53"
proof -
  show e: "e = rnd (delta_ns rnd (t1 - t0) clk / 1000000000)" "e \<noteq> 0" using assms(2) by (auto simp: throughput_def Let_def split: if_splits)
  have r: "r = rnd (rnd (real (unat n)) / e)" using assms(2) by (auto simp: throughput_def Let_def split: if_splits)
  let ?x = "rnd (real (unat n))"
  have "\<bar>r - ?x / e\<bar> \<le> \<bar>?x / e\<bar> / 2 ^ 53" using assms(1) unfolding r rnd_law_def by blast
  then have "\<bar>r - ?x / e\<bar> * \<bar>e\<bar> \<le> \<bar>?x / e\<bar> / 2 ^ 53 * \<bar>e\<bar>" by (rule mult_right_mono) simp
  moreover have "\<bar>r - ?x / e\<bar> * \<bar>e\<bar> = \<bar>r * e - ?x\<bar>" using e(2) by (simp add: left_diff_distrib flip: abs_mult)
  moreover have "\<bar>?x / e\<bar> / 2 ^ 53 * \<bar>e\<bar> = \<bar>?x\<bar> / 2 ^ 53" using e(2) by (simp add: abs_divide)
  moreover have "0 \<le> ?x"
  proof -
    define y where "y = real (unat n)"
    then have y: "0 \<le> y" by (simp only: of_nat_0_le_iff)
    moreover have "\<bar>rnd y - y\<bar> \<le> \<bar>y\<bar> / 2 ^ 53" using assms(1) unfolding rnd_law_def by blast
    ultimately have "\<bar>rnd y - y\<bar> \<le> y / 2 ^ 53" by (simp only: abs_of_nonneg)
    moreover have "y / 2 ^ 53 \<le> y / 1" using y by (intro divide_left_mono) simp_all
    ultimately show ?thesis using abs_le_D2 [of "rnd y - y" "y / 2 ^ 53"] unfolding y_def [symmetric] by linarith
  qed
  ultimately show "\<bar>r * e - ?x\<bar> \<le> ?x / 2 ^ 53" by simp
qed

section \<open>The wall-clock times of the consumer\<close>

text \<open>The consumer converts the first and the last reading of its loop at the end, with the clock as it is then.\<close>

definition wall_times :: "(real \<Rightarrow> real) \<Rightarrow> TscClock \<Rightarrow> u64 \<Rightarrow> u64 \<Rightarrow> (tsc_error + int) \<times> (tsc_error + int)" where
  "wall_times rnd clk t0 t1 = (to_wall_ns rnd t0 clk, to_wall_ns rnd t1 clk)"

text \<open>
  When the clock has been recalibrated since the first reading, which happens every five seconds, the counter's base is later than
  that reading, the unsigned difference wraps, and the time printed as the start lies centuries in the future
  (or the sum leaves the range of 64 bits).
\<close>

lemma wall_start_wraps:
  assumes "rnd_law rnd" and "0 < ghz clk" and "t0 < tsc_base clk" and "unat (tsc_base clk - t0) \<le> 2 ^ 62"
    and "fst (wall_times rnd clk t0 t1) = Inr v"
  shows "real_of_int v \<ge> real_of_int (wall_base_ns clk) + 2 ^ 63 / ghz clk - 1"
proof -
  let ?d = "t0 - tsc_base clk" and ?g = "ghz clk"
  let ?x = "rnd (rnd (real (unat ?d)) / ?g)" and ?q = "real (unat ?d) / ?g"
  have "unat ?d = 2 ^ 64 - unat (tsc_base clk - t0)"
    using assms(3) by (simp add: unat_sub_if_size word_size word_less_nat_alt)
  then have "2 ^ 64 - 2 ^ 62 \<le> unat ?d" using assms(4) by simp
  then have "real (2 ^ 64 - 2 ^ 62) \<le> real (unat ?d)" by (simp only: of_nat_le_iff)
  then have "2 ^ 64 - 2 ^ 62 \<le> real (unat ?d)" by simp
  then have q: "(2 ^ 64 - 2 ^ 62) / ?g \<le> ?q" using assms(2) by (intro divide_right_mono) simp_all
  have "?q - ?q / 2 ^ 51 \<le> ?x"
    using abs_le_D2 [OF rounded_quotient(1) [OF assms(1,2) of_nat_0_le_iff [of "unat ?d"]]] by linarith
  moreover have "2 ^ 63 / ?g \<le> ?q - ?q / 2 ^ 51"
  proof -
    have "2 ^ 63 \<le> (2 ^ 64 - 2 ^ 62) * (1 - 1 / 2 ^ 51 :: real)" by simp
    then have "2 ^ 63 / ?g \<le> (2 ^ 64 - 2 ^ 62) * (1 - 1 / 2 ^ 51) / ?g" using assms(2) by (intro divide_right_mono) simp_all
    also have "\<dots> = (2 ^ 64 - 2 ^ 62) / ?g * (1 - 1 / 2 ^ 51)" by (simp add: field_simps)
    also have "\<dots> \<le> ?q * (1 - 1 / 2 ^ 51)" using q by (intro mult_right_mono) simp_all
    finally show ?thesis by (simp add: algebra_simps)
  qed
  ultimately have x: "2 ^ 63 / ?g \<le> ?x" by linarith
  have "0 \<le> ?x" by (rule rounded_quotient(2) [OF assms(1,2) of_nat_0_le_iff])
  then have "v = wall_base_ns clk + \<lfloor>?x\<rfloor>"
    using assms(5) by (auto simp: wall_times_def to_wall_ns_def convert_def to_i64_def in_i64_def split: if_splits)
  then have "real_of_int v = real_of_int (wall_base_ns clk) + real_of_int \<lfloor>?x\<rfloor>" by simp
  moreover have "?x - 1 \<le> real_of_int \<lfloor>?x\<rfloor>" by linarith
  ultimately show ?thesis using x by linarith
qed

lemma wall_start_wraps_example:
  "wall_times (\<lambda>x. x) \<lparr> ghz = 4, tsc_base = 20000000000, wall_base_ns = 1700000000000000000 \<rparr> 0 20000000004
    = (Inr 6311686013427387904, Inr 1700000000000000001)"
  by (simp add: wall_times_def to_wall_ns_def convert_def to_i64_def in_i64_def)

section \<open>Programs together\<close>

text \<open>
  A producer whose system calls succeed comes to its loop with a segment that \<open>create\<close> made; every size on the command line
  is one the bus supports as long as it is not one of the last 72 below \<open>2 ^ 32\<close>. From there both programs can go on to their ends.
\<close>

lemma producer_setup_loops:
  assumes "0 \<le> shm_open_ret env" "0 \<le> ftruncate_ret env" "\<not> mmap_failed env" "msg \<noteq> 0"
  shows "\<exists>s. producer_setup argv env msg = Loops (s, snd (demo_args argv)) \<and>
    fst (create kDemoCapacity (snd (snd (demo_args argv))) no_opts env) = Inr s"
proof -
  have "kDemoCapacity \<noteq> 0" "kDemoCapacity AND (kDemoCapacity - 1) = 0" by code_simp+
  moreover have "snd (snd (demo_args argv)) \<noteq> 0"
    using demo_msg_size_ge [of "argument argv 3 64 strtoull"] by (auto simp: demo_args_def)
  ultimately show ?thesis using assms by (auto simp: producer_setup_def create_def Let_def split: prod.splits)
qed

lemma programs_can_finish:
  assumes "producer_setup argv1 env msg = Loops (s, m, sz)" and "unat sz \<le> 2 ^ 32 - 72"
    and "consumer_setup argv2 now magics attempts buf = Some (Loops (h, m', sz'))"
    and "(demo_step 0xAB sz (unat m))\<^sup>*\<^sup>* (demo_start s pid_p pid_c sz') \<sigma>"
  shows "\<exists>\<tau>. (demo_loop 0xAB sz (unat m))\<^sup>*\<^sup>* \<sigma> \<tau> \<and> length (lats \<tau>) = unat m"
proof -
  have c: "fst (create kDemoCapacity sz no_opts env) = Inr s" "sz = demo_msg_size (argument argv1 3 64 strtoull)"
    using assms(1) by (auto simp: producer_setup_def demo_args_def split: sum.splits if_splits)
  have "sz' = demo_msg_size (argument argv2 3 64 strtoull)"
    using assms(3) by (auto simp: consumer_setup_def demo_args_def split: option.splits sum.splits if_splits)
  then have inv: "demo_inv 0xAB sz (unat m) \<sigma>"
    using demos.along_run [OF assms(4) demo_start_inv [OF c(1) assms(2)]] demo_msg_size_ge by blast
  have "max_msg_size (ctrl (seg (dbus (demo_start s pid_p pid_c sz')))) = sz"
    using created_segment [OF c(1)] by (simp add: demo_start_def start_def new_Producer_def new_Consumer_def init_segment_def)
  from demo_finishes [OF inv _ demo_size.along_run [OF assms(4) this]] show ?thesis using demo_msg_size_ge c(2) by blast
qed

end
