(* ===== verification/Bench_Thread.thy ===== *)
theory Bench_Thread
  imports Demo_Main Latency_Report
begin

text \<open>
  The program bench_thread.cpp: the two loops of \<open>Bus_Demo\<close> as threads of one process that start on a flag.
  Its runs are runs of the loops, so the latencies it reports are those of the messages; the flag keeps the consumer
  from popping early, but it does not make the producer wait.
\<close>

section \<open>The threads\<close>

text \<open>A thread before it is ready, spinning on the flag, and in its loop.\<close>

datatype phase = Before | Spinning | InLoop

record BenchState =
  bdemo :: demo
  ready :: bool
  prod_phase :: phase
  cons_phase :: phase

text \<open>
  The main thread is the producer. It sets the flag itself before it spins on it. The consumer's thread constructs its \<open>Consumer\<close>
  whenever it gets that far. A step of a loop is the producer's if it changes the call in progress or the stamps, and the
  consumer's if it changes the pop in progress or the latencies.
\<close>

inductive bench_step :: "u32 \<Rightarrow> nat \<Rightarrow> BenchState \<Rightarrow> BenchState \<Rightarrow> bool" for sz n where
  b_ready: "prod_phase \<beta> = Before \<Longrightarrow> bench_step sz n \<beta> (\<beta>\<lparr>ready := True, prod_phase := Spinning\<rparr>)"
| b_prod_go: "\<lbrakk> prod_phase \<beta> = Spinning; ready \<beta> \<rbrakk> \<Longrightarrow> bench_step sz n \<beta> (\<beta>\<lparr>prod_phase := InLoop\<rparr>)"
| b_prod: "\<lbrakk> prod_phase \<beta> = InLoop; demo_loop 0 sz n (bdemo \<beta>) d;
      ppc (dbus d) \<noteq> ppc (dbus (bdemo \<beta>)) \<or> stamps d \<noteq> stamps (bdemo \<beta>) \<rbrakk>
    \<Longrightarrow> bench_step sz n \<beta> (\<beta>\<lparr>bdemo := d\<rparr>)"
| b_attach: "\<lbrakk> cons_phase \<beta> = Before; new_Consumer pid (seg (dbus (bdemo \<beta>))) = (c, s);
      d = (bdemo \<beta>)\<lparr>dbus := (dbus (bdemo \<beta>))\<lparr>seg := s, cons := c, cpc := CIdle\<rparr>\<rparr> \<rbrakk>
    \<Longrightarrow> bench_step sz n \<beta> (\<beta>\<lparr>bdemo := d, cons_phase := Spinning\<rparr>)"
| b_cons_go: "\<lbrakk> cons_phase \<beta> = Spinning; ready \<beta> \<rbrakk> \<Longrightarrow> bench_step sz n \<beta> (\<beta>\<lparr>cons_phase := InLoop\<rparr>)"
| b_cons: "\<lbrakk> cons_phase \<beta> = InLoop; demo_loop 0 sz n (bdemo \<beta>) d;
      cpc (dbus d) \<noteq> cpc (dbus (bdemo \<beta>)) \<or> lats d \<noteq> lats (bdemo \<beta>) \<rbrakk>
    \<Longrightarrow> bench_step sz n \<beta> (\<beta>\<lparr>bdemo := d\<rparr>)"

text \<open>
  The state before the threads start. The \<open>Producer\<close> is constructed on the fresh segment, before anything can change it;
  the stored consumer is replaced when the consumer's thread constructs its own.
\<close>

definition bench_start :: "segment \<Rightarrow> u32 \<Rightarrow> u32 \<Rightarrow> BenchState" where
  "bench_start s pid sz = \<lparr> bdemo = demo_start s pid pid sz, ready = False, prod_phase = Before, cons_phase = Before \<rparr>"

text \<open>The main function up to the threads, and its report: throughput over the producer's loop, then the latencies.\<close>

definition bench_setup :: "string list \<Rightarrow> create_env \<Rightarrow> (segment \<times> u64 \<times> u32) prologue" where
  "bench_setup argv env =
     (case bench_args argv of (n, sz, prod_core, cons_core) \<Rightarrow>
      case fst (create kDemoCapacity sz no_opts env) of Inl e \<Rightarrow> Terminates | Inr s \<Rightarrow> Loops (s, n, sz))"

definition bench_output :: "(real \<Rightarrow> real) \<Rightarrow> TscClock \<Rightarrow> u64 \<Rightarrow> u64 \<Rightarrow> u64 \<Rightarrow> u32 \<Rightarrow> u64 list
    \<Rightarrow> (real \<times> real \<times> real) option \<times> (report_error + report)" where
  "bench_output rnd clk t0 t1 n sz ls = (throughput rnd clk t0 t1 n sz, bench_report rnd clk ls)"

section \<open>Its runs are runs of the loops\<close>

definition bench_inv :: "BenchState \<Rightarrow> bool" where
  "bench_inv \<beta> \<longleftrightarrow> (prod_phase \<beta> \<noteq> Before \<longrightarrow> ready \<beta>) \<and> (cons_phase \<beta> = InLoop \<longrightarrow> ready \<beta>) \<and>
     (cons_phase \<beta> \<noteq> InLoop \<longrightarrow> cpc (dbus (bdemo \<beta>)) = CIdle \<and> rcvd (dbus (bdemo \<beta>)) = [] \<and> lats (bdemo \<beta>) = [])"

lemma loop_sides:
  assumes "demo_loop fill sz n \<sigma> \<tau>"
  shows "\<tau> = \<sigma> \<or>
    (ppc (dbus \<tau>) \<noteq> ppc (dbus \<sigma>) \<or> stamps \<tau> \<noteq> stamps \<sigma>) \<and> cpc (dbus \<tau>) = cpc (dbus \<sigma>) \<and> rcvd (dbus \<tau>) = rcvd (dbus \<sigma>) \<and> lats \<tau> = lats \<sigma> \<or>
    (cpc (dbus \<tau>) \<noteq> cpc (dbus \<sigma>) \<or> lats \<tau> \<noteq> lats \<sigma>) \<and> ppc (dbus \<tau>) = ppc (dbus \<sigma>) \<and> stamps \<tau> = stamps \<sigma>"
  using assms
proof cases
  case (d_push b)
  have "b = dbus \<sigma> \<or> ppc b \<noteq> ppc (dbus \<sigma>) \<and> rcvd b = rcvd (dbus \<sigma>)" using d_push(3,4) by cases (auto split: if_splits)
  then show ?thesis using d_push(1,4) by auto
next
  case (d_pop b)
  then show ?thesis using pop_keeps_producer [OF d_pop(4,5)] by simp
qed simp_all

interpretation bench: preserved "bench_step sz n" bench_inv
proof
  fix \<beta> \<gamma> assume "bench_inv \<beta>" and "bench_step sz n \<beta> \<gamma>"
  from this(2,1) show "bench_inv \<gamma>"
    by cases (auto simp: bench_inv_def dest: loop_sides)
qed

lemma bench_start_inv: "bench_inv (bench_start s pid sz)"
  by (simp add: bench_inv_def bench_start_def demo_start_def start_def split: prod.splits)

lemma bench_step_demo:
  assumes "bench_step sz n \<beta> \<gamma>" and "bench_inv \<beta>"
  shows "(demo_step 0 sz n)\<^sup>*\<^sup>* (bdemo \<beta>) (bdemo \<gamma>)"
  using assms
proof cases
  case (b_attach pid c s d)
  then have "cpc (dbus (bdemo \<beta>)) = CIdle" using assms(2) by (simp add: bench_inv_def)
  from demo_step.d_attach [OF this b_attach(3), of 0 sz n] b_attach(1,4) show ?thesis by auto
qed (auto intro: demo_step.d_loop)

theorem bench_is_demo:
  assumes "(bench_step sz n)\<^sup>*\<^sup>* (bench_start s pid k) \<beta>"
  shows "(demo_step 0 sz n)\<^sup>*\<^sup>* (demo_start s pid pid k) (bdemo \<beta>) \<and> (lats (bdemo \<beta>) \<noteq> [] \<longrightarrow> ready \<beta>)"
  using assms
proof (induction rule: rtranclp_induct)
  case base
  then show ?case by (simp add: bench_start_def demo_start_def)
next
  case (step \<beta> \<gamma>)
  have inv: "bench_inv \<beta>" by (rule bench.along_run [OF step.hyps(1) bench_start_inv])
  have "bench_inv \<gamma>" by (rule bench.keep [OF inv step.hyps(2)])
  then have "lats (bdemo \<gamma>) \<noteq> [] \<longrightarrow> ready \<gamma>" by (auto simp: bench_inv_def)
  moreover have "(demo_step 0 sz n)\<^sup>*\<^sup>* (demo_start s pid pid k) (bdemo \<gamma>)"
    using step.IH bench_step_demo [OF step.hyps(2) inv] rtranclp_trans [of "demo_step 0 sz n"] by blast
  ultimately show ?case by blast
qed

section \<open>To the end of the benchmark\<close>

text \<open>Both threads come to their loops.\<close>

lemma bench_both_loop:
  assumes "bench_inv \<beta>"
  shows "\<exists>\<gamma>. (bench_step sz n)\<^sup>*\<^sup>* \<beta> \<gamma> \<and> prod_phase \<gamma> = InLoop \<and> cons_phase \<gamma> = InLoop"
proof -
  have go: "\<exists>\<gamma>. (bench_step sz n)\<^sup>*\<^sup>* \<beta>' \<gamma> \<and> prod_phase \<gamma> = InLoop \<and> cons_phase \<gamma> = cons_phase \<beta>' \<and> ready \<gamma>" if "bench_inv \<beta>'" for \<beta>'
  proof -
    have spin: "\<exists>\<gamma>. (bench_step sz n)\<^sup>*\<^sup>* \<alpha> \<gamma> \<and> prod_phase \<gamma> = InLoop \<and> cons_phase \<gamma> = cons_phase \<alpha> \<and> ready \<gamma>"
      if "prod_phase \<alpha> = Spinning" "ready \<alpha>" for \<alpha>
      using r_into_rtranclp [of "bench_step sz n", OF b_prod_go [OF that]] that(2) by (intro exI [of _ "\<alpha>\<lparr>prod_phase := InLoop\<rparr>"]) simp
    show ?thesis
    proof (cases "prod_phase \<beta>'")
      case Before
      let ?\<alpha> = "\<beta>'\<lparr>ready := True, prod_phase := Spinning\<rparr>"
      from spin [of ?\<alpha>] obtain \<gamma> where "(bench_step sz n)\<^sup>*\<^sup>* ?\<alpha> \<gamma>" "prod_phase \<gamma> = InLoop" "cons_phase \<gamma> = cons_phase \<beta>'" "ready \<gamma>"
        by auto
      then show ?thesis using converse_rtranclp_into_rtranclp [of "bench_step sz n", OF b_ready [OF Before]] by blast
    qed (use that spin in \<open>auto simp: bench_inv_def\<close>)
  qed
  from go [OF assms] obtain \<beta>1 where 1: "(bench_step sz n)\<^sup>*\<^sup>* \<beta> \<beta>1" "prod_phase \<beta>1 = InLoop" "ready \<beta>1" by blast
  have spin: "\<exists>\<gamma>. (bench_step sz n)\<^sup>*\<^sup>* \<alpha> \<gamma> \<and> prod_phase \<gamma> = InLoop \<and> cons_phase \<gamma> = InLoop"
    if "cons_phase \<alpha> = Spinning" "ready \<alpha>" "prod_phase \<alpha> = InLoop" for \<alpha>
    using r_into_rtranclp [of "bench_step sz n", OF b_cons_go [OF that(1,2)]] that(3) by (intro exI [of _ "\<alpha>\<lparr>cons_phase := InLoop\<rparr>"]) simp
  have "\<exists>\<gamma>. (bench_step sz n)\<^sup>*\<^sup>* \<beta>1 \<gamma> \<and> prod_phase \<gamma> = InLoop \<and> cons_phase \<gamma> = InLoop"
  proof (cases "cons_phase \<beta>1")
    case Before
    obtain c s where cs: "new_Consumer 0 (seg (dbus (bdemo \<beta>1))) = (c, s)" by force
    let ?\<alpha> = "\<beta>1\<lparr>bdemo := (bdemo \<beta>1)\<lparr>dbus := (dbus (bdemo \<beta>1))\<lparr>seg := s, cons := c, cpc := CIdle\<rparr>\<rparr>, cons_phase := Spinning\<rparr>"
    from spin [of ?\<alpha>] 1(2,3) obtain \<gamma> where "(bench_step sz n)\<^sup>*\<^sup>* ?\<alpha> \<gamma>" "prod_phase \<gamma> = InLoop" "cons_phase \<gamma> = InLoop" by auto
    then show ?thesis using converse_rtranclp_into_rtranclp [of "bench_step sz n", OF b_attach [OF Before cs refl]] by blast
  qed (use spin 1(2,3) in auto)
  with 1(1) show ?thesis by (meson rtranclp_trans)
qed

lemma bench_follows_loops:
  assumes "(demo_loop 0 sz n)\<^sup>*\<^sup>* (bdemo \<beta>) d" and "prod_phase \<beta> = InLoop" "cons_phase \<beta> = InLoop"
  shows "(bench_step sz n)\<^sup>*\<^sup>* \<beta> (\<beta>\<lparr>bdemo := d\<rparr>)"
  using assms(1)
proof (induction rule: rtranclp_induct)
  case (step d d')
  let ?\<beta> = "\<beta>\<lparr>bdemo := d\<rparr>"
  have "d' = d \<or> bench_step sz n ?\<beta> (\<beta>\<lparr>bdemo := d'\<rparr>)"
    using loop_sides [OF step.hyps(2)] b_prod [of ?\<beta> sz n d'] b_cons [of ?\<beta> sz n d'] step.hyps(2) assms(2,3) by auto
  then show ?case using step.IH by (auto intro: rtranclp.rtrancl_into_rtrancl)
qed simp

text \<open>
  The whole program: when \<open>create\<close> succeeds, every run of the two threads can go on to the end, and then the report is over the
  latencies of the \<open>n\<close> messages and is defined if there is at least one.
\<close>

theorem bench_thread_reports:
  assumes "bench_setup argv env = Loops (s, n, sz)" and "unat sz \<le> 2 ^ 32 - 72" and "rnd_law rnd"
    and run: "(bench_step sz (unat n))\<^sup>*\<^sup>* (bench_start s pid sz) \<beta>"
  shows "\<exists>\<gamma>. (bench_step sz (unat n))\<^sup>*\<^sup>* \<beta> \<gamma> \<and> length (lats (bdemo \<gamma>)) = unat n \<and>
    lats (bdemo \<gamma>) = map2 (\<lambda>r t. r - t) (recvs (bdemo \<gamma>)) (stamps (bdemo \<gamma>)) \<and>
    (snd (bench_output rnd clk t0 t1 n sz (lats (bdemo \<gamma>))) = Inl Outside \<longleftrightarrow> n = 0)"
proof -
  have c: "fst (create kDemoCapacity sz no_opts env) = Inr s" and sz: "sz = demo_msg_size (argument argv 2 64 strtoull)"
    using assms(1) by (auto simp: bench_setup_def bench_args_def split: sum.splits)
  have i: "bench_inv \<beta>" by (rule bench.along_run [OF run bench_start_inv])
  obtain \<gamma> where g: "(bench_step sz (unat n))\<^sup>*\<^sup>* \<beta> \<gamma>" "prod_phase \<gamma> = InLoop" "cons_phase \<gamma> = InLoop"
    using bench_both_loop [OF i] by blast
  have "(demo_step 0 sz (unat n))\<^sup>*\<^sup>* (demo_start s pid pid sz) (bdemo \<gamma>)"
    using bench_is_demo [OF rtranclp_trans [OF run g(1)]] by blast
  then have inv: "demo_inv 0 sz (unat n) (bdemo \<gamma>)" and size: "max_msg_size (ctrl (seg (dbus (bdemo \<gamma>)))) = sz"
    using demos.along_run [OF _ demo_start_inv [OF c assms(2)]] demo_msg_size_ge sz demo_size.along_run [of 0 sz "unat n"]
      created_segment [OF c] by (auto simp: demo_start_def start_def new_Producer_def new_Consumer_def init_segment_def)
  obtain d where d: "(demo_loop 0 sz (unat n))\<^sup>*\<^sup>* (bdemo \<gamma>) d" "length (lats d) = unat n"
    using demo_finishes [OF inv _ size] demo_msg_size_ge sz by blast
  have e: "demo_inv 0 sz (unat n) d" by (rule loops.along_run [OF d(1) inv])
  then have "length (stamps d) = unat n" using demo_frame [OF e] d(2) by simp
  then have "lats d = map2 (\<lambda>r t. r - t) (recvs d) (stamps d)" using e d(2) by (simp add: demo_inv_def pops_inv_def)
  moreover have "length (lats d) < 2 ^ 64" using d(2) unsigned_less [of n] by simp
  then have "bench_report rnd clk (lats d) = Inl Outside \<longleftrightarrow> lats d = []"
    using reports_defined [OF assms(3), of "[]" "lats d"] by simp
  then have "bench_report rnd clk (lats d) = Inl Outside \<longleftrightarrow> n = 0" using d(2) by (auto simp: unat_eq_0)
  moreover have "(bench_step sz (unat n))\<^sup>*\<^sup>* \<beta> (\<gamma>\<lparr>bdemo := d\<rparr>)"
    using rtranclp_trans [OF g(1) bench_follows_loops [OF d(1) g(2,3)]] .
  ultimately show ?thesis using d(2) by (intro exI [of _ "\<gamma>\<lparr>bdemo := d\<rparr>"]) (simp add: bench_output_def)
qed

text \<open>
  The flag does not make the producer wait: it can take its first stamp while the consumer's thread has not begun, so the first
  latencies contain the start of that thread.
\<close>

lemma producer_does_not_wait:
  assumes "0 < n"
  shows "\<exists>\<beta>. (bench_step sz n)\<^sup>*\<^sup>* (bench_start s pid sz) \<beta> \<and> stamps (bdemo \<beta>) = [t] \<and> cons_phase \<beta> = Before"
proof -
  let ?b0 = "bench_start s pid sz"
  let ?b2 = "?b0\<lparr>ready := True, prod_phase := InLoop\<rparr>" and ?d = "(bdemo (bench_start s pid sz))\<lparr>stamps := [t]\<rparr>"
  have "bench_step sz n ?b0 (?b0\<lparr>ready := True, prod_phase := Spinning\<rparr>)" by (rule b_ready) (simp add: bench_start_def)
  moreover have "bench_step sz n (?b0\<lparr>ready := True, prod_phase := Spinning\<rparr>) ?b2"
    using b_prod_go [of "?b0\<lparr>ready := True, prod_phase := Spinning\<rparr>" sz n] by simp
  moreover have "demo_loop 0 sz n (bdemo ?b2) ?d"
    using d_stamp [of "bdemo ?b2" n 0 sz t] assms by (simp add: bench_start_def demo_start_def start_def split: prod.splits)
  then have "bench_step sz n ?b2 (?b2\<lparr>bdemo := ?d\<rparr>)"
    by (intro b_prod) (simp_all add: bench_start_def demo_start_def)
  ultimately have "(bench_step sz n)\<^sup>*\<^sup>* ?b0 (?b2\<lparr>bdemo := ?d\<rparr>)"
    by (meson converse_rtranclp_into_rtranclp rtranclp.rtrancl_refl)
  then show ?thesis by (intro exI [of _ "?b2\<lparr>bdemo := ?d\<rparr>"]) (simp add: bench_start_def)
qed

end
