(* ===== verification/Spec2Isabelle.thy ===== *)
theory Spec2Isabelle
  imports Spsc_Blocking Spsc_Concurrent Spsc_Recovery Spsc_Wait_Free Spsc_Open Spsc_Notify Pool_Cache Pool_Wait_Free
    Timer_Runs Epoll_Sessions Tcp_Service Tsc_Clock Pool_Bench Bench_Thread
begin

text \<open>
  A verification library for a set of low-latency C++ components. They are separate libraries that a
  process combines: a shared-memory ring between two processes (src/spsc_bus/spsc_bus.hpp), a memory pool whose
  free list is such a ring inside one process, with a thread-local cache and size classes on top
  (src/memory_pool/memory_pool.hpp), two timer managers (src/timer/include/timer_wheel.hpp and
  src/timer/src/epoll_timer.cpp), a TCP request server with its protocol, client and thread pool
  (src/tcp_server/src), and a clock on the processor's time stamp counter (src/common/tsc_clock.hpp). Demos and benchmarks
  put the bus, the pool and the clock together.

  \<^bold>\<open>Conventions.\<close> Unsigned integers are words of their width and wrap; signed integers are \<open>int\<close>. Where a sum
  of times, the spin counter or the total of \<open>advance\<close> can leave its range the operation returns an error value, because
  the language leaves it undefined. The other \<open>int\<close> counters are natural numbers: those of one slot in \<open>fire_slot\<close> and
  \<open>cascade\<close> and of one drain in \<open>drain_loop\<close>, which \<open>2 ^ 31\<close> entries of one list or runs in one drain would overflow. A
  reading of \<open>CLOCK_MONOTONIC\<close> is taken to fit in nanoseconds.
  An operation takes the fields of its object and returns them updated. Exceptions are \<open>Inl\<close> results. What system
  calls, the clock, callbacks and request handlers answer is data or a function given to the model;
  what a proof needs of it is a named predicate (\<open>recv_law\<close>, \<open>send_law\<close>, \<open>settime_ok\<close>, \<open>min_heap\<close>, \<open>rnd_law\<close>,
  \<open>eventfd_law\<close>, \<open>poll_law\<close>, \<open>pool_env_ok\<close>)
  that states the documented behaviour and holds of a concrete instance in the witnesses.

  \<^bold>\<open>Shared theories.\<close>
  \<^item> \<open>Prelude\<close>: machine words, powers of two, byte-addressed memory with 32-bit loads and stores, and the named
    collections of rewrite rules.
  \<^item> \<open>Fifo\<close>: the locale of a bounded queue with its run against a list of messages; ring indices.
  \<^item> \<open>Transitions\<close>: the locales of step relations with an invariant, with a bounding measure, and with one side whose
    call ends after a bounded number of its own steps.

  \<^bold>\<open>The bus.\<close>
  \<^item> \<open>Spsc_Layout\<close>: \<open>ControlBlock\<close>, \<open>SlotHeader\<close>, \<open>compute_slot_stride\<close>, \<open>compute_shm_size\<close>, \<open>slot_ptr\<close>; slots are
    disjoint.
  \<^item> \<open>Spsc_Bus\<close>: \<open>SharedBus::create\<close> on every branch, \<open>Producer\<close> and \<open>Consumer\<close> with \<open>try_push\<close> and \<open>try_pop\<close>; the
    queue locale is interpreted on them, and any sequence of calls is shown to be the same calls on a bounded list;
    bounds of the layout, and where the stored stride is cut off.
  \<^item> \<open>Spsc_Blocking\<close>: \<open>push\<close>, \<open>pop\<close>, \<open>push_checked\<close>, \<open>pop_checked\<close>, heartbeats and peer status. The spins have
    fuel; the theorems give the fuel after which the call has returned, or show that none is enough.
  \<^item> \<open>Spsc_Concurrent\<close>: the calls split into their memory accesses, interleaved with acquire loads that may
    return an older value; first-in first-out order and absence of races for every run, and the calls of
    \<open>Spsc_Bus\<close> are runs of it.
  \<^item> \<open>Spsc_Recovery\<close>: processes that die at any access and attach again, which loses nothing, and a second \<open>create\<close>
    under an attached consumer, which stops the traffic.
  \<^item> \<open>Spsc_Lossy\<close>: \<open>OverwriteProducer\<close> and \<open>try_pop_lossy\<close>: which message a pop returns, a lapped consumer
    included.
  \<^item> \<open>Spsc_Seqlock\<close>, \<open>Spsc_Seqlock_Props\<close>: the same two at the same time, access by access in program order: no
    torn message gets through while the 32-bit generation does not come round between its two readings; the
    calls of \<open>Spsc_Lossy\<close> are runs of it.
  \<^item> \<open>Spsc_Wait_Free\<close>: each call of the bus, the overwriting producer's and the lossy consumer's too, returns after a
    bounded number of its own steps, whatever the other side does.
  \<^item> \<open>Spsc_Open\<close>: \<open>SharedBus::open\<close> with its retries, and the moves and destructor of the handle: open ends within
    its limit except for the wait for the magic; every mapping is unmapped once; \<open>unlink\<close>.
  \<^item> \<open>Spsc_Notify\<close>: \<open>Notifier\<close> over the \<open>eventfd\<close> calls, and with the bus: a consumer that drains the ring after each
    wait never sleeps on a message.

  \<^bold>\<open>The memory pool.\<close>
  \<^item> \<open>Pool_Freelist\<close>: \<open>SPSCFreeList\<close>, the second interpretation of the queue locale.
  \<^item> \<open>Memory_Pool\<close>: \<open>MemoryPool\<close> with and without \<open>NDEBUG\<close>; the locale of an allocator and its clients; no block is
    handed out twice; the sizes, and where the size of the mapping wraps; the destructor.
  \<^item> \<open>Pool_Concurrent\<close>: \<open>alloc\<close> and \<open>free\<close> on two threads, access by access: no assertion fails and every block is in
    one place; the calls of \<open>Memory_Pool\<close> are runs of it.
  \<^item> \<open>Pool_Wait_Free\<close>: the same bound on own steps for \<open>alloc\<close> and \<open>free\<close>.
  \<^item> \<open>Pool_Cache\<close>: \<open>ThreadLocalCache\<close> as an allocator again, \<open>size_to_class\<close> and \<open>SlabPool\<close>.

  \<^bold>\<open>The timers.\<close>
  \<^item> \<open>Timer_Wheel\<close>, \<open>Timer_Inv\<close>, \<open>Timer_Spec\<close>, \<open>Timer_Props\<close>: the four-level wheel, its invariant, a flat table of
    timers as its specification, and the refinement of one tick. Callbacks are programs over \<open>schedule\<close>,
    \<open>schedule_periodic\<close> and \<open>cancel\<close>.
  \<^item> \<open>Timer_Runs\<close>: \<open>advance\<close> over any number of ticks: every timer runs exactly at its tick, for callbacks that schedule
    and cancel other timers; \<open>tame\<close> bounds what they may do (at most \<open>2 ^ 16\<close> timers in one run, so that ids do not come
    round before \<open>2 ^ 31\<close> runs overflow the total), \<open>ends_undefined\<close> says when the call is undefined.
  \<^item> \<open>Epoll_Timer\<close>, \<open>Epoll_Inv\<close>, \<open>Epoll_Props\<close>: the heap with lazy deletion, \<open>drain_expired\<close>, \<open>run_once\<close> and \<open>run\<close>; what a
    drain runs, and that the \<open>timerfd\<close> is never set too late. The loop of a drain has fuel because callbacks may add
    timers that are due; with callbacks that do not, one more than the length of the heap is shown to be
    enough. The rounds of \<open>run\<close> and of the other waiting loops are lists of what the system answers; \<open>None\<close> means
    that the call is still running at the end of the list.
  \<^item> \<open>Epoll_Sessions\<close>: sessions in which calls throw and the client goes on: no live timer is lost from the heap. Also
    \<open>push_entry\<close>, which nothing calls.

  \<^bold>\<open>The server.\<close>
  \<^item> \<open>Tcp_Protocol\<close>: framing over transfers that may be split and fail anywhere; round trips, and the frames that
    are accepted.
  \<^item> \<open>Tcp_Server\<close>: the listening socket, the accept loop, \<open>handle_connection\<close>, and the client. A \<open>recv\<close> that returns nothing
    stands for the end of the stream, an error and a timeout alike, as the code treats them.
  \<^item> \<open>Thread_Pool\<close>: \<open>submit\<close>, \<open>shutdown\<close> and the workers as a step relation over critical sections; each task runs
    once, no wakeup is lost, shutdown drains the queue and ends, if there is a worker.
  \<^item> \<open>Tcp_Service\<close>: accept loop, pool and connections together: after the stop every accepted connection is
    handled once, and the destructor returns.
  \<^item> This theory: client and server together.

  \<^bold>\<open>The clock.\<close> \<open>Tsc_Clock\<close>: calibration, conversion and recalibration over reals with a rounding function for the
    \<open>double\<close> arithmetic; the error of a conversion, and of one that overlaps a recalibration.

  \<^bold>\<open>Demos and benchmarks.\<close>
  \<^item> \<open>Latency_Report\<close>: the percentiles and reports of bench_thread.cpp, consumer_demo.cpp, bench_clock.cpp and
    bench_pool.cpp: which sample a percentile is, and that a report needs at least one sample.
  \<^item> \<open>Pool_Bench\<close>: the program bench_pool.cpp, proved from the locale of an allocator; the slab is interpreted as one.
  \<^item> \<open>Bus_Demo\<close>: the two loops of producer_demo.cpp, consumer_demo.cpp and bench_thread.cpp over the steps of the bus: the
    latencies are those of the messages they stand for.
  \<^item> \<open>Demo_Progress\<close>: the two programs can go on to their ends from every state they reach.
  \<^item> \<open>Demo_Main\<close>: the main functions around the loops: command line, set-up, throughput, the thread that recalibrates the
    clock, and the wall-clock times, of which the first is wrong after a recalibration.
  \<^item> \<open>Bench_Thread\<close>: bench_thread.cpp as two threads that start on a flag: its runs are runs of the loops, it can always
    end, and its report is defined for at least one message.

  \<^bold>\<open>Not modelled.\<close> The printed text of the demos and benchmarks, how bench_clock.cpp pins itself to a core, and a
  failing allocation in bench_thread.cpp, which does not test for it; tasks, callbacks and handlers that throw; results of
  \<open>double\<close> arithmetic outside the range of finite values; accesses that a weakly ordered processor reorders, except that
  a load of a position may return an older value.
\<close>

section \<open>Client and server together\<close>

text \<open>A client that sends its requests one after the other, and one that collects \<open>n\<close> responses.\<close>

fun send_requests :: "'s send_fun \<Rightarrow> Request list \<Rightarrow> 's \<Rightarrow> bool \<times> 's" where
  "send_requests send [] s = (True, s)"
| "send_requests send (r # rs) s =
     (case client_send send r s of (ok, s') \<Rightarrow> if ok then send_requests send rs s' else (False, s'))"

fun recv_responses :: "'s recv_fun \<Rightarrow> nat \<Rightarrow> Response \<Rightarrow> 's \<Rightarrow> Response list \<times> 's" where
  "recv_responses recv 0 out s = ([], s)"
| "recv_responses recv (Suc n) out s =
     (case client_recv recv out s of (ok, r, s') \<Rightarrow>
        if ok then (case recv_responses recv n r s' of (rs, s'') \<Rightarrow> (r # rs, s'')) else ([], s'))"

lemma send_requests_result:
  assumes "send_law send outp" and "send_live send" and "\<forall>r\<in>set reqs. length (rq_payload r) \<le> 65535"
  shows "\<exists>s'. send_requests send reqs s = (True, s') \<and> outp s' = outp s @ concat (map request_bytes reqs)"
  using assms(3)
proof (induction reqs arbitrary: s)
  case (Cons r reqs)
  obtain ok s1 where r: "send_request send r s = (ok, s1)" by force
  then have "ok" "outp s1 = outp s @ request_bytes r"
    using send_request_result [OF assms(1), of r s] assms(2) Cons.prems by auto
  moreover obtain s' where "send_requests send reqs s1 = (True, s')"
    "outp s' = outp s1 @ concat (map request_bytes reqs)" using Cons by auto
  ultimately show ?case using r by (simp add: client_send_def)
qed simp

lemma recv_responses_result:
  assumes "recv_law recv inp" and "recv_live recv inp"
    and "\<forall>r\<in>set rs. length (rs_payload r) \<le> 65535 \<and> status_ok (rs_status r)"
    and "inp s = concat (map response_bytes rs) @ rest"
  shows "\<exists>s'. recv_responses recv (length rs) out s = (rs, s') \<and> inp s' = rest"
  using assms(3,4)
proof (induction rs arbitrary: s out)
  case (Cons r rs)
  then obtain s1 where "recv_response recv out s = (True, r, s1)" "inp s1 = concat (map response_bytes rs) @ rest"
    using recv_response_complete [OF assms(1,2), of s r _ out] by auto
  moreover from this obtain s' where "recv_responses recv (length rs) r s1 = (rs, s')" "inp s' = rest"
    using Cons by auto
  ultimately show ?case by (simp add: client_recv_def)
qed simp

text \<open>C9. A whole exchange works end to end. A client sends any number of requests; the
  server's connection is fed those bytes and then the end of the stream; the client reads what the server
  wrote. Then the server closes the connection and the client receives exactly the
  handler's responses, one for each request, in order, however either side's transfers are
  fragmented. Required are payloads of at most 65535 bytes and a status that a byte can carry.\<close>

theorem exchange:
  assumes client: "send_law csend cout" "send_live csend" "recv_law crecv cin" "recv_live crecv cin"
    and server: "recv_law srecv srvin" "recv_live srecv srvin" "send_law ssend srvout" "send_live ssend" "duplex srecv ssend srvin srvout"
    and reqs: "\<forall>r\<in>set reqs. length (rq_payload r) \<le> 65535 \<and> small_response (handler r) \<and> status_ok (rs_status (handler r))"
    and s: "srvin s = drop (length (cout c)) (cout (snd (send_requests csend reqs c)))"
  shows "\<exists>s'. handle_connection srecv ssend close handler s = Some (close s') \<and>
    (\<forall>d out. cin d = drop (length (srvout s)) (srvout s') \<longrightarrow>
       (\<exists>d'. recv_responses crecv (length reqs) out d = (map handler reqs, d') \<and> cin d' = []))"
proof -
  have "srvin s = concat (map request_bytes reqs) @ []"
    using send_requests_result [OF client(1,2), of reqs c] reqs s by auto
  moreover have "no_request []" by (simp add: no_request_def request_bytes_def frame_def be32_bytes_def le32_bytes_def)
  ultimately obtain s' where s': "handle_connection srecv ssend close handler s = Some (close s')"
    "srvout s' = srvout s @ concat (map response_bytes (served handler reqs))"
    using connection_run [OF server, of s reqs "[]"] reqs by blast
  have "served handler reqs = map handler reqs"
    using reqs by (simp add: served_def takeWhile_eq_all_conv [THEN iffD2])
  then have "\<exists>d'. recv_responses crecv (length reqs) out d = (map handler reqs, d') \<and> cin d' = []"
    if "cin d = drop (length (srvout s)) (srvout s')" for d out
    using recv_responses_result [OF client(3,4), of "map handler reqs" d "[]" out] that s'(2) reqs
    by (auto simp: small_response_def)
  with s'(1) show ?thesis by blast
qed

definition sample_requests :: "Request list" where
  "sample_requests = [\<lparr> rq_id = 1, rq_type = 7, rq_payload = [42] \<rparr>, \<lparr> rq_id = 2, rq_type = 8, rq_payload = [] \<rparr>]"

theorem exchange_witness:
  "\<exists>s'. handle_connection dribble_recv dribble_send id echo
      (snd (snd (send_requests dribble_send sample_requests ([], []))), []) = Some (id s')
    \<and> fst (recv_responses dribble_recv (length sample_requests) (echo fresh_request) (snd s', [])) = map echo sample_requests"
proof -
  let ?i = "snd (snd (send_requests dribble_send sample_requests ([], [])))"
  have reqs: "\<forall>r\<in>set sample_requests. length (rq_payload r) \<le> 65535 \<and> small_response (echo r) \<and> status_ok (rs_status (echo r))"
    by (simp add: sample_requests_def small_response_def echo_def status_ok_def status_byte_def status_of_def)
  have inp: "fst (?i, [] :: bytes) = drop (length (snd ([] :: bytes, [] :: bytes))) ?i" by simp
  obtain s' where s': "handle_connection dribble_recv dribble_send id echo (?i, []) = Some (id s')"
    and r: "\<forall>d out. fst d = drop (length (snd (?i, [] :: bytes))) (snd s') \<longrightarrow>
       (\<exists>d'. recv_responses dribble_recv (length sample_requests) out d = (map echo sample_requests, d') \<and> fst d' = [])"
    using exchange [OF dribble_laws(3,4,1,2) dribble_laws dribble_duplex reqs inp, of id] by blast
  have "fst (recv_responses dribble_recv (length sample_requests) (echo fresh_request) (snd s', [])) = map echo sample_requests"
    using r [rule_format, of "(snd s', [])" "echo fresh_request"] by auto
  with s' show ?thesis by blast
qed

end
